(* ===== verification/Prelude.thy ===== *)
theory Prelude
  imports Main "HOL-Library.Word" "HOL-Library.Monad_Syntax"
begin

unbundle bit_operations_syntax

text \<open>
  Shared vocabulary of the development: machine integers, kernel pointers, the panic
  monad, error numbers, and generic lemmas on lists and options that the component
  theories use.

  A call that may reach \<open>panic\<close> (directly, or through the \<open>assert\<close> of
  \<open>include/assert.h\<close>, which is active under \<open>CONFIG_DEBUG=y\<close>, the default of
  \<open>config.cfg\<close>) has a result of type \<open>'a option\<close>: \<open>None\<close> is the halted kernel.
\<close>

section \<open>Types\<close>

type_synonym u8 = "8 word"
type_synonym u16 = "16 word"
type_synonym u32 = "32 word"
type_synonym u64 = "64 word"

text \<open>A kernel address; \<open>0\<close> is \<open>NULL\<close>.\<close>

type_synonym ptr = nat

abbreviation (input) NULL :: ptr where "NULL \<equiv> 0"

section \<open>Panics\<close>

definition kassert :: "bool \<Rightarrow> unit option" where
  "kassert b = (if b then Some () else None)"

lemma kassert_simps [simp]: "kassert True = Some ()" "kassert False = None"
  by (simp_all add: kassert_def)

lemma kassert_eq_Some [simp]: "kassert b = Some u \<longleftrightarrow> b"
  by (simp add: kassert_def)

lemma kassert_bind [simp]: "(kassert b \<bind> f) = (if b then f () else None)"
  by (simp add: kassert_def)

lemma bind_eq_SomeE:
  assumes "(x \<bind> f) = Some y"
  obtains z where "x = Some z" "f z = Some y"
  using assms by (cases x) auto

section \<open>Error numbers (include/errno.h)\<close>

definition EPERM :: int where "EPERM = 1"
definition ENOENT :: int where "ENOENT = 2"
definition ESRCH :: int where "ESRCH = 3"
definition EINTR :: int where "EINTR = 4"
definition EIO :: int where "EIO = 5"
definition EBADF :: int where "EBADF = 9"
definition ECHILD :: int where "ECHILD = 10"
definition EAGAIN :: int where "EAGAIN = 11"
definition ENOMEM :: int where "ENOMEM = 12"
definition EACCES :: int where "EACCES = 13"
definition EFAULT :: int where "EFAULT = 14"
definition EEXIST :: int where "EEXIST = 17"
definition EXDEV :: int where "EXDEV = 18"
definition ENOTDIR :: int where "ENOTDIR = 20"
definition EISDIR :: int where "EISDIR = 21"
definition EINVAL :: int where "EINVAL = 22"
definition EMFILE :: int where "EMFILE = 24"
definition ENOSPC :: int where "ENOSPC = 28"
definition ESPIPE :: int where "ESPIPE = 29"
definition EPIPE :: int where "EPIPE = 32"
definition ERANGE :: int where "ERANGE = 34"
definition ENOTEMPTY :: int where "ENOTEMPTY = 39"
definition ELOOP :: int where "ELOOP = 40"

named_theorems errno_defs

lemmas [errno_defs] = ENOENT_def EINTR_def EIO_def EAGAIN_def ENOMEM_def EACCES_def
  EFAULT_def EEXIST_def EINVAL_def EMFILE_def EPIPE_def EPERM_def ESRCH_def EBADF_def ECHILD_def
  EXDEV_def ENOTDIR_def EISDIR_def ENOSPC_def ESPIPE_def ERANGE_def ENOTEMPTY_def ELOOP_def

section \<open>Lists\<close>

lemma hd_append_single [simp]: "hd (xs @ [a]) = (if xs = [] then a else hd xs)"
  by (cases xs) auto

lemma distinct_split_unique:
  assumes "distinct (as @ x # bs)"
  shows "remove1 x (as @ x # bs) = as @ bs"
  using assms by (simp add: remove1_append)

lemma sint_word_of_int64:
  "- (2 ^ 63) \<le> k \<Longrightarrow> k < 2 ^ 63 \<Longrightarrow> sint (word_of_int k :: 64 word) = k"
  by (simp add: signed_take_bit_int_eq_self sint_sbintrunc')

lemma unat_of_nat64: "n < 2 ^ 64 \<Longrightarrow> unat (of_nat n :: 64 word) = n"
  by (simp add: unat_of_nat take_bit_eq_mod)

lemma distinct_singleton: "distinct xs \<Longrightarrow> set xs = {x} \<Longrightarrow> xs = [x]"
proof (cases xs)
  case (Cons y ys)
  moreover assume "distinct xs" "set xs = {x}"
  ultimately show ?thesis by (cases ys) auto
qed simp

end
