(* ===== verification/LinkedList.thy ===== *)
theory LinkedList
  imports Prelude
begin

text \<open>
  The intrusive doubly linked list of \<open>include/lib/linkedlist.h\<close> and
  \<open>lib/ds/linkedlist.c\<close>, at the level of its pointers. A memory maps addresses to
  \<open>struct linkedentry\<close> and \<open>struct linkedlist\<close>; the sentry entry is embedded in the
  list structure. \<open>ll_rep m l xs\<close> says that the list at address \<open>l\<close> is well formed and
  holds the entries \<open>xs\<close>, head first; the refinement lemmas show what every operation
  does to \<open>xs\<close>. The locale \<open>entry_list\<close> is the contract the rest of the kernel relies
  on, interpreted on these definitions.
\<close>

section \<open>Structures\<close>

record linkedentry =
  le_obj :: ptr
  le_list :: ptr
  le_next :: ptr
  le_prev :: ptr

record linkedlist =
  ll_head :: ptr
  ll_lock :: bool
  ll_count :: int
  ll_flags :: u32

record llmem =
  entm :: "ptr \<Rightarrow> linkedentry"
  listm :: "ptr \<Rightarrow> linkedlist"

definition LINKEDLIST_LOCKLESS :: u32 where "LINKEDLIST_LOCKLESS = 1"

text \<open>\<open>&list->sentry\<close>: the entry embedded after the \<open>head\<close> pointer.\<close>

definition sentry :: "ptr \<Rightarrow> ptr" where "sentry l = l + 8"

section \<open>Field accesses\<close>

definition set_obj :: "ptr \<Rightarrow> ptr \<Rightarrow> llmem \<Rightarrow> llmem" where
  "set_obj p v m = m\<lparr>entm := (entm m)(p := (entm m p)\<lparr>le_obj := v\<rparr>)\<rparr>"

definition set_list :: "ptr \<Rightarrow> ptr \<Rightarrow> llmem \<Rightarrow> llmem" where
  "set_list p v m = m\<lparr>entm := (entm m)(p := (entm m p)\<lparr>le_list := v\<rparr>)\<rparr>"

definition set_next :: "ptr \<Rightarrow> ptr \<Rightarrow> llmem \<Rightarrow> llmem" where
  "set_next p v m = m\<lparr>entm := (entm m)(p := (entm m p)\<lparr>le_next := v\<rparr>)\<rparr>"

definition set_prev :: "ptr \<Rightarrow> ptr \<Rightarrow> llmem \<Rightarrow> llmem" where
  "set_prev p v m = m\<lparr>entm := (entm m)(p := (entm m p)\<lparr>le_prev := v\<rparr>)\<rparr>"

definition upd_list :: "ptr \<Rightarrow> (linkedlist \<Rightarrow> linkedlist) \<Rightarrow> llmem \<Rightarrow> llmem" where
  "upd_list l f m = m\<lparr>listm := (listm m)(l := f (listm m l))\<rparr>"

lemmas field_defs = set_obj_def set_list_def set_next_def set_prev_def upd_list_def

section \<open>Operations\<close>

text \<open>
  The list's own spinlock. With \<open>CONFIG_DEBUG\<close>, \<open>spinlock_acquire\<close> on a lock that is
  never released panics ("possible deadlock"); a single thread of control that finds its
  own lock taken is in that case.
\<close>

definition linkedlist_lock :: "ptr \<Rightarrow> llmem \<Rightarrow> llmem option" where
  "linkedlist_lock l m =
     (if ll_flags (listm m l) AND LINKEDLIST_LOCKLESS = 0
      then (if ll_lock (listm m l) then None
            else Some (upd_list l (\<lambda>s. s\<lparr>ll_lock := True\<rparr>) m))
      else Some m)"

definition linkedlist_unlock :: "ptr \<Rightarrow> llmem \<Rightarrow> llmem" where
  "linkedlist_unlock l m =
     (if ll_flags (listm m l) AND LINKEDLIST_LOCKLESS = 0
      then upd_list l (\<lambda>s. s\<lparr>ll_lock := False\<rparr>) m else m)"

definition linkedlist_do_remove :: "ptr \<Rightarrow> ptr \<Rightarrow> llmem \<Rightarrow> llmem option" where
  "linkedlist_do_remove l e m = do {
     kassert (e \<noteq> sentry l);
     kassert (le_list (entm m e) = l);
     kassert (ll_count (listm m l) > 0);
     let m = upd_list l (\<lambda>s. s\<lparr>ll_count := ll_count s - 1\<rparr>) m;
     let m = set_list e NULL m;
     let m = set_next (le_prev (entm m e)) (le_next (entm m e)) m;
     let m = set_prev (le_next (entm m e)) (le_prev (entm m e)) m;
     Some m }"

definition linkedlist_head :: "ptr \<Rightarrow> llmem \<Rightarrow> (ptr \<times> llmem) option" where
  "linkedlist_head l m = do {
     m \<leftarrow> linkedlist_lock l m;
     let first = le_next (entm m (ll_head (listm m l)));
     let ret = (if first \<noteq> sentry l then le_obj (entm m first) else NULL);
     Some (ret, linkedlist_unlock l m) }"

definition linkedlist_remove_head :: "ptr \<Rightarrow> llmem \<Rightarrow> (ptr \<times> llmem) option" where
  "linkedlist_remove_head l m = do {
     m \<leftarrow> linkedlist_lock l m;
     let first = le_next (entm m (ll_head (listm m l)));
     (ret, m) \<leftarrow> (if first \<noteq> sentry l
                 then do { m' \<leftarrow> linkedlist_do_remove l first m;
                           Some (le_obj (entm m first), m') }
                 else Some (NULL, m));
     Some (ret, linkedlist_unlock l m) }"

definition linkedlist_remove_tail :: "ptr \<Rightarrow> bool \<Rightarrow> llmem \<Rightarrow> (ptr \<times> llmem) option" where
  "linkedlist_remove_tail l locked m = do {
     m \<leftarrow> (if \<not> locked then linkedlist_lock l m else Some m);
     let final = le_prev (entm m (ll_head (listm m l)));
     (ret, m) \<leftarrow> (if final \<noteq> sentry l
                 then do { m' \<leftarrow> linkedlist_do_remove l final m;
                           Some (le_obj (entm m final), m') }
                 else Some (NULL, m));
     Some (ret, if \<not> locked then linkedlist_unlock l m else m) }"

definition linkedlist_create :: "ptr \<Rightarrow> u32 \<Rightarrow> llmem \<Rightarrow> llmem" where
  "linkedlist_create l flags m =
     (let m = (if flags AND LINKEDLIST_LOCKLESS = 0
               then upd_list l (\<lambda>s. s\<lparr>ll_lock := False\<rparr>) m else m);
          m = upd_list l (\<lambda>s. s\<lparr>ll_flags := flags\<rparr>) m;
          m = upd_list l (\<lambda>s. s\<lparr>ll_head := sentry l\<rparr>) m;
          m = set_next (ll_head (listm m l)) (ll_head (listm m l)) m;
          m = set_prev (ll_head (listm m l)) (ll_head (listm m l)) m
      in upd_list l (\<lambda>s. s\<lparr>ll_count := 0\<rparr>) m)"

definition linkedlist_insert :: "ptr \<Rightarrow> ptr \<Rightarrow> ptr \<Rightarrow> llmem \<Rightarrow> llmem option" where
  "linkedlist_insert l e obj m = do {
     kassert (ll_head (listm m l) = sentry l);
     kassert (le_next (entm m (ll_head (listm m l))) \<noteq> NULL \<and>
              le_prev (entm m (ll_head (listm m l))) \<noteq> NULL);
     kassert (ll_count (listm m l) \<ge> 0);
     m \<leftarrow> linkedlist_lock l m;
     let m = set_next e (le_next (entm m (ll_head (listm m l)))) m;
     let m = set_prev e (ll_head (listm m l)) m;
     let m = set_next (le_prev (entm m e)) e m;
     let m = set_prev (le_next (entm m e)) e m;
     let m = set_obj e obj m;
     let m = set_list e l m;
     let m = upd_list l (\<lambda>s. s\<lparr>ll_count := ll_count s + 1\<rparr>) m;
     kassert (ll_count (listm m l) > 0);
     Some (linkedlist_unlock l m) }"

definition linkedlist_remove :: "ptr \<Rightarrow> ptr \<Rightarrow> llmem \<Rightarrow> llmem option" where
  "linkedlist_remove l e m = do {
     kassert (ll_head (listm m l) = sentry l);
     m \<leftarrow> linkedlist_lock l m;
     m \<leftarrow> linkedlist_do_remove l e m;
     Some (linkedlist_unlock l m) }"

text \<open>
  The search loop of \<open>linkedlist_find\<close>. It follows \<open>next\<close> pointers until the callback
  accepts or the sentry comes round, so it is a loop that need not end on a damaged ring;
  \<open>None\<close> is the run that does not return.
\<close>

partial_function (option) find_loop ::
  "ptr \<Rightarrow> (linkedentry \<Rightarrow> bool) \<Rightarrow> llmem \<Rightarrow> ptr \<Rightarrow> ptr option" where
  "find_loop l fn m ent =
     (if ent = sentry l then Some ent
      else if fn (entm m ent) then Some ent
      else find_loop l fn m (le_next (entm m ent)))"

definition linkedlist_find ::
  "ptr \<Rightarrow> (linkedentry \<Rightarrow> bool) \<Rightarrow> llmem \<Rightarrow> (ptr \<times> llmem) option" where
  "linkedlist_find l fn m = do {
     m \<leftarrow> linkedlist_lock l m;
     ent \<leftarrow> find_loop l fn m (le_next (entm m (ll_head (listm m l))));
     Some (if ent = sentry l then NULL else ent, linkedlist_unlock l m) }"


section \<open>Well-formed rings\<close>

fun linked :: "llmem \<Rightarrow> ptr list \<Rightarrow> bool" where
  "linked m (a # b # cs) \<longleftrightarrow>
     le_next (entm m a) = b \<and> le_prev (entm m b) = a \<and> linked m (b # cs)"
| "linked m _ \<longleftrightarrow> True"

definition ll_free :: "llmem \<Rightarrow> ptr \<Rightarrow> bool" where
  "ll_free m l \<longleftrightarrow> (ll_flags (listm m l) AND LINKEDLIST_LOCKLESS = 0 \<longrightarrow> \<not> ll_lock (listm m l))"

definition ll_ring :: "llmem \<Rightarrow> ptr \<Rightarrow> ptr list \<Rightarrow> bool" where
  "ll_ring m l xs \<longleftrightarrow>
     ll_head (listm m l) = sentry l \<and> ll_count (listm m l) = int (length xs) \<and>
     NULL \<notin> set xs \<and> distinct (sentry l # xs) \<and> (\<forall>x\<in>set xs. le_list (entm m x) = l) \<and>
     linked m (sentry l # xs @ [sentry l])"

definition ll_rep :: "llmem \<Rightarrow> ptr \<Rightarrow> ptr list \<Rightarrow> bool" where
  "ll_rep m l xs \<longleftrightarrow> ll_ring m l xs \<and> ll_free m l"

lemma sentry_inj [simp]: "sentry l = sentry l' \<longleftrightarrow> l = l'"
  by (simp add: sentry_def)

lemma sentry_pos [simp]: "0 < sentry l"
  by (simp add: sentry_def)

text \<open>What each field update leaves alone.\<close>

lemma field_simps_entm [simp]:
  "le_obj (entm (set_obj p v m) q) = (if q = p then v else le_obj (entm m q))"
  "le_list (entm (set_obj p v m) q) = le_list (entm m q)"
  "le_next (entm (set_obj p v m) q) = le_next (entm m q)"
  "le_prev (entm (set_obj p v m) q) = le_prev (entm m q)"
  "le_obj (entm (set_list p v m) q) = le_obj (entm m q)"
  "le_list (entm (set_list p v m) q) = (if q = p then v else le_list (entm m q))"
  "le_next (entm (set_list p v m) q) = le_next (entm m q)"
  "le_prev (entm (set_list p v m) q) = le_prev (entm m q)"
  "le_obj (entm (set_next p v m) q) = le_obj (entm m q)"
  "le_list (entm (set_next p v m) q) = le_list (entm m q)"
  "le_next (entm (set_next p v m) q) = (if q = p then v else le_next (entm m q))"
  "le_prev (entm (set_next p v m) q) = le_prev (entm m q)"
  "le_obj (entm (set_prev p v m) q) = le_obj (entm m q)"
  "le_list (entm (set_prev p v m) q) = le_list (entm m q)"
  "le_next (entm (set_prev p v m) q) = le_next (entm m q)"
  "le_prev (entm (set_prev p v m) q) = (if q = p then v else le_prev (entm m q))"
  "entm (upd_list l f m) = entm m"
  by (simp_all add: field_defs)

lemma field_simps_listm [simp]:
  "listm (set_obj p v m) = listm m" "listm (set_list p v m) = listm m"
  "listm (set_next p v m) = listm m" "listm (set_prev p v m) = listm m"
  "listm (upd_list l f m) = (listm m)(l := f (listm m l))"
  by (simp_all add: field_defs)

lemma linked_cong:
  assumes "\<And>p. p \<in> set zs \<Longrightarrow> le_next (entm m' p) = le_next (entm m p)"
    and "\<And>p. p \<in> set zs \<Longrightarrow> le_prev (entm m' p) = le_prev (entm m p)"
  shows "linked m' zs = linked m zs"
  using assms by (induction m zs rule: linked.induct) auto

lemma linked_irrelevant [simp]:
  "linked (set_obj p v m) zs = linked m zs" "linked (set_list p v m) zs = linked m zs"
  "linked (upd_list l f m) zs = linked m zs"
  by (rule linked_cong; simp)+

lemma linked_set_next [simp]:
  "p \<notin> set (butlast zs) \<Longrightarrow> linked (set_next p v m) zs = linked m zs"
  by (induction m zs rule: linked.induct) (auto split: if_splits)

lemma linked_set_prev [simp]:
  "p \<notin> set (tl zs) \<Longrightarrow> linked (set_prev p v m) zs = linked m zs"
  by (induction m zs rule: linked.induct) (auto split: if_splits)

lemma linked_append:
  "linked m (as @ x # bs) \<longleftrightarrow> linked m (as @ [x]) \<and> linked m (x # bs)"
proof (induction as)
  case (Cons a as)
  then show ?case by (cases as) auto
qed simp

lemma linked_next_hd: "linked m (a # xs @ [b]) \<Longrightarrow> le_next (entm m a) = hd (xs @ [b])"
  by (cases xs) auto

lemma linked_prev_last: "linked m (a # xs @ [b]) \<Longrightarrow> le_prev (entm m b) = last (a # xs)"
proof (induction xs arbitrary: a)
  case (Cons x xs)
  then show ?case by simp
qed simp

lemma ll_ringD:
  assumes "ll_ring m l xs"
  shows "ll_head (listm m l) = sentry l" "ll_count (listm m l) = int (length xs)"
    "NULL \<notin> set xs" "sentry l \<notin> set xs" "distinct xs"
    "linked m (sentry l # xs @ [sentry l])"
    "\<And>x. x \<in> set xs \<Longrightarrow> le_list (entm m x) = l"
    "le_next (entm m (sentry l)) = hd (xs @ [sentry l])"
    "le_prev (entm m (sentry l)) = last (sentry l # xs)"
  using assms linked_next_hd linked_prev_last unfolding ll_ring_def by auto

lemma ll_repD:
  assumes "ll_rep m l xs"
  shows "ll_ring m l xs" "ll_free m l"
  using assms by (simp_all add: ll_rep_def)

lemma ll_ring_cong:
  assumes "entm m' = entm m" "ll_head (listm m' l) = ll_head (listm m l)"
    "ll_count (listm m' l) = ll_count (listm m l)"
  shows "ll_ring m' l xs = ll_ring m l xs"
  using assms linked_cong [of "sentry l # xs @ [sentry l]" m' m] by (simp add: ll_ring_def)

lemma ll_rep_frame:
  assumes "ll_rep m l xs" "listm m' l = listm m l"
    and "\<And>p. p \<in> insert (sentry l) (set xs) \<Longrightarrow> entm m' p = entm m p"
  shows "ll_rep m' l xs"
proof -
  have "linked m' (sentry l # xs @ [sentry l]) = linked m (sentry l # xs @ [sentry l])"
    using assms(3) by (intro linked_cong) auto
  with assms show ?thesis by (simp add: ll_rep_def ll_ring_def ll_free_def)
qed

section \<open>Refinement: what the operations do to the entry list\<close>

text \<open>The footprint of an operation: entries outside \<open>S\<close> and lists other than \<open>l\<close> stay.\<close>

definition only_touches :: "llmem \<Rightarrow> llmem \<Rightarrow> ptr \<Rightarrow> ptr set \<Rightarrow> bool" where
  "only_touches m m' l S \<longleftrightarrow>
     (\<forall>p. p \<notin> S \<longrightarrow> entm m' p = entm m p) \<and> (\<forall>k. k \<noteq> l \<longrightarrow> listm m' k = listm m k)"

lemma only_touches_trans:
  "only_touches m m' l S \<Longrightarrow> only_touches m' m'' l T \<Longrightarrow> S \<union> T \<subseteq> U \<Longrightarrow> only_touches m m'' l U"
  unfolding only_touches_def by (metis Un_iff subset_iff)

lemma frame_rep:
  assumes "ll_rep m k ys" "only_touches m m' l S" "k \<noteq> l" "S \<inter> insert (sentry k) (set ys) = {}"
  shows "ll_rep m' k ys"
  using assms(1) by (rule ll_rep_frame) (use assms in \<open>auto simp: only_touches_def\<close>)

lemma lock_ok:
  assumes "ll_rep m l xs"
  shows "\<exists>m1. linkedlist_lock l m = Some m1 \<and> ll_ring m1 l xs \<and> entm m1 = entm m \<and>
              only_touches m m1 l {}"
proof -
  have *: "ll_ring (upd_list l (\<lambda>s. s\<lparr>ll_lock := True\<rparr>) m) l xs"
    using ll_repD(1) [OF assms] by (subst ll_ring_cong [of _ m]) auto
  show ?thesis
    using assms * by (auto simp: linkedlist_lock_def ll_rep_def ll_free_def only_touches_def)
qed

lemma unlock_simps [simp]:
  "entm (linkedlist_unlock l m) = entm m"
  "ll_head (listm (linkedlist_unlock l m) k) = ll_head (listm m k)"
  "ll_count (listm (linkedlist_unlock l m) k) = ll_count (listm m k)"
  "ll_free (linkedlist_unlock l m) l"
  by (auto simp: linkedlist_unlock_def ll_free_def)

lemma unlock_ring [simp]: "ll_ring (linkedlist_unlock l m) k xs = ll_ring m k xs"
  by (rule ll_ring_cong) simp_all

lemma unlock_rep [simp]: "ll_rep (linkedlist_unlock l m) l xs = ll_ring m l xs"
  by (simp add: ll_rep_def)

lemma unlock_touches [simp]:
  "only_touches m m' l S \<Longrightarrow> only_touches m (linkedlist_unlock l m') l S"
  by (auto simp: only_touches_def linkedlist_unlock_def)

lemma create_rep: "ll_rep (linkedlist_create l flags m) l []"
  by (auto simp: linkedlist_create_def ll_rep_def ll_ring_def ll_free_def Let_def)

lemma linked_insert:
  assumes lk: "linked m (s # xs @ [s])" and d: "distinct (s # xs)" "e \<notin> set xs" "e \<noteq> s"
    and m': "m' = set_prev (hd (xs @ [s])) e (set_next s e (set_prev e s (set_next e (hd (xs @ [s])) m)))"
  shows "linked m' (s # e # xs @ [s])"
proof -
  obtain f zs where f: "xs @ [s] = f # zs" by (cases xs) auto
  have dz: "distinct (f # zs)" using d f by (metis distinct.simps(2) distinct_append distinct1_rotate rotate1.simps(2))
  have bl: "butlast (f # zs) = xs" using f by (metis butlast_snoc)
  have lf: "linked m (f # zs)" using lk f by auto
  have "e \<notin> set (f # zs)" using d f by (metis Un_iff empty_set list.simps(15) set_append singletonD)
  with d bl dz have "linked m' (f # zs) = linked m (f # zs)"
    unfolding m' f by (auto simp: f)
  with lf f d \<open>e \<notin> set (f # zs)\<close> show ?thesis by (auto simp: m' f)
qed

lemma insert_rep:
  assumes rep: "ll_rep m l xs" and e: "e \<notin> set xs" "e \<noteq> sentry l" "e \<noteq> NULL"
  shows "\<exists>m'. linkedlist_insert l e obj m = Some m' \<and> ll_rep m' l (e # xs) \<and>
    (\<forall>p. le_obj (entm m' p) = (if p = e then obj else le_obj (entm m p))) \<and>
    only_touches m m' l (insert e (insert (sentry l) (set xs)))"
proof -
  obtain m1 where m1: "linkedlist_lock l m = Some m1" "ll_ring m1 l xs" "entm m1 = entm m"
    "only_touches m m1 l {}" using lock_ok [OF rep] by blast
  note r0 = ll_ringD [OF ll_repD(1) [OF rep]] and r = ll_ringD [OF m1(2)]
  let ?f = "hd (xs @ [sentry l])"
  let ?m2 = "set_prev ?f e (set_next (sentry l) e (set_prev e (sentry l) (set_next e ?f m1)))"
  let ?m3 = "upd_list l (\<lambda>s. s\<lparr>ll_count := ll_count s + 1\<rparr>) (set_list e l (set_obj e obj ?m2))"
  have f: "?f \<in> insert (sentry l) (set xs)" "last (sentry l # xs) \<in> insert (sentry l) (set xs)"
    by (cases xs; auto)+
  then have ne: "?f \<noteq> NULL" "last (sentry l # xs) \<noteq> NULL" "?f \<noteq> e"
    using r(3) e sentry_pos [of l] by (metis insert_iff less_irrefl)+
  have eq: "linkedlist_insert l e obj m = Some (linkedlist_unlock l ?m3)"
    using ne e r0 by (simp add: linkedlist_insert_def m1(1) r Let_def del: hd_append_single last.simps)
  have "linked ?m2 (sentry l # e # xs @ [sentry l])"
    using r(6) by (rule linked_insert [OF _ _ _ _ refl]) (use r e in auto)
  then have "ll_ring ?m3 l (e # xs)"
    using r e by (auto simp: ll_ring_def simp del: hd_append_single)
  moreover have "only_touches m ?m3 l (insert e (insert (sentry l) (set xs)))"
    using m1(4) f by (auto simp: only_touches_def field_defs simp del: hd_append_single)
  ultimately show ?thesis
    using m1(3) by (simp add: eq del: hd_append_single)
qed

text \<open>Unlinking one entry of a ring.\<close>

lemma linked_remove:
  assumes lk: "linked m (s # as @ e # bs @ [s])" and d: "distinct (s # as @ e # bs)"
    and m': "m' = set_prev (hd (bs @ [s])) (last (s # as)) (set_next (last (s # as)) (hd (bs @ [s])) m)"
  shows "linked m' (s # as @ bs @ [s])"
proof -
  obtain us p where up: "s # as = us @ [p]" by (metis append_butlast_last_id list.distinct(1))
  obtain q vs where qv: "bs @ [s] = q # vs" by (cases bs) auto
  have "linked m ((s # as) @ e # bs @ [s])" using lk by simp
  then have "linked m ((us @ [p]) @ e # q # vs)" unfolding up qv .
  then have "linked m (us @ p # [e])" "linked m (q # vs)"
    using linked_append [of m "us @ [p]" e "q # vs"] by simp_all
  then have l: "linked m (us @ [p])" "linked m (q # vs)"
    using linked_append [of m us p "[e]"] by simp_all
  have "distinct (us @ [p])" using d up by (metis append_Cons distinct_append)
  then have "p \<notin> set us" by simp
  moreover have "tl (us @ [p]) = as" "butlast (q # vs) = bs"
    using up qv by (metis list.sel(3), metis butlast_snoc)
  moreover have "q \<notin> set vs" using d qv by (cases bs) auto
  moreover have "q \<notin> set as" "p \<notin> set bs" using d up qv by (cases bs; cases us; auto)+
  ultimately have "linked m' (us @ [p])" "linked m' (q # vs)"
    using l unfolding m' qv up by (auto simp: butlast_append)
  moreover have "le_next (entm m' p) = q" "le_prev (entm m' q) = p" unfolding m' qv up by auto
  ultimately have "linked m' (us @ p # q # vs)" using linked_append [of m' us p "q # vs"] by simp
  then show ?thesis using up qv by (metis append_Cons append_assoc append_Nil)
qed


lemma do_remove_ring:
  assumes ring: "ll_ring m l xs" and e: "e \<in> set xs"
  shows "\<exists>m'. linkedlist_do_remove l e m = Some m' \<and> ll_ring m' l (remove1 e xs) \<and>
    le_list (entm m' e) = NULL \<and> (\<forall>p. le_obj (entm m' p) = le_obj (entm m p)) \<and>
    only_touches m m' l (insert (sentry l) (set xs))"
proof -
  note r = ll_ringD [OF ring]
  obtain as bs where xs: "xs = as @ e # bs" using e by (meson split_list)
  let ?p = "last (sentry l # as)" and ?q = "hd (bs @ [sentry l])"
  have lk: "linked m ((sentry l # as) @ e # bs @ [sentry l])" using r(6) xs by simp
  then have "linked m (sentry l # as @ [e])" "linked m (e # bs @ [sentry l])"
    using linked_append [of m "sentry l # as" e "bs @ [sentry l]"] by simp_all
  then have pq: "le_prev (entm m e) = ?p" "le_next (entm m e) = ?q"
    using linked_prev_last linked_next_hd by metis+
  have in_ring: "?p \<in> insert (sentry l) (set xs)" "?q \<in> insert (sentry l) (set xs)"
    using xs by (cases as; cases bs; auto)+
  have ne: "e \<noteq> sentry l" "e \<noteq> ?p" "e \<noteq> ?q" using r(4,5) xs by (auto split: if_splits)
  let ?m1 = "set_list e NULL (upd_list l (\<lambda>s. s\<lparr>ll_count := ll_count s - 1\<rparr>) m)"
  let ?m' = "set_prev ?q ?p (set_next ?p ?q ?m1)"
  have eq: "linkedlist_do_remove l e m = Some ?m'"
    using e ne by (simp add: linkedlist_do_remove_def r Let_def pq del: hd_append_single last.simps)
      (auto simp: xs)
  have rm: "remove1 e xs = as @ bs" using r(5) xs by (simp add: distinct_split_unique)
  have "linked ?m1 (sentry l # as @ e # bs @ [sentry l])" using lk by simp
  then have "linked ?m' (sentry l # as @ bs @ [sentry l])"
    by (rule linked_remove [OF _ _ refl]) (use r xs in auto)
  then have "ll_ring ?m' l (remove1 e xs)"
    using r unfolding rm by (auto simp: ll_ring_def xs simp del: hd_append_single last.simps)
  moreover have "only_touches m ?m' l (insert (sentry l) (set xs))"
    using in_ring e by (auto simp: only_touches_def field_defs simp del: hd_append_single last.simps)
  ultimately show ?thesis using ne by (simp add: eq del: hd_append_single last.simps)
qed

lemma remove_rep:
  assumes rep: "ll_rep m l xs" and e: "e \<in> set xs"
  shows "\<exists>m'. linkedlist_remove l e m = Some m' \<and> ll_rep m' l (remove1 e xs) \<and>
    le_list (entm m' e) = NULL \<and> (\<forall>p. le_obj (entm m' p) = le_obj (entm m p)) \<and>
    only_touches m m' l (insert (sentry l) (set xs))"
proof -
  obtain m1 where m1: "linkedlist_lock l m = Some m1" "ll_ring m1 l xs" "entm m1 = entm m"
    "only_touches m m1 l {}" using lock_ok [OF rep] by blast
  obtain m2 where m2: "linkedlist_do_remove l e m1 = Some m2" "ll_ring m2 l (remove1 e xs)"
    "le_list (entm m2 e) = NULL" "\<forall>p. le_obj (entm m2 p) = le_obj (entm m1 p)"
    "only_touches m1 m2 l (insert (sentry l) (set xs))" using do_remove_ring [OF m1(2) e] by blast
  have "linkedlist_remove l e m = Some (linkedlist_unlock l m2)"
    by (simp add: linkedlist_remove_def ll_ringD(1) [OF ll_repD(1) [OF rep]] m1(1) m2(1))
  moreover have "only_touches m m2 l (insert (sentry l) (set xs))"
    using m1(4) m2(5) by (rule only_touches_trans) simp
  ultimately show ?thesis using m1(3) m2(2-4) by simp
qed

lemma remove_foreign_panics:
  assumes "ll_rep m l xs" "le_list (entm m e) \<noteq> l"
  shows "linkedlist_remove l e m = None"
  using lock_ok [OF assms(1)] assms(2)
  by (auto simp: linkedlist_remove_def linkedlist_do_remove_def)


lemma remove_head_rep:
  assumes rep: "ll_rep m l xs"
  shows "\<exists>m'. linkedlist_remove_head l m =
      Some (if xs = [] then NULL else le_obj (entm m (hd xs)), m') \<and>
    ll_rep m' l (tl xs) \<and> (\<forall>p. le_obj (entm m' p) = le_obj (entm m p)) \<and>
    only_touches m m' l (insert (sentry l) (set xs))"
proof -
  obtain m1 where m1: "linkedlist_lock l m = Some m1" "ll_ring m1 l xs" "entm m1 = entm m"
    "only_touches m m1 l {}" using lock_ok [OF rep] by blast
  note r = ll_ringD [OF m1(2), unfolded m1(3)]
  show ?thesis
  proof (cases xs)
    case Nil
    have "only_touches m m1 l (insert (sentry l) (set xs))"
      using m1(4) by (auto simp: only_touches_def)
    with Nil m1 show ?thesis by (simp add: linkedlist_remove_head_def r Let_def)
  next
    case (Cons e ys)
    have e: "e \<in> set xs" "e \<noteq> sentry l" using r(4) Cons by auto
    obtain m2 where m2: "linkedlist_do_remove l e m1 = Some m2" "ll_ring m2 l (remove1 e xs)"
      "\<forall>p. le_obj (entm m2 p) = le_obj (entm m1 p)"
      "only_touches m1 m2 l (insert (sentry l) (set xs))"
      using do_remove_ring [OF m1(2) e(1)] by blast
    have "only_touches m m2 l (insert (sentry l) (set xs))"
      using m1(4) m2(4) by (rule only_touches_trans) simp
    with Cons e m1 m2 show ?thesis by (simp add: linkedlist_remove_head_def r Let_def)
  qed
qed

lemma remove1_last: "distinct xs \<Longrightarrow> xs \<noteq> [] \<Longrightarrow> remove1 (last xs) xs = butlast xs"
  using distinct_split_unique [of "butlast xs" "last xs" "[]"] by simp

lemma remove_tail_rep:
  assumes rep: "ll_rep m l xs"
  shows "\<exists>m'. linkedlist_remove_tail l False m =
      Some (if xs = [] then NULL else le_obj (entm m (last xs)), m') \<and>
    ll_rep m' l (butlast xs) \<and> (\<forall>p. le_obj (entm m' p) = le_obj (entm m p)) \<and>
    only_touches m m' l (insert (sentry l) (set xs))"
proof -
  obtain m1 where m1: "linkedlist_lock l m = Some m1" "ll_ring m1 l xs" "entm m1 = entm m"
    "only_touches m m1 l {}" using lock_ok [OF rep] by blast
  note r = ll_ringD [OF m1(2), unfolded m1(3)]
  show ?thesis
  proof (cases "xs = []")
    case True
    have "only_touches m m1 l (insert (sentry l) (set xs))"
      using m1(4) by (auto simp: only_touches_def)
    with True m1 show ?thesis by (simp add: linkedlist_remove_tail_def r Let_def)
  next
    case False
    have e: "last xs \<in> set xs" "last xs \<noteq> sentry l" using r(4) False by (auto, metis last_in_set)
    obtain m2 where m2: "linkedlist_do_remove l (last xs) m1 = Some m2"
      "ll_ring m2 l (remove1 (last xs) xs)" "\<forall>p. le_obj (entm m2 p) = le_obj (entm m1 p)"
      "only_touches m1 m2 l (insert (sentry l) (set xs))"
      using do_remove_ring [OF m1(2) e(1)] by blast
    have "only_touches m m2 l (insert (sentry l) (set xs))"
      using m1(4) m2(4) by (rule only_touches_trans) simp
    with False e m1 m2 r(5) show ?thesis
      by (simp add: linkedlist_remove_tail_def r Let_def remove1_last)
  qed
qed

lemma head_rep:
  assumes rep: "ll_rep m l xs"
  shows "\<exists>m'. linkedlist_head l m =
      Some (if xs = [] then NULL else le_obj (entm m (hd xs)), m') \<and>
    ll_rep m' l xs \<and> entm m' = entm m \<and> only_touches m m' l {}"
proof -
  obtain m1 where m1: "linkedlist_lock l m = Some m1" "ll_ring m1 l xs" "entm m1 = entm m"
    "only_touches m m1 l {}" using lock_ok [OF rep] by blast
  note r = ll_ringD [OF m1(2), unfolded m1(3)]
  have "xs \<noteq> [] \<Longrightarrow> hd xs \<noteq> sentry l" using r(4) by (metis hd_in_set)
  then show ?thesis using m1 by (simp add: linkedlist_head_def r Let_def)
qed

text \<open>The search loop returns on every well-formed ring: the first accepted entry.\<close>

lemma find_loop_linked:
  assumes "linked m (xs @ [sentry l])" "sentry l \<notin> set xs"
  shows "find_loop l fn m (hd (xs @ [sentry l])) =
    Some (case find (\<lambda>e. fn (entm m e)) xs of None \<Rightarrow> sentry l | Some e \<Rightarrow> e)"
  using assms
proof (induction xs)
  case Nil
  show ?case by (simp add: find_loop.simps)
next
  case (Cons x xs)
  have "linked m (x # xs @ [sentry l])" using Cons.prems(1) by simp
  then have "le_next (entm m x) = hd (xs @ [sentry l])" "linked m (xs @ [sentry l])"
    by (cases xs; simp)+
  then have "find_loop l fn m x = (if fn (entm m x) then Some x
      else Some (case find (\<lambda>e. fn (entm m e)) xs of None \<Rightarrow> sentry l | Some e \<Rightarrow> e))"
    using Cons by (subst find_loop.simps) (simp del: hd_append_single)
  then show ?case by simp
qed

lemma find_rep:
  assumes rep: "ll_rep m l xs"
  shows "\<exists>m'. linkedlist_find l fn m =
      Some (case find (\<lambda>e. fn (entm m e)) xs of None \<Rightarrow> NULL | Some e \<Rightarrow> e, m') \<and>
    ll_rep m' l xs \<and> entm m' = entm m \<and> only_touches m m' l {}"
proof -
  obtain m1 where m1: "linkedlist_lock l m = Some m1" "ll_ring m1 l xs" "entm m1 = entm m"
    "only_touches m m1 l {}" using lock_ok [OF rep] by blast
  note r = ll_ringD [OF m1(2), unfolded m1(3)]
  have "linked m1 (xs @ [sentry l])" using ll_ringD(6) [OF m1(2)] by (cases xs) auto
  note f = find_loop_linked [OF this r(4)]
  have "x \<noteq> sentry l" if "find P xs = Some x" for x P
    using that r(4) by (metis find_Some_iff nth_mem)
  then have "linkedlist_find l fn m =
      Some (case find (\<lambda>e. fn (entm m e)) xs of None \<Rightarrow> NULL | Some e \<Rightarrow> e, linkedlist_unlock l m1)"
    by (simp add: linkedlist_find_def m1(1,3) r f del: hd_append_single split: option.split)
  with m1 show ?thesis by simp
qed


section \<open>The contract of an entry list\<close>

text \<open>
  Sequences of calls: filling a list with \<open>(entry, object)\<close> pairs through an insertion
  operation, and taking \<open>n\<close> objects out of it through a removal operation.
\<close>

fun fill :: "(ptr \<Rightarrow> ptr \<Rightarrow> ptr \<Rightarrow> 'm \<Rightarrow> 'm option) \<Rightarrow> ptr \<Rightarrow> (ptr \<times> ptr) list \<Rightarrow> 'm \<Rightarrow> 'm option" where
  "fill ins l [] m = Some m"
| "fill ins l ((e, x) # es) m = do { m' \<leftarrow> ins l e x m; fill ins l es m' }"

fun drain :: "(ptr \<Rightarrow> 'm \<Rightarrow> (ptr \<times> 'm) option) \<Rightarrow> ptr \<Rightarrow> nat \<Rightarrow> 'm \<Rightarrow> (ptr list \<times> 'm) option" where
  "drain rem l 0 m = Some ([], m)"
| "drain rem l (Suc n) m = do {
     (x, m') \<leftarrow> rem l m; (xs, m'') \<leftarrow> drain rem l n m'; Some (x # xs, m'') }"

locale entry_list =
  fixes rep :: "'m \<Rightarrow> ptr \<Rightarrow> ptr list \<Rightarrow> bool"
    and anchor :: "ptr \<Rightarrow> ptr"
    and obj :: "'m \<Rightarrow> ptr \<Rightarrow> ptr"
    and touches :: "'m \<Rightarrow> 'm \<Rightarrow> ptr \<Rightarrow> ptr set \<Rightarrow> bool"
    and ins :: "ptr \<Rightarrow> ptr \<Rightarrow> ptr \<Rightarrow> 'm \<Rightarrow> 'm option"
    and rem :: "ptr \<Rightarrow> ptr \<Rightarrow> 'm \<Rightarrow> 'm option"
    and pop_head :: "ptr \<Rightarrow> 'm \<Rightarrow> (ptr \<times> 'm) option"
    and pop_tail :: "ptr \<Rightarrow> 'm \<Rightarrow> (ptr \<times> 'm) option"
  assumes rep_wf: "rep m l xs \<Longrightarrow> distinct xs \<and> NULL \<notin> set xs \<and> anchor l \<notin> set xs"
    and rep_ins: "rep m l xs \<Longrightarrow> e \<notin> set xs \<Longrightarrow> e \<noteq> anchor l \<Longrightarrow> e \<noteq> NULL \<Longrightarrow>
      \<exists>m'. ins l e x m = Some m' \<and> rep m' l (e # xs) \<and>
           (\<forall>p. obj m' p = (if p = e then x else obj m p)) \<and>
           touches m m' l (insert e (insert (anchor l) (set xs)))"
    and rep_rem: "rep m l xs \<Longrightarrow> e \<in> set xs \<Longrightarrow>
      \<exists>m'. rem l e m = Some m' \<and> rep m' l (remove1 e xs) \<and> (\<forall>p. obj m' p = obj m p) \<and>
           touches m m' l (insert (anchor l) (set xs))"
    and rep_pop_head: "rep m l xs \<Longrightarrow>
      \<exists>m'. pop_head l m = Some (if xs = [] then NULL else obj m (hd xs), m') \<and> rep m' l (tl xs) \<and>
           (\<forall>p. obj m' p = obj m p) \<and> touches m m' l (insert (anchor l) (set xs))"
    and rep_pop_tail: "rep m l xs \<Longrightarrow>
      \<exists>m'. pop_tail l m = Some (if xs = [] then NULL else obj m (last xs), m') \<and>
           rep m' l (butlast xs) \<and> (\<forall>p. obj m' p = obj m p) \<and>
           touches m m' l (insert (anchor l) (set xs))"
    and rep_frame: "rep m k ys \<Longrightarrow> touches m m' l S \<Longrightarrow> k \<noteq> l \<Longrightarrow>
      S \<inter> insert (anchor k) (set ys) = {} \<Longrightarrow> rep m' k ys"
begin

lemma fill_rep:
  assumes "rep m l xs" "distinct (map fst es @ xs)" "NULL \<notin> fst ` set es" "anchor l \<notin> fst ` set es"
  shows "\<exists>m'. fill ins l es m = Some m' \<and> rep m' l (rev (map fst es) @ xs) \<and>
    map (obj m') (rev (map fst es) @ xs) = rev (map snd es) @ map (obj m) xs"
  using assms
proof (induction es arbitrary: m xs)
  case Nil
  then show ?case by simp
next
  case (Cons ex es)
  obtain e x where ex: "ex = (e, x)" by (cases ex)
  with Cons.prems obtain m1 where m1: "ins l e x m = Some m1" "rep m1 l (e # xs)"
      "\<forall>p. obj m1 p = (if p = e then x else obj m p)"
    using rep_ins [of m l xs e x] by auto
  have "distinct (map fst es @ e # xs)" using Cons.prems ex by auto
  from Cons.IH [OF m1(2) this] Cons.prems ex obtain m' where
    m': "fill ins l es m1 = Some m'" "rep m' l (rev (map fst es) @ e # xs)"
      "map (obj m') (rev (map fst es) @ e # xs) = rev (map snd es) @ map (obj m1) (e # xs)"
    by auto
  have "map (obj m1) xs = map (obj m) xs" using m1(3) Cons.prems ex by auto
  with m1 m' ex show ?case by simp
qed

lemma drain_tail:
  assumes "rep m l xs" "n \<le> length xs"
  shows "\<exists>m'. drain pop_tail l n m = Some (map (obj m) (take n (rev xs)), m') \<and>
    rep m' l (take (length xs - n) xs)"
  using assms
proof (induction n arbitrary: m xs)
  case 0
  then show ?case by simp
next
  case (Suc n)
  then have ne: "xs \<noteq> []" by auto
  then obtain m1 where m1: "pop_tail l m = Some (obj m (last xs), m1)" "rep m1 l (butlast xs)"
      "\<forall>p. obj m1 p = obj m p"
    using rep_pop_tail [OF Suc.prems(1)] by auto
  have "n \<le> length (butlast xs)" using Suc.prems(2) by auto
  from Suc.IH [OF m1(2) this] obtain m' where
    m': "drain pop_tail l n m1 = Some (map (obj m1) (take n (rev (butlast xs))), m')"
      "rep m' l (take (length (butlast xs) - n) (butlast xs))" by auto
  have "rev xs = last xs # rev (butlast xs)"
    using ne by (metis append_butlast_last_id rev_eq_Cons_iff rev_rev_ident)
  then have "take (Suc n) (rev xs) = last xs # take n (rev (butlast xs))" by (metis take_Suc_Cons)
  moreover have "obj m1 = obj m" using m1(3) by (simp add: fun_eq_iff)
  ultimately show ?case using m1 m' Suc.prems(2) by (simp add: take_butlast)
qed

text \<open>Insertion at the head and removal at the tail make a first-in, first-out queue.\<close>

lemma fifo:
  assumes "rep m l []" "distinct (map fst es)" "NULL \<notin> fst ` set es" "anchor l \<notin> fst ` set es"
  shows "\<exists>m1 m2. fill ins l es m = Some m1 \<and>
    drain pop_tail l (length es) m1 = Some (map snd es, m2) \<and> rep m2 l []"
proof -
  obtain m1 where m1: "fill ins l es m = Some m1" "rep m1 l (rev (map fst es))"
      "map (obj m1) (rev (map fst es)) = rev (map snd es)"
    using fill_rep [OF assms(1), of es] assms by auto
  obtain m2 where m2: "drain pop_tail l (length es) m1 =
        Some (map (obj m1) (take (length es) (rev (rev (map fst es)))), m2)"
      "rep m2 l (take (length (rev (map fst es)) - length es) (rev (map fst es)))"
    using drain_tail [OF m1(2), of "length es"] by auto
  have "map (obj m1) (map fst es) = map snd es" using m1(3) by (metis rev_map rev_rev_ident)
  with m1 m2 show ?thesis by simp
qed

end

interpretation ll: entry_list ll_rep sentry "\<lambda>m p. le_obj (entm m p)" only_touches
  linkedlist_insert linkedlist_remove linkedlist_remove_head "\<lambda>l. linkedlist_remove_tail l False"
proof unfold_locales
  show "ll_rep m l xs \<Longrightarrow> distinct xs \<and> NULL \<notin> set xs \<and> sentry l \<notin> set xs" for m l xs
    using ll_ringD ll_repD by metis
  show "\<exists>m'. linkedlist_remove l e m = Some m' \<and> ll_rep m' l (remove1 e xs) \<and>
      (\<forall>p. le_obj (entm m' p) = le_obj (entm m p)) \<and>
      only_touches m m' l (insert (sentry l) (set xs))"
    if "ll_rep m l xs" "e \<in> set xs" for m l xs e
    using remove_rep [OF that] by blast
qed (fact insert_rep remove_head_rep remove_tail_rep frame_rep)+


section \<open>The list view\<close>

text \<open>Clients that keep their entries apart work with the represented lists themselves:
  insertion is \<open>Cons\<close>, and the operations below are what the pointer operations do to a
  represented list. \<open>ls_remove\<close> is None where \<open>linkedlist_remove\<close> panics.\<close>

definition ls_remove :: "'a \<Rightarrow> 'a list \<Rightarrow> 'a list option" where
  "ls_remove e xs = (if e \<in> set xs then Some (remove1 e xs) else None)"

fun ls_next :: "'a \<Rightarrow> 'a list \<Rightarrow> 'a \<Rightarrow> 'a" where
  "ls_next z [] e = z"
| "ls_next z (x # xs) e = (if x = e then hd (xs @ [z]) else ls_next z xs e)"

lemma ls_remove_Some [simp]: "e \<in> set xs \<Longrightarrow> ls_remove e xs = Some (remove1 e xs)"
  by (simp add: ls_remove_def)

lemma ls_remove_None [simp]: "e \<notin> set xs \<Longrightarrow> ls_remove e xs = None"
  by (simp add: ls_remove_def)

lemma ls_next_split: "distinct (as @ e # bs) \<Longrightarrow> ls_next z (as @ e # bs) e = hd (bs @ [z])"
  by (induction as) auto

lemma ls_remove_refines:
  assumes "ll_rep m l xs" "ls_remove e xs = Some ys"
  shows "\<exists>m'. linkedlist_remove l e m = Some m' \<and> ll_rep m' l ys"
  using remove_rep [OF assms(1), of e] assms(2) by (auto simp: ls_remove_def split: if_splits)

lemma ls_next_refines:
  assumes "ll_rep m l xs" "e \<in> set xs"
  shows "le_next (entm m e) = ls_next (sentry l) xs e"
proof -
  note r = ll_ringD [OF ll_repD(1) [OF assms(1)]]
  obtain as bs where xs: "xs = as @ e # bs" using assms(2) by (meson split_list)
  have "linked m ((sentry l # as) @ e # bs @ [sentry l])" using r(6) xs by simp
  then have "linked m (e # bs @ [sentry l])" using linked_append by blast
  then show ?thesis using linked_next_hd ls_next_split r(5) xs by metis
qed

section \<open>Properties\<close>

text \<open>A memory in which nothing is linked, for concrete runs.\<close>

definition mem0 :: llmem where
  "mem0 = \<lparr>entm = \<lambda>_. \<lparr>le_obj = 0, le_list = 0, le_next = 0, le_prev = 0\<rparr>,
           listm = \<lambda>_. \<lparr>ll_head = 0, ll_lock = False, ll_count = 0, ll_flags = 0\<rparr>\<rparr>"

text \<open>C16: inserting a fresh entry into a well-formed list never panics; the entry becomes
  the first one with its object stored, the ring stays well formed with the lock free, and
  every other well-formed list with disjoint entries is left as it was.\<close>

theorem linkedlist_insert_correct:
  assumes "ll_rep m l xs" "e \<notin> set xs" "e \<noteq> sentry l" "e \<noteq> NULL"
  shows "\<exists>m'. linkedlist_insert l e x m = Some m' \<and> ll_rep m' l (e # xs) \<and>
    le_obj (entm m' e) = x \<and>
    (\<forall>k ys. ll_rep m k ys \<and> k \<noteq> l \<and> e \<notin> insert (sentry k) (set ys) \<and>
            insert (sentry l) (set xs) \<inter> insert (sentry k) (set ys) = {} \<longrightarrow> ll_rep m' k ys)"
proof -
  obtain m' where m': "linkedlist_insert l e x m = Some m'" "ll_rep m' l (e # xs)"
    "\<forall>p. le_obj (entm m' p) = (if p = e then x else le_obj (entm m p))"
    "only_touches m m' l (insert e (insert (sentry l) (set xs)))"
    using ll.rep_ins [OF assms] by blast
  moreover have "ll_rep m' k ys" if "ll_rep m k ys" "k \<noteq> l" "e \<notin> insert (sentry k) (set ys)"
    "insert (sentry l) (set xs) \<inter> insert (sentry k) (set ys) = {}" for k ys
    using ll.rep_frame [OF that(1) m'(4)] that by auto
  ultimately show ?thesis by auto
qed

theorem linkedlist_insert_correct_witness:
  "\<exists>m'. linkedlist_insert 100 200 7 (linkedlist_create 100 0 mem0) = Some m' \<and>
        ll_rep m' 100 [200] \<and> le_obj (entm m' 200) = 7"
proof -
  have "ll_rep (linkedlist_create 100 0 mem0) 100 []" by (rule create_rep)
  from linkedlist_insert_correct [OF this, of 200 7] show ?thesis
    by (auto simp: sentry_def)
qed

text \<open>C10: removing a member unlinks exactly that entry and marks it as being on no list;
  removing an entry whose \<open>list\<close> field names another list (or none, so also removing an
  entry a second time) panics instead of corrupting the ring.\<close>

theorem linkedlist_remove_correct:
  assumes "ll_rep m l xs"
  shows "(e \<in> set xs \<longrightarrow> (\<exists>m'. linkedlist_remove l e m = Some m' \<and> ll_rep m' l (remove1 e xs) \<and>
            (l \<noteq> NULL \<longrightarrow> linkedlist_remove l e m' = None))) \<and>
         (le_list (entm m e) \<noteq> l \<longrightarrow> linkedlist_remove l e m = None)"
proof (intro conjI impI)
  assume "e \<in> set xs"
  then obtain m' where "linkedlist_remove l e m = Some m'" "ll_rep m' l (remove1 e xs)"
    "le_list (entm m' e) = NULL" using remove_rep [OF assms] by blast
  moreover from this have "l \<noteq> NULL \<longrightarrow> linkedlist_remove l e m' = None"
    using remove_foreign_panics by metis
  ultimately show "\<exists>m'. linkedlist_remove l e m = Some m' \<and> ll_rep m' l (remove1 e xs) \<and>
       (l \<noteq> NULL \<longrightarrow> linkedlist_remove l e m' = None)" by blast
qed (rule remove_foreign_panics [OF assms])

theorem linkedlist_remove_correct_witness:
  "\<exists>m m'. ll_rep m 100 [200] \<and> linkedlist_remove 100 200 m = Some m' \<and> ll_rep m' 100 [] \<and>
     linkedlist_remove 100 200 m' = None"
proof -
  have "\<exists>m'. linkedlist_insert 100 200 7 (linkedlist_create 100 0 mem0) = Some m' \<and>
      ll_rep m' 100 [200]"
    using insert_rep [OF create_rep, of 200 100 7 0 mem0] by (auto simp: sentry_def)
  then obtain m where "ll_rep m 100 [200]" by blast
  with linkedlist_remove_correct [OF this, of 200] show ?thesis by auto
qed

text \<open>C17: on a well-formed list the search loop of \<open>linkedlist_find\<close> always returns, and it
  returns the first entry, in list order, that the callback accepts (\<open>NULL\<close> if there is none).\<close>

theorem linkedlist_find_correct:
  assumes "ll_rep m l xs"
  shows "\<exists>m'. linkedlist_find l fn m =
      Some (case find (\<lambda>e. fn (entm m e)) xs of None \<Rightarrow> NULL | Some e \<Rightarrow> e, m') \<and>
    ll_rep m' l xs \<and> entm m' = entm m"
  using find_rep [OF assms] by blast

theorem linkedlist_find_correct_witness:
  "\<exists>m'. linkedlist_find 100 (\<lambda>_. True) (linkedlist_create 100 1 mem0) = Some (NULL, m')"
  using linkedlist_find_correct [OF create_rep [of 100 1 mem0], of "\<lambda>_. True"] by auto

text \<open>A list used with \<open>linkedlist_insert\<close> and \<open>linkedlist_remove_tail\<close> is a first-in,
  first-out queue: the objects come back in the order they were inserted, and the list is
  empty again.\<close>

theorem linkedlist_fifo:
  assumes "ll_rep m l []" "distinct (map fst es)" "NULL \<notin> fst ` set es" "sentry l \<notin> fst ` set es"
  shows "\<exists>m1 m2. fill linkedlist_insert l es m = Some m1 \<and>
    drain (\<lambda>l. linkedlist_remove_tail l False) l (length es) m1 = Some (map snd es, m2) \<and>
    ll_rep m2 l []"
  by (rule ll.fifo [OF assms])

theorem linkedlist_fifo_witness:
  "\<exists>m1 m2. fill linkedlist_insert 100 [(200, 1), (300, 2)] (linkedlist_create 100 0 mem0) = Some m1 \<and>
     drain (\<lambda>l. linkedlist_remove_tail l False) 100 2 m1 = Some ([1, 2], m2)"
  using linkedlist_fifo [OF create_rep [of 100 0 mem0], of "[(200, 1), (300, 2)]"]
  by (auto simp: sentry_def numeral_2_eq_2)

end
