(* ===== verification/KStack.thy ===== *)
theory KStack
  imports Prelude
begin

text \<open>
  The intrusive stack of \<open>include/lib/stack.h\<close> and \<open>lib/ds/stack.c\<close>, at the level of
  its pointers. All stacks share one static \<open>__sentry\<close> element, whose fields are scratch.
  \<open>st_rep m s xs\<close>: the stack at \<open>s\<close> is well formed and holds the elements \<open>xs\<close>, top first.
  The locale \<open>intrusive_stack\<close> is the contract the slab and buddy allocators rely on.
\<close>

section \<open>Structures\<close>

record stack_elem =
  se_obj :: ptr
  se_next :: ptr
  se_prev :: ptr

record stack =
  st_flags :: u32
  st_count :: nat
  st_top :: ptr
  st_lock :: bool

record stmem =
  elemm :: "ptr \<Rightarrow> stack_elem"
  stackm :: "ptr \<Rightarrow> stack"

definition STACK_LOCKLESS :: u32 where "STACK_LOCKLESS = 1"

text \<open>The address of the static \<open>__sentry\<close>.\<close>

definition st_sentry :: ptr where "st_sentry = 8"

definition set_snext :: "ptr \<Rightarrow> ptr \<Rightarrow> stmem \<Rightarrow> stmem" where
  "set_snext p v m = m\<lparr>elemm := (elemm m)(p := (elemm m p)\<lparr>se_next := v\<rparr>)\<rparr>"

definition set_sprev :: "ptr \<Rightarrow> ptr \<Rightarrow> stmem \<Rightarrow> stmem" where
  "set_sprev p v m = m\<lparr>elemm := (elemm m)(p := (elemm m p)\<lparr>se_prev := v\<rparr>)\<rparr>"

definition set_sobj :: "ptr \<Rightarrow> ptr \<Rightarrow> stmem \<Rightarrow> stmem" where
  "set_sobj p v m = m\<lparr>elemm := (elemm m)(p := (elemm m p)\<lparr>se_obj := v\<rparr>)\<rparr>"

definition upd_stack :: "ptr \<Rightarrow> (stack \<Rightarrow> stack) \<Rightarrow> stmem \<Rightarrow> stmem" where
  "upd_stack s f m = m\<lparr>stackm := (stackm m)(s := f (stackm m s))\<rparr>"

section \<open>Operations\<close>

definition stack_is_empty :: "ptr \<Rightarrow> stmem \<Rightarrow> bool" where
  "stack_is_empty s m \<longleftrightarrow> st_count (stackm m s) = 0"

text \<open>\<open>stack_create\<close> sets the lock, the shared sentry, \<open>top\<close> and \<open>flags\<close>; it does not
  write \<open>count\<close>.\<close>

definition stack_create :: "ptr \<Rightarrow> u32 \<Rightarrow> stmem \<Rightarrow> stmem" where
  "stack_create s flags m =
     (let m = upd_stack s (\<lambda>k. k\<lparr>st_lock := False\<rparr>) m;
          m = set_sobj st_sentry 0 (set_snext st_sentry 0 (set_sprev st_sentry 0 m));
          m = upd_stack s (\<lambda>k. k\<lparr>st_top := st_sentry\<rparr>) m
      in upd_stack s (\<lambda>k. k\<lparr>st_flags := flags\<rparr>) m)"

definition st_acquire :: "ptr \<Rightarrow> stmem \<Rightarrow> stmem option" where
  "st_acquire s m =
     (if st_flags (stackm m s) AND STACK_LOCKLESS = 0
      then (if st_lock (stackm m s) then None
            else Some (upd_stack s (\<lambda>k. k\<lparr>st_lock := True\<rparr>) m))
      else Some m)"

definition st_release :: "ptr \<Rightarrow> stmem \<Rightarrow> stmem" where
  "st_release s m =
     (if st_flags (stackm m s) AND STACK_LOCKLESS = 0
      then upd_stack s (\<lambda>k. k\<lparr>st_lock := False\<rparr>) m else m)"

definition stack_push :: "ptr \<Rightarrow> ptr \<Rightarrow> ptr \<Rightarrow> stmem \<Rightarrow> stmem option" where
  "stack_push s e obj m = do {
     m \<leftarrow> st_acquire s m;
     let m = set_snext (st_top (stackm m s)) e m;
     let m = set_sobj e obj m;
     let m = set_snext e st_sentry m;
     let m = set_sprev e (st_top (stackm m s)) m;
     let m = upd_stack s (\<lambda>k. k\<lparr>st_top := e\<rparr>) m;
     let m = upd_stack s (\<lambda>k. k\<lparr>st_count := st_count k + 1\<rparr>) m;
     Some (st_release s m) }"

definition stack_delete :: "ptr \<Rightarrow> ptr \<Rightarrow> stmem \<Rightarrow> stmem option" where
  "stack_delete s e m = do {
     m \<leftarrow> st_acquire s m;
     kassert (st_count (stackm m s) > 0);
     let m = set_snext (se_prev (elemm m e)) (se_next (elemm m e)) m;
     let m = set_sprev (se_next (elemm m e)) (se_prev (elemm m e)) m;
     let m = (if st_top (stackm m s) = e
              then upd_stack s (\<lambda>k. k\<lparr>st_top := se_prev (elemm m e)\<rparr>) m else m);
     let m = upd_stack s (\<lambda>k. k\<lparr>st_count := st_count k - 1\<rparr>) m;
     Some (st_release s m) }"

definition stack_pop :: "ptr \<Rightarrow> stmem \<Rightarrow> (ptr \<times> stmem) option" where
  "stack_pop s m = do {
     m \<leftarrow> st_acquire s m;
     if st_count (stackm m s) = 0 then Some (NULL, st_release s m)
     else do {
       let obj = se_obj (elemm m (st_top (stackm m s)));
       let m = set_snext (se_prev (elemm m (st_top (stackm m s)))) st_sentry m;
       let m = upd_stack s (\<lambda>k. k\<lparr>st_top := se_prev (elemm m (st_top k))\<rparr>) m;
       let m = upd_stack s (\<lambda>k. k\<lparr>st_count := st_count k - 1\<rparr>) m;
       Some (obj, st_release s m) } }"

section \<open>Well-formed stacks\<close>

fun chain :: "stmem \<Rightarrow> ptr \<Rightarrow> ptr list \<Rightarrow> bool" where
  "chain m u [] \<longleftrightarrow> True"
| "chain m u (x # xs) \<longleftrightarrow>
     se_next (elemm m x) = u \<and> se_prev (elemm m x) = hd (xs @ [st_sentry]) \<and> chain m x xs"

definition st_ring :: "stmem \<Rightarrow> ptr \<Rightarrow> ptr list \<Rightarrow> bool" where
  "st_ring m s xs \<longleftrightarrow>
     st_top (stackm m s) = hd (xs @ [st_sentry]) \<and> st_count (stackm m s) = length xs \<and>
     distinct (st_sentry # xs) \<and> chain m st_sentry xs"

definition st_free :: "stmem \<Rightarrow> ptr \<Rightarrow> bool" where
  "st_free m s \<longleftrightarrow> (st_flags (stackm m s) AND STACK_LOCKLESS = 0 \<longrightarrow> \<not> st_lock (stackm m s))"

definition st_rep :: "stmem \<Rightarrow> ptr \<Rightarrow> ptr list \<Rightarrow> bool" where
  "st_rep m s xs \<longleftrightarrow> st_ring m s xs \<and> st_free m s"

definition st_touches :: "stmem \<Rightarrow> stmem \<Rightarrow> ptr \<Rightarrow> ptr set \<Rightarrow> bool" where
  "st_touches m m' s S \<longleftrightarrow>
     (\<forall>p. p \<notin> S \<longrightarrow> elemm m' p = elemm m p) \<and> (\<forall>k. k \<noteq> s \<longrightarrow> stackm m' k = stackm m k)"

lemmas st_field_defs = set_snext_def set_sprev_def set_sobj_def upd_stack_def

lemma st_field_simps [simp]:
  "se_obj (elemm (set_snext p v m) q) = se_obj (elemm m q)"
  "se_next (elemm (set_snext p v m) q) = (if q = p then v else se_next (elemm m q))"
  "se_prev (elemm (set_snext p v m) q) = se_prev (elemm m q)"
  "se_obj (elemm (set_sprev p v m) q) = se_obj (elemm m q)"
  "se_next (elemm (set_sprev p v m) q) = se_next (elemm m q)"
  "se_prev (elemm (set_sprev p v m) q) = (if q = p then v else se_prev (elemm m q))"
  "se_obj (elemm (set_sobj p v m) q) = (if q = p then v else se_obj (elemm m q))"
  "se_next (elemm (set_sobj p v m) q) = se_next (elemm m q)"
  "se_prev (elemm (set_sobj p v m) q) = se_prev (elemm m q)"
  "elemm (upd_stack s f m) = elemm m"
  "stackm (set_snext p v m) = stackm m" "stackm (set_sprev p v m) = stackm m"
  "stackm (set_sobj p v m) = stackm m"
  "stackm (upd_stack s f m) = (stackm m)(s := f (stackm m s))"
  by (simp_all add: st_field_defs)

lemma chain_cong:
  assumes "\<And>p. p \<in> set xs \<Longrightarrow> se_next (elemm m' p) = se_next (elemm m p)"
    and "\<And>p. p \<in> set xs \<Longrightarrow> se_prev (elemm m' p) = se_prev (elemm m p)"
  shows "chain m' u xs = chain m u xs"
  using assms by (induction xs arbitrary: u) auto

lemma chain_irrelevant [simp]:
  "p \<notin> set xs \<Longrightarrow> chain (set_snext p v m) u xs = chain m u xs"
  "p \<notin> set xs \<Longrightarrow> chain (set_sprev p v m) u xs = chain m u xs"
  "chain (set_sobj p v m) u xs = chain m u xs"
  "chain (upd_stack s f m) u xs = chain m u xs"
  by (rule chain_cong; auto)+

lemma chain_relink:
  assumes "chain m u xs" "distinct xs"
  shows "chain (set_snext (hd (xs @ [st_sentry])) v m) v xs"
  using assms by (cases xs) auto

lemma chain_append:
  "chain m u (as @ e # bs) \<Longrightarrow>
     chain m (last (u # as)) (e # bs) \<and> se_next (elemm m e) = last (u # as) \<and>
     se_prev (elemm m e) = hd (bs @ [st_sentry])"
  by (induction as arbitrary: u) auto


lemma chain_delete:
  assumes "chain m u (as @ e # bs)" "distinct (u # as @ e # bs)" "st_sentry \<notin> set (as @ e # bs)"
    and "p = hd (bs @ [st_sentry])" "w = last (u # as)"
  shows "chain (set_sprev w p (set_snext p w m)) u (as @ bs)"
  using assms
proof (induction as arbitrary: u)
  case Nil
  then have "chain m e bs" "distinct bs" by auto
  from chain_relink [OF this, of u] have "chain (set_snext p u m) u bs" using Nil by simp
  with Nil show ?case by simp
next
  case (Cons x as)
  then have "chain (set_sprev w p (set_snext p w m)) x (as @ bs)" by (intro Cons.IH) auto
  moreover have "p \<noteq> x" using Cons.prems by (cases bs) auto
  moreover have "w \<noteq> x" if "as \<noteq> []" using Cons.prems that by (auto dest: last_in_set)
  ultimately show ?case using Cons.prems by (cases as) (auto split: if_splits)
qed

lemma st_repD:
  assumes "st_rep m s xs"
  shows "st_ring m s xs" "st_free m s"
  using assms by (simp_all add: st_rep_def)

lemma st_ringD:
  assumes "st_ring m s xs"
  shows "st_top (stackm m s) = hd (xs @ [st_sentry])" "st_count (stackm m s) = length xs"
    "st_sentry \<notin> set xs" "distinct xs" "chain m st_sentry xs"
  using assms by (simp_all add: st_ring_def)

lemma st_ring_cong:
  assumes "elemm m' = elemm m" "st_top (stackm m' s) = st_top (stackm m s)"
    "st_count (stackm m' s) = st_count (stackm m s)"
  shows "st_ring m' s xs = st_ring m s xs"
  using assms chain_cong [of xs m' m st_sentry] by (simp add: st_ring_def)

lemma st_touches_trans:
  "st_touches m m' s S \<Longrightarrow> st_touches m' m'' s T \<Longrightarrow> S \<union> T \<subseteq> U \<Longrightarrow> st_touches m m'' s U"
  unfolding st_touches_def by (metis Un_iff subset_iff)

lemma st_acquire_ok:
  assumes "st_rep m s xs"
  shows "\<exists>m1. st_acquire s m = Some m1 \<and> st_ring m1 s xs \<and> elemm m1 = elemm m \<and>
              st_touches m m1 s {}"
proof -
  have *: "st_ring (upd_stack s (\<lambda>k. k\<lparr>st_lock := True\<rparr>) m) s xs"
    using st_repD(1) [OF assms] by (subst st_ring_cong [of _ m]) auto
  show ?thesis
    using assms * by (auto simp: st_acquire_def st_rep_def st_free_def st_touches_def)
qed

lemma st_release_simps [simp]:
  "elemm (st_release s m) = elemm m"
  "st_rep (st_release s m) s xs = st_ring m s xs"
  "st_touches m0 m s S \<Longrightarrow> st_touches m0 (st_release s m) s S"
proof -
  show "elemm (st_release s m) = elemm m" by (simp add: st_release_def)
  have "st_ring (st_release s m) s xs = st_ring m s xs"
    by (rule st_ring_cong) (auto simp: st_release_def)
  then show "st_rep (st_release s m) s xs = st_ring m s xs"
    by (simp add: st_rep_def) (auto simp: st_release_def st_free_def)
  show "st_touches m0 m s S \<Longrightarrow> st_touches m0 (st_release s m) s S"
    by (auto simp: st_touches_def st_release_def)
qed

section \<open>Refinement\<close>

lemma st_create_rep:
  assumes "st_count (stackm m s) = 0"
  shows "st_rep (stack_create s flags m) s []"
  using assms by (auto simp: stack_create_def st_rep_def st_ring_def st_free_def Let_def)

lemma st_push_rep:
  assumes rep: "st_rep m s xs" and e: "e \<notin> set xs" "e \<noteq> st_sentry"
  shows "\<exists>m'. stack_push s e x m = Some m' \<and> st_rep m' s (e # xs) \<and>
    (\<forall>p. se_obj (elemm m' p) = (if p = e then x else se_obj (elemm m p))) \<and>
    st_touches m m' s (insert e (insert st_sentry (set xs)))"
proof -
  obtain m1 where m1: "st_acquire s m = Some m1" "st_ring m1 s xs" "elemm m1 = elemm m"
    "st_touches m m1 s {}" using st_acquire_ok [OF rep] by blast
  note r = st_ringD [OF m1(2)]
  let ?t = "hd (xs @ [st_sentry])"
  let ?m2 = "set_sprev e ?t (set_snext e st_sentry (set_sobj e x (set_snext ?t e m1)))"
  let ?m3 = "upd_stack s (\<lambda>k. k\<lparr>st_count := st_count k + 1\<rparr>) (upd_stack s (\<lambda>k. k\<lparr>st_top := e\<rparr>) ?m2)"
  have t: "?t \<in> insert st_sentry (set xs)" "?t \<noteq> e" using e by (cases xs; auto)+
  have eq: "stack_push s e x m = Some (st_release s ?m3)"
    by (simp add: stack_push_def m1(1) r Let_def del: hd_append_single)
  have "chain (set_snext ?t e m1) e xs" using r by (intro chain_relink)
  then have "st_ring ?m3 s (e # xs)"
    using r e by (auto simp: st_ring_def simp del: hd_append_single)
  moreover have "st_touches m ?m3 s (insert e (insert st_sentry (set xs)))"
    using m1(4) t by (auto simp: st_touches_def st_field_defs simp del: hd_append_single)
  ultimately show ?thesis using m1(3) by (simp add: eq del: hd_append_single)
qed

lemma st_delete_rep:
  assumes rep: "st_rep m s xs" and e: "e \<in> set xs"
  shows "\<exists>m'. stack_delete s e m = Some m' \<and> st_rep m' s (remove1 e xs) \<and>
    (\<forall>p. se_obj (elemm m' p) = se_obj (elemm m p)) \<and>
    st_touches m m' s (insert st_sentry (set xs))"
proof -
  obtain m1 where m1: "st_acquire s m = Some m1" "st_ring m1 s xs" "elemm m1 = elemm m"
    "st_touches m m1 s {}" using st_acquire_ok [OF rep] by blast
  note r = st_ringD [OF m1(2)]
  obtain as bs where xs: "xs = as @ e # bs" using e by (meson split_list)
  let ?p = "hd (bs @ [st_sentry])" and ?w = "last (st_sentry # as)"
  have pw: "se_prev (elemm m1 e) = ?p" "se_next (elemm m1 e) = ?w"
    using chain_append r(5) unfolding xs by metis+
  have mem: "?p \<in> insert st_sentry (set xs)" "?w \<in> insert st_sentry (set xs)"
    using xs by (cases as; cases bs; auto)+
  have ne: "?p \<noteq> e" "?w \<noteq> e" using r(3,4) xs by (auto split: if_splits)
  let ?m2 = "set_sprev ?w ?p (set_snext ?p ?w m1)"
  let ?m3 = "if hd (xs @ [st_sentry]) = e then upd_stack s (\<lambda>k. k\<lparr>st_top := ?p\<rparr>) ?m2 else ?m2"
  let ?m4 = "upd_stack s (\<lambda>k. k\<lparr>st_count := st_count k - 1\<rparr>) ?m3"
  have eq: "stack_delete s e m = Some (st_release s ?m4)"
    using ne e by (simp add: stack_delete_def m1(1) r Let_def pw del: hd_append_single last.simps)
      (auto simp: xs)
  have rm: "remove1 e xs = as @ bs" using r(4) xs by (simp add: distinct_split_unique)
  have "chain ?m2 st_sentry (as @ bs)"
    using r xs by (intro chain_delete [OF _ _ _ refl refl]) auto
  moreover have "(hd (xs @ [st_sentry]) = e) = (as = [])" using r(4) xs by (cases as) auto
  moreover have "chain ?m4 st_sentry (as @ bs) = chain ?m2 st_sentry (as @ bs)"
    by (rule chain_cong) (simp_all del: hd_append_single last.simps)
  moreover have "hd (xs @ [st_sentry]) = hd ((as @ bs) @ [st_sentry])" if "as \<noteq> []"
    using that xs by simp
  ultimately have "st_ring ?m4 s (as @ bs)"
    using r xs by (simp add: st_ring_def del: last.simps hd_append_single)
  moreover have "st_touches m ?m4 s (insert st_sentry (set xs))"
    using m1(4) mem by (auto simp: st_touches_def st_field_defs simp del: hd_append_single last.simps)
  ultimately show ?thesis using m1(3) by (simp add: eq rm del: hd_append_single last.simps)
qed

lemma st_pop_rep:
  assumes rep: "st_rep m s xs"
  shows "\<exists>m'. stack_pop s m = Some (if xs = [] then NULL else se_obj (elemm m (hd xs)), m') \<and>
    st_rep m' s (tl xs) \<and> (\<forall>p. se_obj (elemm m' p) = se_obj (elemm m p)) \<and>
    st_touches m m' s (insert st_sentry (set xs))"
proof -
  obtain m1 where m1: "st_acquire s m = Some m1" "st_ring m1 s xs" "elemm m1 = elemm m"
    "st_touches m m1 s {}" using st_acquire_ok [OF rep] by blast
  note r = st_ringD [OF m1(2), unfolded m1(3)]
  have t0: "st_touches m m1 s (insert st_sentry (set xs))"
    using m1(4) by (auto simp: st_touches_def)
  show ?thesis
  proof (cases xs)
    case Nil
    with m1 t0 show ?thesis by (simp add: stack_pop_def r)
  next
    case (Cons e ys)
    note r1 = st_ringD [OF m1(2), unfolded Cons]
    let ?p = "hd (ys @ [st_sentry])"
    let ?m2 = "set_snext ?p st_sentry m1"
    let ?m3 = "upd_stack s (\<lambda>k. k\<lparr>st_count := st_count k - 1\<rparr>) (upd_stack s (\<lambda>k. k\<lparr>st_top := ?p\<rparr>) ?m2)"
    have eq: "stack_pop s m = Some (se_obj (elemm m1 e), st_release s ?m3)"
      using r1 by (simp add: stack_pop_def m1(1) Let_def upd_stack_def del: hd_append_single)
    have "chain ?m2 st_sentry ys" using r1 by (intro chain_relink [of _ e]) auto
    then have "st_ring ?m3 s ys" using r1 by (auto simp: st_ring_def simp del: hd_append_single)
    moreover have "st_touches m ?m3 s (insert st_sentry (set xs))"
    proof -
      have "?p \<in> insert st_sentry (set xs)" using Cons by (cases ys) auto
      then show ?thesis
        using m1(4) by (auto simp: st_touches_def st_field_defs simp del: hd_append_single)
    qed
    ultimately show ?thesis using m1(3) Cons by (simp add: eq del: hd_append_single)
  qed
qed

lemma st_frame:
  assumes "st_rep m k ys" "st_touches m m' s S" "k \<noteq> s" "S \<inter> set ys = {}"
  shows "st_rep m' k ys"
proof -
  have "chain m' st_sentry ys = chain m st_sentry ys"
    using assms by (intro chain_cong) (auto simp: st_touches_def)
  with assms show ?thesis by (simp add: st_rep_def st_ring_def st_free_def st_touches_def)
qed

section \<open>The contract of a stack\<close>

text \<open>Sequences of operations, for any push and pop.\<close>

fun push_all :: "('s \<Rightarrow> 'o \<Rightarrow> 'm \<Rightarrow> 'm option) \<Rightarrow> ('s \<times> 'o) list \<Rightarrow> 'm \<Rightarrow> 'm option" where
  "push_all push [] m = Some m"
| "push_all push ((e, x) # es) m = do { m' \<leftarrow> push e x m; push_all push es m' }"

fun pop_n :: "('m \<Rightarrow> ('o \<times> 'm) option) \<Rightarrow> nat \<Rightarrow> 'm \<Rightarrow> ('o list \<times> 'm) option" where
  "pop_n pop 0 m = Some ([], m)"
| "pop_n pop (Suc n) m = do { (x, m') \<leftarrow> pop m; (xs, m'') \<leftarrow> pop_n pop n m'; Some (x # xs, m'') }"

locale intrusive_stack =
  fixes rep :: "'m \<Rightarrow> 'e list \<Rightarrow> bool"
    and valid :: "'e \<Rightarrow> bool"
    and obj :: "'m \<Rightarrow> 'e \<Rightarrow> 'o"
    and push :: "'e \<Rightarrow> 'o \<Rightarrow> 'm \<Rightarrow> 'm option"
    and pop :: "'m \<Rightarrow> ('o \<times> 'm) option"
  assumes push: "rep m xs \<Longrightarrow> valid e \<Longrightarrow> e \<notin> set xs \<Longrightarrow>
      \<exists>m'. push e x m = Some m' \<and> rep m' (e # xs) \<and> obj m' = (obj m)(e := x)"
    and pop: "rep m (e # xs) \<Longrightarrow>
      \<exists>m'. pop m = Some (obj m e, m') \<and> rep m' xs \<and> obj m' = obj m"
begin

lemma push_all_rep:
  "rep m xs \<Longrightarrow> \<forall>e \<in> fst ` set es. valid e \<Longrightarrow> distinct (map fst es) \<Longrightarrow>
    set (map fst es) \<inter> set xs = {} \<Longrightarrow>
    \<exists>m'. push_all push es m = Some m' \<and> rep m' (rev (map fst es) @ xs) \<and>
         (\<forall>(e, x) \<in> set es. obj m' e = x) \<and>
         (\<forall>e. e \<notin> fst ` set es \<longrightarrow> obj m' e = obj m e)"
proof (induction es arbitrary: m xs)
  case (Cons ex es)
  obtain e x where ex: "ex = (e, x)" by (cases ex)
  obtain m1 where m1: "push e x m = Some m1" "rep m1 (e # xs)" "obj m1 = (obj m)(e := x)"
    using push [of m xs e x] Cons.prems(1,2,4) ex by force
  have "\<forall>e \<in> fst ` set es. valid e" "distinct (map fst es)" "set (map fst es) \<inter> set (e # xs) = {}"
    using Cons.prems ex by auto
  from Cons.IH [OF m1(2) this] obtain m2 where m2: "push_all push es m1 = Some m2"
    "rep m2 (rev (map fst es) @ e # xs)" "\<forall>(e, x) \<in> set es. obj m2 e = x"
    "\<forall>d. d \<notin> fst ` set es \<longrightarrow> obj m2 d = obj m1 d" by blast
  have "push_all push (ex # es) m = Some m2" using ex m1(1) m2(1) by simp
  moreover have "rep m2 (rev (map fst (ex # es)) @ xs)" using m2(2) ex by simp
  moreover have "e \<notin> fst ` set es" using Cons.prems ex by auto
  ultimately show ?case using m2(3,4) m1(3) ex by (intro exI [of _ m2]) simp
qed simp

lemma pop_n_rep:
  "rep m (ys @ xs) \<Longrightarrow> \<exists>m'. pop_n pop (length ys) m = Some (map (obj m) ys, m') \<and> rep m' xs"
proof (induction ys arbitrary: m)
  case (Cons y ys)
  then obtain m1 where m1: "pop m = Some (obj m y, m1)" "rep m1 (ys @ xs)" "obj m1 = obj m"
    using pop by fastforce
  with Cons.IH [OF m1(2)] show ?case by auto
qed simp

lemma lifo:
  assumes "rep m xs" "\<forall>e \<in> fst ` set es. valid e" "distinct (map fst es)"
    "set (map fst es) \<inter> set xs = {}"
  shows "\<exists>m' m''. push_all push es m = Some m' \<and>
    pop_n pop (length es) m' = Some (rev (map snd es), m'') \<and> rep m'' xs"
proof -
  obtain m' where m': "push_all push es m = Some m'" "rep m' (rev (map fst es) @ xs)"
    "\<forall>(e, x) \<in> set es. obj m' e = x" using push_all_rep [OF assms] by blast
  have "map (obj m') (rev (map fst es)) = rev (map snd es)"
    using m'(3) by (auto simp: rev_map [symmetric] split: prod.splits)
  with pop_n_rep [OF m'(2)] m'(1) show ?thesis by auto
qed

end

interpretation ks: intrusive_stack "\<lambda>m xs. st_rep m s xs" "\<lambda>e. e \<noteq> st_sentry"
  "\<lambda>m e. se_obj (elemm m e)" "stack_push s" "stack_pop s" for s
proof
  fix m xs e x assume "st_rep m s xs" "e \<noteq> st_sentry" "e \<notin> set xs"
  then show "\<exists>m'. stack_push s e x m = Some m' \<and> st_rep m' s (e # xs) \<and>
      (\<lambda>p. se_obj (elemm m' p)) = (\<lambda>p. se_obj (elemm m p))(e := x)"
    using st_push_rep [of m s xs e x] by fastforce
next
  fix m e xs assume "st_rep m s (e # xs)"
  then show "\<exists>m'. stack_pop s m = Some (se_obj (elemm m e), m') \<and> st_rep m' s xs \<and>
      (\<lambda>p. se_obj (elemm m' p)) = (\<lambda>p. se_obj (elemm m p))"
    using st_pop_rep [of m s "e # xs"] by fastforce
qed

section \<open>Properties\<close>

text \<open>Last in, first out. Pushing any distinct elements on a well-formed stack never
  panics, and popping as many objects yields exactly the pushed objects in reverse order and
  leaves the stack with its former elements.\<close>

theorem stack_lifo:
  assumes "st_rep m s xs" and "distinct (map fst es)" and "st_sentry \<notin> set (map fst es)"
    and "set (map fst es) \<inter> set xs = {}"
  shows "\<exists>m' m''. push_all (stack_push s) es m = Some m' \<and>
    pop_n (stack_pop s) (length es) m' = Some (rev (map snd es), m'') \<and> st_rep m'' s xs"
proof (rule ks.lifo)
  show "\<forall>e \<in> fst ` set es. e \<noteq> st_sentry" using assms(3) by (metis set_map)
qed (use assms in auto)

definition stmem0 :: stmem where
  "stmem0 = \<lparr>elemm = \<lambda>_. \<lparr>se_obj = 0, se_next = 0, se_prev = 0\<rparr>,
             stackm = \<lambda>_. \<lparr>st_flags = 0, st_count = 0, st_top = 0, st_lock = False\<rparr>\<rparr>"

lemma stmem0_rep: "st_rep (stack_create s f stmem0) s []"
  by (rule st_create_rep) (simp add: stmem0_def)

theorem stack_lifo_witness:
  "\<exists>m' m''. push_all (stack_push 100) [(200, 7), (300, 9)] (stack_create 100 0 stmem0) = Some m' \<and>
    pop_n (stack_pop 100) 2 m' = Some ([9, 7], m'') \<and> st_rep m'' 100 []"
  using stack_lifo [OF stmem0_rep, of "[(200, 7), (300, 9)]" 100 0]
  by (simp add: st_sentry_def numeral_2_eq_2)

text \<open>\<open>stack_delete\<close> of an element that is anywhere in a well-formed stack never panics,
  removes exactly that element, keeps the order of the others and all stored objects, and leaves
  every other stack of the system, whose elements are disjoint from this one's, as it was.\<close>

theorem stack_delete_correct:
  assumes "st_rep m s xs" and "e \<in> set xs"
  shows "\<exists>m'. stack_delete s e m = Some m' \<and> st_rep m' s (remove1 e xs) \<and>
    (\<forall>p. se_obj (elemm m' p) = se_obj (elemm m p)) \<and>
    (\<forall>k ys. k \<noteq> s \<and> set xs \<inter> set ys = {} \<and> st_rep m k ys \<longrightarrow> st_rep m' k ys)"
proof -
  obtain m' where m': "stack_delete s e m = Some m'" "st_rep m' s (remove1 e xs)"
    "\<forall>p. se_obj (elemm m' p) = se_obj (elemm m p)" "st_touches m m' s (insert st_sentry (set xs))"
    using st_delete_rep [OF assms] by blast
  have "st_rep m' k ys" if "k \<noteq> s" "set xs \<inter> set ys = {}" "st_rep m k ys" for k ys
    using st_frame [OF that(3) m'(4)] that st_ringD(3) [OF st_repD(1) [OF that(3)]] by auto
  with m' show ?thesis by blast
qed

theorem stack_delete_correct_witness:
  "\<exists>m m'. stack_push 100 200 7 (stack_create 100 0 stmem0) = Some m \<and>
     stack_delete 100 200 m = Some m' \<and> st_rep m' 100 []"
proof -
  obtain m where m: "stack_push 100 200 7 (stack_create 100 0 stmem0) = Some m" "st_rep m 100 [200]"
    using st_push_rep [OF stmem0_rep, of 200 100 7 0] by (auto simp: st_sentry_def)
  with stack_delete_correct [OF m(2), of 200] show ?thesis by auto
qed

end
