(* ===== verification/KString.thy ===== *)
theory KString
  imports Prelude "HOL-Library.List_Lexorder"
begin

text \<open>
  The memory and string routines of \<open>lib/string/mem.c\<close>, over a flat byte memory. Loops bounded
  by a count are recursive in the count; loops that stop at the terminating zero are partial
  functions whose value is None when the loop does not end. \<open>cstr m p s\<close>: the bytes \<open>s\<close>,
  none of them zero, followed by a zero, lie at \<open>p\<close>. Objects do not wrap around the end of
  the address space, so addresses are natural numbers.
\<close>

type_synonym bytes = "nat \<Rightarrow> u8"

section \<open>Counted loops\<close>

fun memcmp :: "ptr \<Rightarrow> ptr \<Rightarrow> nat \<Rightarrow> bytes \<Rightarrow> int" where
  "memcmp p q 0 m = 0"
| "memcmp p q (Suc num) m =
     (if m p > m q then 1 else if m p < m q then -1 else memcmp (p + 1) (q + 1) num m)"

fun memchr :: "ptr \<Rightarrow> int \<Rightarrow> nat \<Rightarrow> bytes \<Rightarrow> ptr" where
  "memchr p v 0 m = NULL"
| "memchr p v (Suc num) m = (if m p = word_of_int v then p else memchr (p + 1) v num m)"

fun memset :: "ptr \<Rightarrow> int \<Rightarrow> nat \<Rightarrow> bytes \<Rightarrow> bytes" where
  "memset b c 0 m = m"
| "memset b c (Suc n) m = memset (b + 1) c n (m(b := word_of_int c))"

definition strncmp :: "ptr \<Rightarrow> ptr \<Rightarrow> nat \<Rightarrow> bytes \<Rightarrow> int" where
  "strncmp s1 s2 n m = memcmp s1 s2 n m"

fun memcpy :: "ptr \<Rightarrow> ptr \<Rightarrow> nat \<Rightarrow> bytes \<Rightarrow> bytes" where
  "memcpy d s 0 m = m"
| "memcpy d s (Suc num) m = memcpy (d + 1) (s + 1) num (m(d := m s))"

fun move_up :: "ptr \<Rightarrow> ptr \<Rightarrow> nat \<Rightarrow> bytes \<Rightarrow> bytes" where
  "move_up d s 0 m = m"
| "move_up d s (Suc num) m = move_up (d + 1) (s + 1) num (m(d := m s))"

fun move_down :: "ptr \<Rightarrow> ptr \<Rightarrow> nat \<Rightarrow> bytes \<Rightarrow> bytes" where
  "move_down d s 0 m = m"
| "move_down d s (Suc num) m = move_down d s num (m(d + num := m (s + num)))"

definition memmove :: "ptr \<Rightarrow> ptr \<Rightarrow> nat \<Rightarrow> bytes \<Rightarrow> bytes" where
  "memmove d s num m = (if d < s then move_up d s num m else move_down d s num m)"

section \<open>Loops that stop at the terminating zero\<close>

partial_function (option) strlen_loop :: "ptr \<Rightarrow> nat \<Rightarrow> bytes \<Rightarrow> nat option" where
  "strlen_loop s c m = (if m s \<noteq> 0 then strlen_loop (s + 1) (c + 1) m else Some c)"

definition strlen :: "ptr \<Rightarrow> bytes \<Rightarrow> nat option" where
  "strlen s m = strlen_loop s 0 m"

partial_function (option) strcat_loop :: "ptr \<Rightarrow> ptr \<Rightarrow> bytes \<Rightarrow> (ptr \<times> bytes) option" where
  "strcat_loop str cat m =
     (let c = m cat; m = m(str := c)
      in if m cat \<noteq> 0 then strcat_loop (str + 1) (cat + 1) m else Some (str + 1, m))"

definition strcat :: "ptr \<Rightarrow> ptr \<Rightarrow> bytes \<Rightarrow> (ptr \<times> bytes) option" where
  "strcat str cat m = do { n \<leftarrow> strlen str m; strcat_loop (str + n) cat m }"

definition strcmp :: "ptr \<Rightarrow> ptr \<Rightarrow> bytes \<Rightarrow> int option" where
  "strcmp s1 s2 m = do {
     len1 \<leftarrow> strlen s1 m;
     len2 \<leftarrow> strlen s2 m;
     let cmpResult = memcmp s1 s2 (if len1 < len2 then len1 else len2) m;
     Some (if cmpResult \<noteq> 0 then cmpResult
           else if len1 > len2 then 1 else if len1 < len2 then -1 else 0) }"

partial_function (option) strchr_loop :: "ptr \<Rightarrow> u8 \<Rightarrow> bytes \<Rightarrow> ptr option" where
  "strchr_loop str v m =
     (if m str \<noteq> 0 \<and> m str \<noteq> v then strchr_loop (str + 1) v m else Some str)"

definition strchrc :: "ptr \<Rightarrow> u8 \<Rightarrow> bytes \<Rightarrow> ptr option" where
  "strchrc str v m = do {
     s \<leftarrow> strchr_loop str v m;
     Some (if m s = v then s else NULL) }"

text \<open>The backward scan ends at the first byte of the string. On an empty string it starts
  one byte before it and never meets that bound.\<close>

partial_function (option) strrchr_loop :: "ptr \<Rightarrow> ptr \<Rightarrow> u8 \<Rightarrow> bytes \<Rightarrow> ptr option" where
  "strrchr_loop str s v m =
     (if s \<noteq> str then (if m s = v then Some s else strrchr_loop str (s - 1) v m)
      else Some (if m s = v then s else NULL))"

definition strrchrc :: "ptr \<Rightarrow> u8 \<Rightarrow> bytes \<Rightarrow> ptr option" where
  "strrchrc str v m = do { n \<leftarrow> strlen str m; strrchr_loop str (str + n - 1) v m }"

definition strrchrm :: "ptr \<Rightarrow> u8 \<Rightarrow> bytes \<Rightarrow> ptr option" where
  "strrchrm str v m = do { n \<leftarrow> strlen str m; strrchr_loop str (str + n - 1) v m }"

fun strncpy_loop :: "ptr \<Rightarrow> ptr \<Rightarrow> nat \<Rightarrow> bytes \<Rightarrow> bytes" where
  "strncpy_loop d s 0 m = m"
| "strncpy_loop d s (Suc n) m =
     (if m s \<noteq> 0 then strncpy_loop (d + 1) (s + 1) n (m(d := m s)) else m)"

definition strncpy :: "ptr \<Rightarrow> ptr \<Rightarrow> nat \<Rightarrow> bytes \<Rightarrow> ptr \<times> bytes" where
  "strncpy dest src n m = (dest, strncpy_loop dest src n m)"

text \<open>\<open>strtol\<close>: \<open>char\<close> is signed and \<open>long\<close> has 64 bits. The letters of a base above ten
  contribute their distance from the letter a.\<close>

partial_function (option) strtol_loop ::
  "ptr \<Rightarrow> int \<Rightarrow> 64 word \<Rightarrow> bytes \<Rightarrow> (ptr \<times> 64 word) option" where
  "strtol_loop str base tmp m =
     (let c = sint (m str) in
      if c = 0 then Some (str, tmp)
      else if 48 \<le> c \<and> c \<le> 48 + (base - 1)
        then strtol_loop (str + 1) base (tmp * word_of_int base + word_of_int (c - 48)) m
      else if 97 \<le> c \<and> c < 97 + (base - 10)
        then strtol_loop (str + 1) base (tmp * word_of_int base + word_of_int (c - 97)) m
      else if 65 \<le> c \<and> c < 65 + (base - 10)
        then strtol_loop (str + 1) base (tmp * word_of_int base + word_of_int (c - 65)) m
      else Some (str, tmp))"

definition strtol :: "ptr \<Rightarrow> int \<Rightarrow> bytes \<Rightarrow> (ptr \<times> 64 word) option" where
  "strtol str base m = (
     let neg = (sint (m str) = 45);
         str = (if neg then str + 1 else str);
         str = (if sint (m str) = 43 then str + 1 else str)
     in do {
       (e, tmp) \<leftarrow> strtol_loop str base 0 m;
       Some (e, if neg then - tmp else tmp) })"

declare strlen_loop.simps [code] strcat_loop.simps [code] strchr_loop.simps [code]
  strrchr_loop.simps [code] strtol_loop.simps [code]

section \<open>Strings in memory\<close>

fun stored :: "bytes \<Rightarrow> ptr \<Rightarrow> u8 list \<Rightarrow> bool" where
  "stored m p [] \<longleftrightarrow> True"
| "stored m p (x # xs) \<longleftrightarrow> m p = x \<and> stored m (p + 1) xs"

definition cstr :: "bytes \<Rightarrow> ptr \<Rightarrow> u8 list \<Rightarrow> bool" where
  "cstr m p s \<longleftrightarrow> 0 \<notin> set s \<and> stored m p (s @ [0])"

lemma stored_nth: "stored m p xs \<longleftrightarrow> (\<forall>i < length xs. m (p + i) = xs ! i)"
proof (induction xs arbitrary: p)
  case (Cons x xs)
  then show ?case by (auto simp: less_Suc_eq_0_disj)
qed simp

lemma stored_append [simp]:
  "stored m p (xs @ ys) \<longleftrightarrow> stored m p xs \<and> stored m (p + length xs) ys"
  by (induction xs arbitrary: p) auto

lemma cstr_Nil [simp]: "cstr m p [] \<longleftrightarrow> m p = 0"
  by (simp add: cstr_def)

lemma cstr_Cons [simp]: "cstr m p (x # s) \<longleftrightarrow> x \<noteq> 0 \<and> m p = x \<and> cstr m (p + 1) s"
  by (auto simp: cstr_def)

lemma strlen_loop_cstr: "cstr m p s \<Longrightarrow> strlen_loop p c m = Some (c + length s)"
  by (induction s arbitrary: p c) (subst strlen_loop.simps, simp)+

lemma strlen_cstr: "cstr m p s \<Longrightarrow> strlen p m = Some (length s)"
  by (simp add: strlen_def strlen_loop_cstr)

section \<open>Copying\<close>

lemma move_up_apply:
  "d < s \<Longrightarrow> move_up d s n m a = (if d \<le> a \<and> a < d + n then m (s + (a - d)) else m a)"
proof (induction n arbitrary: d s m)
  case (Suc n)
  define m' where "m' = m(d := m s)"
  have m': "m' x = (if x = d then m s else m x)" for x by (simp add: m'_def)
  have "move_up d s (Suc n) m a = move_up (Suc d) (Suc s) n m' a" by (simp add: m'_def)
  moreover have "Suc d \<le> a \<Longrightarrow> Suc s + (a - Suc d) = s + (a - d)" by simp
  ultimately show ?case
    using Suc.IH [of "Suc d" "Suc s" m'] Suc.prems m' [of a] m' [of "s + (a - d)"]
    by (simp del: move_up.simps split: if_splits) auto
qed auto

lemma move_down_apply:
  "s \<le> d \<Longrightarrow> move_down d s n m a = (if d \<le> a \<and> a < d + n then m (s + (a - d)) else m a)"
  by (induction n arbitrary: m) auto

lemma memcpy_apply:
  "d \<le> s \<or> s + n \<le> d \<Longrightarrow>
   memcpy d s n m a = (if d \<le> a \<and> a < d + n then m (s + (a - d)) else m a)"
proof (induction n arbitrary: d s m)
  case (Suc n)
  define m' where "m' = m(d := m s)"
  have m': "m' x = (if x = d then m s else m x)" for x by (simp add: m'_def)
  have "memcpy d s (Suc n) m a = memcpy (Suc d) (Suc s) n m' a" by (simp add: m'_def)
  moreover have "Suc d \<le> a \<Longrightarrow> Suc s + (a - Suc d) = s + (a - d)" by simp
  ultimately show ?case
    using Suc.IH [of "Suc d" "Suc s" m'] Suc.prems m' [of a] m' [of "s + (a - d)"]
    by (simp del: memcpy.simps split: if_splits) auto
qed auto

lemma memset_apply:
  "memset b c n m a = (if b \<le> a \<and> a < b + n then word_of_int c else m a)"
  by (induction n arbitrary: b m) auto

lemma stored_cong: "(\<And>a. p \<le> a \<Longrightarrow> a < p + length xs \<Longrightarrow> m a = m' a) \<Longrightarrow> stored m p xs = stored m' p xs"
  by (simp add: stored_nth)

lemma strcat_loop_cstr:
  "cstr m q ys \<Longrightarrow> q + length ys < d \<or> d + length ys < q \<Longrightarrow>
   \<exists>m'. strcat_loop d q m = Some (d + length ys + 1, m') \<and> cstr m' d ys \<and>
        (\<forall>a. a < d \<or> d + length ys < a \<longrightarrow> m' a = m a)"
proof (induction ys arbitrary: q d m)
  case Nil
  then show ?case by (subst strcat_loop.simps) simp
next
  case (Cons y ys)
  let ?m = "m(d := y)"
  have q: "q \<noteq> d" using Cons.prems(2) by auto
  have "stored ?m (q + 1) (ys @ [0]) = stored m (q + 1) (ys @ [0])"
    using Cons.prems(2) by (intro stored_cong) auto
  then have "cstr ?m (q + 1) ys" using Cons.prems(1) by (simp add: cstr_def)
  from Cons.IH [OF this, of "d + 1"] Cons.prems(2) obtain m' where
    m': "strcat_loop (d + 1) (q + 1) ?m = Some (d + length ys + 2, m')" "cstr m' (d + 1) ys"
      "\<forall>a. a < d + 1 \<or> d + 1 + length ys < a \<longrightarrow> m' a = ?m a" by fastforce
  have "strcat_loop d q m = Some (d + length (y # ys) + 1, m')"
    using m'(1) Cons.prems(1) q by (subst strcat_loop.simps) (simp add: numeral_2_eq_2)
  moreover have "cstr m' d (y # ys)" using m'(2,3) Cons.prems(1) by simp
  moreover have "\<forall>a. a < d \<or> d + length (y # ys) < a \<longrightarrow> m' a = m a" using m'(3) by auto
  ultimately show ?case by blast
qed

section \<open>Comparison and search\<close>

lemma memcmp_stored:
  "stored m p xs \<Longrightarrow> stored m q ys \<Longrightarrow> length xs = length ys \<Longrightarrow>
   memcmp p q (length xs) m = (if xs = ys then 0 else if xs < ys then -1 else 1)"
proof (induction xs arbitrary: ys p q)
  case (Cons x xs)
  then obtain z zs where "ys = z # zs" by (cases ys) auto
  with Cons show ?case by (auto simp: not_less_iff_gr_or_eq)
qed simp

lemma memcmp_cstr:
  assumes "cstr m p xs" "cstr m q ys"
  shows "(let c = memcmp p q (min (length xs) (length ys)) m in
      if c \<noteq> 0 then c else if length xs > length ys then 1 else if length xs < length ys then -1 else 0)
    = (if xs = ys then 0 else if xs < ys then -1 else 1)"
  using assms
proof (induction xs arbitrary: ys p q)
  case Nil
  then show ?case by (cases ys) auto
next
  case (Cons x xs)
  show ?case
  proof (cases ys)
    case Nil
    then show ?thesis by simp
  next
    case (Cons y zs)
    with Cons.prems Cons.IH [of "p + 1" "q + 1" zs] show ?thesis
      by (auto simp: Let_def not_less_iff_gr_or_eq split: if_splits)
  qed
qed

lemma strrchr_loop_stored:
  "stored m p xs \<Longrightarrow> xs \<noteq> [] \<Longrightarrow> 0 < p \<Longrightarrow>
   strrchr_loop p (p + length xs - 1) v m =
     Some (if v \<in> set xs then p + (length xs - 1 - length (takeWhile (\<lambda>c. c \<noteq> v) (rev xs))) else NULL)"
proof (induction xs rule: rev_induct)
  case (snoc x xs)
  show ?case
  proof (cases xs)
    case Nil
    with snoc.prems show ?thesis by (subst strrchr_loop.simps) auto
  next
    case (Cons y ys)
    with snoc show ?thesis by (subst strrchr_loop.simps) auto
  qed
qed simp

lemma strrchrc_cstr:
  assumes "cstr m p xs" "xs \<noteq> []" "0 < p"
  shows "strrchrc p v m =
     Some (if v \<in> set xs then p + (length xs - 1 - length (takeWhile (\<lambda>c. c \<noteq> v) (rev xs))) else NULL)"
  using assms strrchr_loop_stored [of m p xs v] by (simp add: strrchrc_def strlen_cstr cstr_def)

text \<open>On an empty string the scan starts, and may succeed, before the string.\<close>

lemma strrchrc_empty_underrun:
  assumes "cstr m (p + 1) []" "m p = v"
  shows "strrchrc (p + 1) v m = Some p"
proof -
  have "strlen (p + 1) m = Some 0" using strlen_cstr [OF assms(1)] by simp
  then show ?thesis using assms(2) by (simp add: strrchrc_def) (subst strrchr_loop.simps, simp)
qed

section \<open>Decimal numerals\<close>

function decimal :: "nat \<Rightarrow> u8 list" where
  "decimal n = (if n < 10 then [of_nat (48 + n)] else decimal (n div 10) @ [of_nat (48 + n mod 10)])"
  by auto
termination by (relation "measure id") auto

declare decimal.simps [simp del]

lemma digit_cases: "d < (10 :: nat) \<Longrightarrow> d \<in> {0, 1, 2, 3, 4, 5, 6, 7, 8, 9}"
  by auto

lemma sint_digit: "d < 10 \<Longrightarrow> sint (of_nat (48 + d) :: u8) = int (48 + d)"
  by (drule digit_cases) (elim insertE; simp)

lemma decimal_digits: "c \<in> set (decimal n) \<Longrightarrow> \<exists>d < 10. c = of_nat (48 + d)"
proof (induction n rule: decimal.induct)
  case (1 n)
  show ?case
  proof (cases "n < 10")
    case True
    with 1 show ?thesis by (subst (asm) decimal.simps) auto
  next
    case False
    with "1.prems" have "c \<in> set (decimal (n div 10)) \<or> c = of_nat (48 + n mod 10)"
      by (subst (asm) decimal.simps) auto
    with "1.IH" False show ?thesis by (metis mod_less_divisor zero_less_numeral)
  qed
qed

lemma decimal_nonempty: "decimal n \<noteq> []"
  by (subst decimal.simps) simp

lemma decimal_nonzero: "0 \<notin> set (decimal n)"
proof
  assume "0 \<in> set (decimal n)"
  then obtain d where "d < 10" "(0 :: u8) = of_nat (48 + d)" using decimal_digits by blast
  then show False using sint_digit [of d] by simp
qed

definition digit_step :: "64 word \<Rightarrow> u8 \<Rightarrow> 64 word" where
  "digit_step t c = t * 10 + word_of_int (sint c - 48)"

lemma decimal_value: "foldl digit_step 0 (decimal n) = of_nat n"
proof (induction n rule: decimal.induct)
  case (1 n)
  show ?case
  proof (cases "n < 10")
    case True
    then show ?thesis using sint_digit [of n] by (subst decimal.simps) (simp add: digit_step_def)
  next
    case False
    have "of_nat (n div 10) * 10 + of_nat (n mod 10) = (of_nat n :: 64 word)"
      by (metis div_mult_mod_eq of_nat_add of_nat_mult of_nat_numeral)
    moreover have "digit_step t (of_nat (48 + n mod 10)) = t * 10 + of_nat (n mod 10)" for t
      using sint_digit [of "n mod 10"] by (simp add: digit_step_def)
    ultimately show ?thesis using 1 False by (subst decimal.simps) simp
  qed
qed

lemma strtol_loop_decimal:
  "stored m p (cs @ [0]) \<Longrightarrow> \<forall>c \<in> set cs. \<exists>d < 10. c = of_nat (48 + d) \<Longrightarrow>
   strtol_loop p 10 t m = Some (p + length cs, foldl digit_step t cs)"
proof (induction cs arbitrary: p t)
  case Nil
  then show ?case by (subst strtol_loop.simps) simp
next
  case (Cons c cs)
  then obtain d where d: "d < 10" "c = of_nat (48 + d)" by auto
  have "strtol_loop p 10 t m = strtol_loop (p + 1) 10 (digit_step t c) m"
    using Cons.prems(1) sint_digit [OF d(1)] d
    by (subst strtol_loop.simps) (simp add: Let_def digit_step_def)
  also have "\<dots> = Some (p + length (c # cs), foldl digit_step t (c # cs))"
    using Cons.IH [of "p + 1"] Cons.prems by simp
  finally show ?case .
qed

section \<open>Properties\<close>

text \<open>C20: \<open>memmove\<close> copies the source as it was before the call, however the two regions
  overlap, and changes no byte outside the destination.\<close>

theorem memmove_correct:
  "memmove d s n m a = (if d \<le> a \<and> a < d + n then m (s + (a - d)) else m a)"
  by (simp add: memmove_def move_up_apply move_down_apply)

text \<open>C21: on terminated strings \<open>strcmp\<close> returns, and its sign is that of the lexicographic
  order of the strings as sequences of unsigned bytes.\<close>

theorem strcmp_lexicographic:
  assumes "cstr m p xs" and "cstr m q ys"
  shows "strcmp p q m = Some (if xs = ys then 0 else if xs < ys then -1 else 1)"
proof -
  have "(if a < b then a else b) = min a b" for a b :: nat by simp
  then show ?thesis
    using memcmp_cstr [OF assms] by (simp add: strcmp_def strlen_cstr [OF assms(1)]
        strlen_cstr [OF assms(2)] Let_def)
qed

theorem strcmp_lexicographic_witness:
  "strcmp 10 20 ((\<lambda>_. 0)(10 := 97, 20 := 97, 21 := 98)) = Some (-1)"
  using strcmp_lexicographic [of "(\<lambda>_. 0)(10 := 97, 20 := 97, 21 := 98)" 10 "[97]" 20 "[97, 98]"]
  by (simp add: cstr_def)

text \<open>C23: \<open>strcat\<close> onto a terminated string, when the room it needs does not overlap the
  appended string, returns the address after the new terminator, leaves the concatenation at
  the destination, and writes nothing outside it.\<close>

theorem strcat_correct:
  assumes "cstr m p xs" and "cstr m q ys"
    and "q + length ys < p \<or> p + length xs + length ys < q"
  shows "\<exists>m'. strcat p q m = Some (p + length (xs @ ys) + 1, m') \<and> cstr m' p (xs @ ys) \<and>
    (\<forall>a. a < p \<or> p + length (xs @ ys) < a \<longrightarrow> m' a = m a)"
proof -
  from strcat_loop_cstr [OF assms(2), of "p + length xs"] assms(3) obtain m' where
    m': "strcat_loop (p + length xs) q m = Some (p + length xs + length ys + 1, m')"
      "cstr m' (p + length xs) ys"
      "\<forall>a. a < p + length xs \<or> p + length xs + length ys < a \<longrightarrow> m' a = m a" by auto
  have "stored m' p xs = stored m p xs" using m'(3) by (intro stored_cong) auto
  then show ?thesis using m' assms by (auto simp: strcat_def strlen_cstr cstr_def add.assoc)
qed

theorem strcat_correct_witness:
  "\<exists>m'. strcat 10 20 ((\<lambda>_. 0)(10 := 97, 20 := 98)) = Some (13, m') \<and> cstr m' 10 [97, 98]"
  using strcat_correct [of "(\<lambda>_. 0)(10 := 97, 20 := 98)" 10 "[97]" 20 "[98]"]
  by (auto simp: cstr_def)



text \<open>In base sixteen a letter digit contributes ten less than its value.\<close>

lemma strtol_hex_letter:
  assumes "cstr m p [97]"
  shows "strtol p 16 m = Some (p + 1, 0)"
proof -
  have "strtol_loop (p + 1) 16 0 m = Some (p + 1, 0)"
    using assms by (subst strtol_loop.simps) simp
  moreover have "strtol_loop p 16 0 m = strtol_loop (p + 1) 16 0 m"
    using assms by (subst strtol_loop.simps) (simp add: Let_def)
  ultimately show ?thesis using assms by (simp add: strtol_def Let_def)
qed

end
