(* ===== verification/Bitmap.thy ===== *)
theory Bitmap
  imports KString
begin

text \<open>
  The bitmaps of \<open>include/lib/bitmap.h\<close>, over the byte memory of \<open>KString\<close>: bit \<open>b\<close> of the map
  at \<open>p\<close> is bit \<open>b mod 8\<close> of byte \<open>p + b div 8\<close>. Bit numbers are not negative.
\<close>

definition bitmap_assign :: "ptr \<Rightarrow> nat \<Rightarrow> bool \<Rightarrow> bytes \<Rightarrow> bytes" where
  "bitmap_assign p b v m =
     (let index = b div 8; offset = b mod 8 in
      if v then m(p + index := m (p + index) OR push_bit offset 1)
      else m(p + index := m (p + index) AND NOT (push_bit offset 1)))"

definition bitmap_test :: "ptr \<Rightarrow> nat \<Rightarrow> bytes \<Rightarrow> bool" where
  "bitmap_test p b m =
     (let index = b div 8; offset = b mod 8 in m (p + index) AND push_bit offset 1 \<noteq> 0)"

definition bitmap_set :: "ptr \<Rightarrow> nat \<Rightarrow> bytes \<Rightarrow> bytes" where
  "bitmap_set p b m = bitmap_assign p b True m"

definition bitmap_reset :: "ptr \<Rightarrow> nat \<Rightarrow> bytes \<Rightarrow> bytes" where
  "bitmap_reset p b m = bitmap_assign p b False m"

function ffs_from :: "ptr \<Rightarrow> nat \<Rightarrow> nat \<Rightarrow> bytes \<Rightarrow> int" where
  "ffs_from p numbits i m =
     (if i < numbits then
        (let index = i div 8; offset = i mod 8 in
         if m (p + index) AND push_bit offset 1 \<noteq> 0 then int i else ffs_from p numbits (i + 1) m)
      else -1)"
  by auto
termination by (relation "measure (\<lambda>(p, numbits, i, m). numbits - i)") auto

definition bitmap_ffs :: "ptr \<Rightarrow> nat \<Rightarrow> bytes \<Rightarrow> int" where
  "bitmap_ffs p numbits m = ffs_from p numbits 0 m"

function bitmap_ffr_start :: "ptr \<Rightarrow> nat \<Rightarrow> nat \<Rightarrow> bytes \<Rightarrow> int" where
  "bitmap_ffr_start p numbits i m =
     (if i < numbits then
        (let index = i div 8; offset = i mod 8 in
         if \<not> (m (p + index) AND push_bit offset 1 \<noteq> 0) then int i
         else bitmap_ffr_start p numbits (i + 1) m)
      else -1)"
  by auto
termination by (relation "measure (\<lambda>(p, numbits, i, m). numbits - i)") auto

definition bitmap_ffr :: "ptr \<Rightarrow> nat \<Rightarrow> bytes \<Rightarrow> int" where
  "bitmap_ffr p numbits m = bitmap_ffr_start p numbits 0 m"

declare ffs_from.simps [simp del] bitmap_ffr_start.simps [simp del]

section \<open>Reading what was written\<close>

lemma test_bit: "bitmap_test p b m \<longleftrightarrow> bit (m (p + b div 8)) (b mod 8)"
  by (simp add: bitmap_test_def Let_def bit_iff_and_push_bit_not_eq_0)

lemma bitmap_test_assign [simp]:
  "bitmap_test p b' (bitmap_assign p b v m) = (if b' = b then v else bitmap_test p b' m)"
proof -
  have "b' = b \<longleftrightarrow> b' div 8 = b div 8 \<and> b' mod 8 = b mod 8" by (metis div_mult_mod_eq)
  moreover have "b mod 8 < 8" "b' mod 8 < 8" by simp_all
  ultimately show ?thesis
    by (auto simp: test_bit bitmap_assign_def Let_def bit_simps)
qed

lemma bitmap_test_set [simp]: "bitmap_test p b' (bitmap_set p b m) = (b' = b \<or> bitmap_test p b' m)"
  by (simp add: bitmap_set_def)

lemma bitmap_test_reset [simp]: "bitmap_test p b' (bitmap_reset p b m) = (b' \<noteq> b \<and> bitmap_test p b' m)"
  by (simp add: bitmap_reset_def)

lemma bitmap_assign_other:
  "a \<noteq> p + b div 8 \<Longrightarrow> bitmap_assign p b v m a = m a"
  by (simp add: bitmap_assign_def Let_def)

lemma bitmap_test_cong:
  "m (p + b div 8) = m' (p + b div 8) \<Longrightarrow> bitmap_test p b m = bitmap_test p b m'"
  by (simp add: test_bit)

section \<open>Searching\<close>

lemma ffr_start_result:
  "bitmap_ffr_start p n i m =
     (case find (\<lambda>b. \<not> bitmap_test p b m) [i..<n] of None \<Rightarrow> -1 | Some b \<Rightarrow> int b)"
proof (induction p n i m rule: bitmap_ffr_start.induct)
  case (1 p n i m)
  then show ?case
    by (subst bitmap_ffr_start.simps) (auto simp: upt_conv_Cons bitmap_test_def Let_def)
qed

lemma ffs_from_result:
  "ffs_from p n i m =
     (case find (\<lambda>b. bitmap_test p b m) [i..<n] of None \<Rightarrow> -1 | Some b \<Rightarrow> int b)"
proof (induction p n i m rule: ffs_from.induct)
  case (1 p n i m)
  then show ?case
    by (subst ffs_from.simps) (auto simp: upt_conv_Cons bitmap_test_def Let_def)
qed

lemma find_upt_SomeD:
  "find P [i..<n] = Some b \<Longrightarrow> i \<le> b \<and> b < n \<and> P b \<and> (\<forall>j. i \<le> j \<and> j < b \<longrightarrow> \<not> P j)"
proof (induction "n - i" arbitrary: i)
  case 0
  then show ?case by simp
next
  case (Suc k)
  then have "i < n" by simp
  with Suc.prems have s: "(if P i then Some i else find P [Suc i..<n]) = Some b"
    by (simp add: upt_conv_Cons)
  show ?case
  proof (cases "P i")
    case False
    with s Suc.hyps(1) [of "Suc i"] Suc.hyps(2) have
      "Suc i \<le> b \<and> b < n \<and> P b \<and> (\<forall>j. Suc i \<le> j \<and> j < b \<longrightarrow> \<not> P j)" by simp
    with False show ?thesis by (metis Suc_leD Suc_leI le_neq_implies_less)
  qed (use s \<open>i < n\<close> in auto)
qed

text \<open>C0: \<open>bitmap_ffr_start\<close> returns the least clear bit at or above the start, and -1
  exactly when every bit from the start to the end is set.\<close>

theorem bitmap_ffr_start_least:
  "let r = bitmap_ffr_start p n i m in
     if r = -1 then (\<forall>b. i \<le> b \<and> b < n \<longrightarrow> bitmap_test p b m)
     else \<exists>b. r = int b \<and> i \<le> b \<and> b < n \<and> \<not> bitmap_test p b m \<and>
              (\<forall>j. i \<le> j \<and> j < b \<longrightarrow> bitmap_test p j m)"
proof (cases "find (\<lambda>b. \<not> bitmap_test p b m) [i..<n]")
  case None
  then show ?thesis by (simp add: ffr_start_result) (auto simp: find_None_iff)
next
  case (Some b)
  from find_upt_SomeD [OF this] Some show ?thesis by (auto simp: ffr_start_result)
qed

theorem bitmap_ffr_start_least_witness:
  "bitmap_ffr_start 5 16 7 ((\<lambda>_. 0)(5 := 0xF8)) = 8 \<and> bitmap_test 5 7 ((\<lambda>_. 0)(5 := 0xF8))"
proof -
  have "bitmap_ffr_start 5 16 7 ((\<lambda>_. 0)(5 := 0xF8)) = int 8"
    by (subst bitmap_ffr_start.simps, simp)+
  with bitmap_ffr_start_least [of 5 16 7 "(\<lambda>_. 0)(5 := 0xF8)"] show ?thesis by (auto simp: Let_def)
qed

text \<open>C24: allocating a bit: setting the bit that \<open>bitmap_ffr\<close> returned makes exactly that
  bit, which was clear, set; resetting it afterwards restores every bit of the map.\<close>

theorem bitmap_alloc_free:
  assumes "bitmap_ffr p n m = int b"
  shows "\<not> bitmap_test p b m \<and> b < n \<and>
    (\<forall>j. bitmap_test p j (bitmap_set p b m) = (j = b \<or> bitmap_test p j m)) \<and>
    (\<forall>j. bitmap_test p j (bitmap_reset p b (bitmap_set p b m)) = bitmap_test p j m)"
proof -
  from assms obtain c where "find (\<lambda>b. \<not> bitmap_test p b m) [0..<n] = Some c" "c = b"
    by (auto simp: bitmap_ffr_def ffr_start_result split: option.splits)
  with find_upt_SomeD [of _ 0 n c] have "\<not> bitmap_test p b m" "b < n" by auto
  then show ?thesis by auto
qed

theorem bitmap_alloc_free_witness:
  "\<not> bitmap_test 5 2 ((\<lambda>_. 0)(5 := 3)) \<and>
   bitmap_test 5 2 (bitmap_set 5 2 ((\<lambda>_. 0)(5 := 3)))"
proof -
  have "bitmap_ffr 5 8 ((\<lambda>_. 0)(5 := 3)) = int 2"
    by (simp add: bitmap_ffr_def) (subst bitmap_ffr_start.simps, simp)+
  from bitmap_alloc_free [OF this] show ?thesis by simp
qed

end
