(* ===== verification/Hash.thy ===== *)
theory Hash
  imports LinkedList KString "HOL-Library.Multiset"
begin

text \<open>
  The chained hash table of \<open>include/lib/hash.h\<close> and \<open>lib/ds/hash.c\<close>. A bucket is the list
  that its linked list represents (see \<open>LinkedList\<close>), holding the addresses of the elements.
  A key is the byte string its pointer and length denote; as the table stores only the
  pointer, callers leave the bytes of a stored key alone. The locale \<open>dictionary\<close> is the
  contract of a finite map that the clients of the table rely on.
\<close>

section \<open>Structures\<close>

type_synonym key = "u8 list"

record hashelem =
  he_ptr :: ptr
  he_key :: key

text \<open>\<open>h_elems\<close> is the memory of all elements, in the table or not.\<close>

record hash =
  h_elems :: "ptr \<Rightarrow> hashelem"
  h_table :: "ptr list list"
  h_length :: nat
  h_count :: nat
  h_flags :: u32
  h_lock :: bool

record hashiter =
  hi_bucket :: nat
  hi_entry :: ptr
  hi_next :: ptr

definition HASH_LOCKLESS :: u32 where "HASH_LOCKLESS = 1"

definition PAGE_SIZE :: nat where "PAGE_SIZE = 0x1000"

text \<open>The size of \<open>struct linkedlist\<close> on a 64-bit machine.\<close>

definition sizeof_linkedlist :: nat where "sizeof_linkedlist = 64"

section \<open>Operations\<close>

definition hash_lock :: "hash \<Rightarrow> hash option" where
  "hash_lock h =
     (if h_flags h AND HASH_LOCKLESS = 0
      then (if h_lock h then None else Some (h\<lparr>h_lock := True\<rparr>)) else Some h)"

definition hash_unlock :: "hash \<Rightarrow> hash" where
  "hash_unlock h = (if h_flags h AND HASH_LOCKLESS = 0 then h\<lparr>h_lock := False\<rparr> else h)"

text \<open>\<open>hash_create\<close> does not write \<open>count\<close>.\<close>

definition hash_create :: "u32 \<Rightarrow> nat \<Rightarrow> hash \<Rightarrow> hash" where
  "hash_create flags len h =
     (let h = h\<lparr>h_lock := False, h_flags := flags\<rparr>;
          len = (if len * sizeof_linkedlist < PAGE_SIZE then PAGE_SIZE div sizeof_linkedlist else len);
          h = h\<lparr>h_table := replicate len []\<rparr>
      in h\<lparr>h_length := len\<rparr>)"

definition hashfn :: "key \<Rightarrow> nat \<Rightarrow> nat" where
  "hashfn key table_len =
     unat (foldl (\<lambda>hash e. (push_bit 5 hash + hash) + ucast e) (5381 :: u64) key) mod table_len"

text \<open>Keys of equal length are compared with \<open>memcmp\<close>, which is equality of the bytes, see
  \<open>same_keys_memcmp\<close>.\<close>

definition same_keys :: "key \<Rightarrow> key \<Rightarrow> bool" where
  "same_keys key1 key2 =
     (if length key1 \<noteq> length key2 then False else key1 = key2)"

definition ll_check_exist :: "(ptr \<Rightarrow> hashelem) \<Rightarrow> key \<Rightarrow> ptr \<Rightarrow> bool" where
  "ll_check_exist elems key ent = same_keys key (he_key (elems ent))"

definition set_bucket :: "nat \<Rightarrow> ptr list \<Rightarrow> hash \<Rightarrow> hash" where
  "set_bucket i b h = h\<lparr>h_table := (h_table h)[i := b]\<rparr>"

definition hash_insert :: "key \<Rightarrow> ptr \<Rightarrow> ptr \<Rightarrow> hash \<Rightarrow> (int \<times> hash) option" where
  "hash_insert key elem data h = do {
     h \<leftarrow> hash_lock h;
     let index = hashfn key (h_length h);
     let h = h\<lparr>h_elems := (h_elems h)(elem := \<lparr>he_ptr = data, he_key = key\<rparr>)\<rparr>;
     (case find (ll_check_exist (h_elems h) key) (h_table h ! index) of
       Some ent \<Rightarrow> Some (-1, hash_unlock h)
     | None \<Rightarrow>
         let h = set_bucket index (elem # h_table h ! index) h;
             h = h\<lparr>h_count := h_count h + 1\<rparr>
         in Some (0, hash_unlock h)) }"

definition hash_delete :: "key \<Rightarrow> hash \<Rightarrow> (int \<times> hash) option" where
  "hash_delete key h = do {
     h \<leftarrow> hash_lock h;
     let index = hashfn key (h_length h);
     (case find (ll_check_exist (h_elems h) key) (h_table h ! index) of
       Some ent \<Rightarrow> do {
         b \<leftarrow> ls_remove ent (h_table h ! index);
         let h = set_bucket index b h;
         let h = h\<lparr>h_count := h_count h - 1\<rparr>;
         Some (0, hash_unlock h) }
     | None \<Rightarrow> Some (-1, hash_unlock h)) }"

definition hash_lookup :: "key \<Rightarrow> hash \<Rightarrow> (ptr \<times> hash) option" where
  "hash_lookup key h = do {
     h \<leftarrow> hash_lock h;
     let index = hashfn key (h_length h);
     (case find (ll_check_exist (h_elems h) key) (h_table h ! index) of
       Some ent \<Rightarrow> Some (he_ptr (h_elems h ent), hash_unlock h)
     | None \<Rightarrow> Some (NULL, hash_unlock h)) }"

text \<open>Iteration. The skip loop reads the count of the bucket one past the end of the table
  when it leaves the last bucket; \<open>g\<close> is the value found there. The end of a bucket's list,
  its sentry in the code, is NULL.\<close>

definition bucket_count :: "nat \<Rightarrow> hash \<Rightarrow> nat \<Rightarrow> nat" where
  "bucket_count g h b = (if b < length (h_table h) then length (h_table h ! b) else g)"

function skip_empty :: "nat \<Rightarrow> hash \<Rightarrow> nat \<Rightarrow> nat" where
  "skip_empty g h b =
     (if bucket_count g h b = 0
      then (if b + 1 < h_length h then skip_empty g h (b + 1) else b + 1) else b)"
  by auto
termination by (relation "measure (\<lambda>(g, h, b). h_length h - b)") auto

declare skip_empty.simps [simp del]

definition iter_take :: "hash \<Rightarrow> nat \<Rightarrow> hashiter \<Rightarrow> hashiter" where
  "iter_take h b it =
     (let entry = hi_next it
      in it\<lparr>hi_entry := entry, hi_next := ls_next NULL (h_table h ! b) entry\<rparr>)"

definition hash_iter_init :: "nat \<Rightarrow> hash \<Rightarrow> hashiter \<Rightarrow> hashiter" where
  "hash_iter_init g h it =
     (let b = skip_empty g h 0; it = it\<lparr>hi_bucket := b\<rparr>
      in if b \<ge> h_length h then it
         else iter_take h b (it\<lparr>hi_next := hd (h_table h ! b @ [NULL])\<rparr>))"

definition hash_iter_next :: "nat \<Rightarrow> hash \<Rightarrow> hashiter \<Rightarrow> hashiter" where
  "hash_iter_next g h it =
     (if hi_next it = NULL then
        (let b = skip_empty g h (hi_bucket it + 1); it = it\<lparr>hi_bucket := b\<rparr>
         in if b \<ge> h_length h then it
            else iter_take h b (it\<lparr>hi_next := hd (h_table h ! b @ [NULL])\<rparr>))
      else iter_take h (hi_bucket it) it)"

definition hash_iter_done :: "hash \<Rightarrow> hashiter \<Rightarrow> bool" where
  "hash_iter_done h it \<longleftrightarrow> hi_bucket it \<ge> h_length h"

definition hash_iter_get :: "hash \<Rightarrow> hashiter \<Rightarrow> ptr" where
  "hash_iter_get h it = he_ptr (h_elems h (hi_entry it))"

text \<open>The loop its callers write: the objects visited, with a bound on the rounds.\<close>

fun iterate :: "nat \<Rightarrow> nat \<Rightarrow> hash \<Rightarrow> hashiter \<Rightarrow> ptr list option" where
  "iterate 0 g h it = None"
| "iterate (Suc fuel) g h it =
     (if hash_iter_done h it then Some []
      else do { xs \<leftarrow> iterate fuel g h (hash_iter_next g h it); Some (hash_iter_get h it # xs) })"

section \<open>Invariant and abstraction\<close>

lemma same_keys_memcmp:
  assumes "stored m p k1" "stored m q k2"
  shows "same_keys k1 k2 \<longleftrightarrow> (if length k1 \<noteq> length k2 then False else memcmp p q (length k1) m = 0)"
  using memcmp_stored [OF assms] by (auto simp: same_keys_def)

lemma ll_check_exist_iff [simp]: "ll_check_exist elems k e \<longleftrightarrow> he_key (elems e) = k"
  by (auto simp: ll_check_exist_def same_keys_def)

definition h_all :: "hash \<Rightarrow> ptr list" where
  "h_all h = concat (h_table h)"

definition h_inv :: "hash \<Rightarrow> bool" where
  "h_inv h \<longleftrightarrow> 0 < h_length h \<and> length (h_table h) = h_length h \<and>
     distinct (h_all h) \<and> NULL \<notin> set (h_all h) \<and> h_count h = length (h_all h) \<and>
     (\<forall>i < h_length h. \<forall>e \<in> set (h_table h ! i). hashfn (he_key (h_elems h e)) (h_length h) = i) \<and>
     inj_on (\<lambda>e. he_key (h_elems h e)) (set (h_all h)) \<and>
     (h_flags h AND HASH_LOCKLESS = 0 \<longrightarrow> \<not> h_lock h)"

text \<open>The finite map of a table: the element and the object stored under a key.\<close>

definition h_map :: "hash \<Rightarrow> key \<rightharpoonup> ptr \<times> ptr" where
  "h_map h = map_of (map (\<lambda>e. (he_key (h_elems h e), e, he_ptr (h_elems h e))) (h_all h))"

lemma h_map_Some:
  assumes "h_inv h"
  shows "h_map h k = Some (e, v) \<longleftrightarrow>
    e \<in> set (h_all h) \<and> he_key (h_elems h e) = k \<and> he_ptr (h_elems h e) = v"
proof -
  have "distinct (map fst (map (\<lambda>e. (he_key (h_elems h e), e, he_ptr (h_elems h e))) (h_all h)))"
    using assms by (simp add: h_inv_def o_def distinct_map)
  then show ?thesis by (auto simp: h_map_def image_iff)
qed

lemma h_map_None: "h_map h k = None \<longleftrightarrow> (\<forall>e \<in> set (h_all h). he_key (h_elems h e) \<noteq> k)"
  by (auto simp: h_map_def map_of_eq_None_iff image_iff)

lemma hashfn_less: "0 < n \<Longrightarrow> hashfn k n < n"
  by (simp add: hashfn_def)

lemma h_all_index:
  assumes "h_inv h" "e \<in> set (h_all h)" "he_key (h_elems h e) = k"
  shows "e \<in> set (h_table h ! hashfn k (h_length h))"
proof -
  obtain i where i: "i < length (h_table h)" "e \<in> set (h_table h ! i)"
    using assms(2) by (auto simp: h_all_def) (metis in_set_conv_nth)
  then have "hashfn k (h_length h) = i" using assms by (auto simp: h_inv_def)
  with i show ?thesis by simp
qed

lemma bucket_subset: "i < length (h_table h) \<Longrightarrow> set (h_table h ! i) \<subseteq> set (h_all h)"
  using nth_mem by (fastforce simp: h_all_def)

lemma find_bucket:
  assumes "h_inv h"
  shows "find (ll_check_exist (h_elems h) k) (h_table h ! hashfn k (h_length h)) =
    map_option fst (h_map h k)"
proof (cases "h_map h k")
  case None
  have "hashfn k (h_length h) < length (h_table h)" using assms hashfn_less by (simp add: h_inv_def)
  with None have "\<forall>e \<in> set (h_table h ! hashfn k (h_length h)). he_key (h_elems h e) \<noteq> k"
    using bucket_subset h_map_None by blast
  with None show ?thesis by (auto simp: find_None_iff)
next
  case (Some ev)
  obtain e v where ev: "ev = (e, v)" by (cases ev)
  have e: "e \<in> set (h_all h)" "he_key (h_elems h e) = k" using h_map_Some [OF assms] Some ev by auto
  let ?b = "h_table h ! hashfn k (h_length h)"
  have eb: "e \<in> set ?b" using h_all_index [OF assms e] .
  then obtain d where d: "find (ll_check_exist (h_elems h) k) ?b = Some d"
    using e by (cases "find (ll_check_exist (h_elems h) k) ?b") (auto simp: find_None_iff)
  then have "d \<in> set ?b" "he_key (h_elems h d) = k" by (auto simp: find_Some_iff)
  moreover have "set ?b \<subseteq> set (h_all h)"
    using assms hashfn_less by (intro bucket_subset) (simp add: h_inv_def)
  ultimately have "d = e" using assms e eb by (auto simp: h_inv_def dest: inj_onD)
  with d Some ev show ?thesis by simp
qed

lemma hash_lock_ok:
  assumes "h_inv h"
  shows "\<exists>l. hash_lock h = Some (h\<lparr>h_lock := l\<rparr>) \<and>
    (\<forall>h'. h_flags h' = h_flags h \<and> h_lock h' = l \<longrightarrow> hash_unlock h' = h'\<lparr>h_lock := h_lock h\<rparr>)"
  using assms by (auto simp: h_inv_def hash_lock_def hash_unlock_def intro: exI [of _ True] exI [of _ "h_lock h"])

section \<open>Refinement of finite maps\<close>

lemma mset_concat_insert:
  "i < length t \<Longrightarrow> mset (concat (t[i := e # t ! i])) = mset (e # concat t)"
  by (induction t arbitrary: i) (auto split: nat.splits)

lemma mset_concat_remove:
  "i < length t \<Longrightarrow> e \<in> set (t ! i) \<Longrightarrow>
   add_mset e (mset (concat (t[i := remove1 e (t ! i)]))) = mset (concat t)"
  by (induction t arbitrary: i) (auto split: nat.splits)

lemma hash_lookup_rep:
  assumes "h_inv h"
  shows "hash_lookup k h = Some (case h_map h k of None \<Rightarrow> NULL | Some (e, v) \<Rightarrow> v, h)"
proof -
  obtain l where l: "hash_lock h = Some (h\<lparr>h_lock := l\<rparr>)"
    "\<forall>h'. h_flags h' = h_flags h \<and> h_lock h' = l \<longrightarrow> hash_unlock h' = h'\<lparr>h_lock := h_lock h\<rparr>"
    using hash_lock_ok [OF assms] by blast
  then have "hash_unlock (h\<lparr>h_lock := l\<rparr>) = h" by simp
  moreover have "he_ptr (h_elems h e) = v" if "h_map h k = Some (e, v)" for e v
    using h_map_Some [OF assms, of k e v] that by simp
  ultimately show ?thesis
    using find_bucket [OF assms, of k] l(1)
    by (cases "h_map h k") (auto simp: hash_lookup_def Let_def)
qed

lemma map_pair_eqI: "(\<And>k a b. f k = Some (a, b) \<longleftrightarrow> g k = Some (a, b)) \<Longrightarrow> f = g"
  by (rule ext) (metis not_Some_eq surj_pair)

lemma upd_foreign:
  assumes "h_inv h" "e \<notin> set (h_all h)"
  shows "h_inv (h\<lparr>h_elems := (h_elems h)(e := x)\<rparr>)"
    "h_map (h\<lparr>h_elems := (h_elems h)(e := x)\<rparr>) = h_map h"
proof -
  have "\<forall>i < h_length h. e \<notin> set (h_table h ! i)"
    using assms bucket_subset [of _ h] by (auto simp: h_inv_def)
  with assms show "h_inv (h\<lparr>h_elems := (h_elems h)(e := x)\<rparr>)"
    by (auto simp: h_inv_def h_all_def inj_on_def)
  show "h_map (h\<lparr>h_elems := (h_elems h)(e := x)\<rparr>) = h_map h"
    using assms(2) by (auto simp: h_map_def h_all_def intro: arg_cong [of _ _ map_of])
qed

lemma h_inv_lock [simp]:
  "h_map (h\<lparr>h_lock := l\<rparr>) = h_map h" "h_all (h\<lparr>h_lock := l\<rparr>) = h_all h"
  "h_map (h\<lparr>h_count := n\<rparr>) = h_map h" "h_all (h\<lparr>h_count := n\<rparr>) = h_all h"
  by (simp_all add: h_map_def h_all_def)

text \<open>The state after linking a new element with a new key into its bucket, and after
  unlinking a stored element.\<close>

lemma link_inv:
  assumes "h_inv h" "e \<notin> set (h_all h)" "e \<noteq> NULL" "he_key (h_elems h e) = k" "h_map h k = None"
  defines "h' \<equiv> (set_bucket (hashfn k (h_length h)) (e # h_table h ! hashfn k (h_length h)) h)
      \<lparr>h_count := h_count h + 1\<rparr>"
  shows "h_inv h'" "set (h_all h') = insert e (set (h_all h))" "h_elems h' = h_elems h"
proof -
  let ?i = "hashfn k (h_length h)"
  have i: "?i < length (h_table h)" using assms(1) hashfn_less by (simp add: h_inv_def)
  have ms: "mset (h_all h') = mset (e # h_all h)"
    using mset_concat_insert [OF i, of e] by (simp add: h'_def h_all_def set_bucket_def)
  show st: "set (h_all h') = insert e (set (h_all h))" using mset_eq_setD [OF ms] by simp
  show el: "h_elems h' = h_elems h" by (simp add: h'_def set_bucket_def)
  have "distinct (h_all h')" using mset_eq_imp_distinct_iff [OF ms] assms(1,2) by (simp add: h_inv_def)
  moreover have "length (h_all h') = length (h_all h) + 1" using mset_eq_length [OF ms] by simp
  moreover have "inj_on (\<lambda>e. he_key (h_elems h e)) (set (h_all h'))"
    using assms(1-5) by (auto simp: h_inv_def st h_map_None)
  moreover have "hashfn (he_key (h_elems h d)) (h_length h) = j"
    if "j < h_length h" "d \<in> set (h_table h' ! j)" for j d
    using that assms(1-5) i by (cases "j = ?i") (auto simp: h_inv_def h'_def set_bucket_def)
  ultimately show "h_inv h'"
    using assms(1,3) st el unfolding h_inv_def by (auto simp: h'_def set_bucket_def)
qed

lemma unlink_inv:
  assumes "h_inv h" "h_map h k = Some (e, v)"
  defines "h' \<equiv> (set_bucket (hashfn k (h_length h)) (remove1 e (h_table h ! hashfn k (h_length h))) h)
      \<lparr>h_count := h_count h - 1\<rparr>"
  shows "h_inv h'" "set (h_all h') = set (h_all h) - {e}" "h_elems h' = h_elems h"
proof -
  let ?i = "hashfn k (h_length h)"
  have i: "?i < length (h_table h)" using assms(1) hashfn_less by (simp add: h_inv_def)
  have e: "e \<in> set (h_all h)" "he_key (h_elems h e) = k"
    using h_map_Some [OF assms(1)] assms(2) by auto
  have ms: "add_mset e (mset (h_all h')) = mset (h_all h)"
    using mset_concat_remove [OF i h_all_index [OF assms(1) e]]
    by (simp add: h'_def h_all_def set_bucket_def)
  then have ms': "mset (e # h_all h') = mset (h_all h)" by simp
  have d: "distinct (e # h_all h')" using mset_eq_imp_distinct_iff [OF ms'] assms(1) by (simp add: h_inv_def)
  show st: "set (h_all h') = set (h_all h) - {e}" using mset_eq_setD [OF ms'] d by auto
  show el: "h_elems h' = h_elems h" by (simp add: h'_def set_bucket_def)
  have "Suc (length (h_all h')) = length (h_all h)" using mset_eq_length [OF ms'] by simp
  moreover have "inj_on (\<lambda>e. he_key (h_elems h e)) (set (h_all h'))"
    using assms(1) by (auto simp: h_inv_def st intro: inj_on_subset)
  moreover have "hashfn (he_key (h_elems h d)) (h_length h) = j"
    if "j < h_length h" "d \<in> set (h_table h' ! j)" for j d
    using that assms(1) i by (cases "j = ?i") (auto simp: h_inv_def h'_def set_bucket_def dest: notin_set_remove1)
  ultimately show "h_inv h'"
    using assms(1) st el d unfolding h_inv_def by (auto simp: h'_def set_bucket_def)
qed



lemma hash_insert_rep:
  assumes "h_inv h" "e \<notin> set (h_all h)" "e \<noteq> NULL"
  shows "\<exists>h'. hash_insert k e v h = Some (if h_map h k = None then 0 else -1, h') \<and> h_inv h' \<and>
    h_map h' = (if h_map h k = None then (h_map h)(k \<mapsto> (e, v)) else h_map h)"
proof -
  obtain l where l: "hash_lock h = Some (h\<lparr>h_lock := l\<rparr>)"
    "\<forall>h'. h_flags h' = h_flags h \<and> h_lock h' = l \<longrightarrow> hash_unlock h' = h'\<lparr>h_lock := h_lock h\<rparr>"
    using hash_lock_ok [OF assms(1)] by blast
  define h1 where "h1 = h\<lparr>h_elems := (h_elems h)(e := \<lparr>he_ptr = v, he_key = k\<rparr>)\<rparr>"
  have h1: "h_inv h1" "h_map h1 = h_map h" "h_all h1 = h_all h" "h_length h1 = h_length h"
    "h_table h1 = h_table h" "h_elems h1 = (h_elems h)(e := \<lparr>he_ptr = v, he_key = k\<rparr>)"
    using upd_foreign [OF assms(1,2)] by (simp_all add: h1_def h_all_def)
  have f: "find (ll_check_exist ((h_elems h)(e := \<lparr>he_ptr = v, he_key = k\<rparr>)) k)
      (h_table h ! hashfn k (h_length h)) = map_option fst (h_map h k)"
    using find_bucket [OF h1(1), of k] by (simp add: h1)
  show ?thesis
  proof (cases "h_map h k")
    case (Some ev)
    then have "hash_insert k e v h = Some (-1, h1)"
      using f l by (simp add: hash_insert_def Let_def h1_def)
    with Some h1 show ?thesis by simp
  next
    case None
    let ?i = "hashfn k (h_length h)"
    define h2 where "h2 = (set_bucket ?i (e # h_table h1 ! ?i) h1)\<lparr>h_count := h_count h1 + 1\<rparr>"
    have h2: "h_inv h2" "set (h_all h2) = insert e (set (h_all h))" "h_elems h2 = h_elems h1"
      using link_inv [OF h1(1), of e k] assms None h1 by (simp_all add: h2_def)
    have "hash_insert k e v h = Some (0, h2)"
      using f l None by (simp add: hash_insert_def Let_def h1_def h2_def set_bucket_def)
    moreover have "h_map h2 = (h_map h)(k \<mapsto> (e, v))"
    proof (rule map_pair_eqI)
      fix k' a b
      have "h_map h1 k' = Some (a, b) \<Longrightarrow> k' \<noteq> k" using None h1(2) by auto
      then show "h_map h2 k' = Some (a, b) \<longleftrightarrow> ((h_map h)(k \<mapsto> (e, v))) k' = Some (a, b)"
        using h_map_Some [OF h2(1), of k' a b] h_map_Some [OF h1(1), of k' a b] h1 h2(2,3) assms(2)
          None h_map_None [of h1 k] by auto
    qed
    ultimately show ?thesis using None h2(1) by simp
  qed
qed

lemma hash_delete_rep:
  assumes "h_inv h"
  shows "\<exists>h'. hash_delete k h = Some (if h_map h k = None then -1 else 0, h') \<and> h_inv h' \<and>
    h_map h' = (h_map h)(k := None)"
proof -
  obtain l where l: "hash_lock h = Some (h\<lparr>h_lock := l\<rparr>)"
    "\<forall>h'. h_flags h' = h_flags h \<and> h_lock h' = l \<longrightarrow> hash_unlock h' = h'\<lparr>h_lock := h_lock h\<rparr>"
    using hash_lock_ok [OF assms] by blast
  note f = find_bucket [OF assms, of k]
  show ?thesis
  proof (cases "h_map h k")
    case None
    then have "hash_delete k h = Some (-1, h)"
      using f l by (simp add: hash_delete_def Let_def)
    with None assms show ?thesis by (auto simp: fun_upd_idem)
  next
    case (Some ev)
    obtain e v where ev: "h_map h k = Some (e, v)" using Some by (cases ev) auto
    let ?i = "hashfn k (h_length h)"
    define h2 where "h2 = (set_bucket ?i (remove1 e (h_table h ! ?i)) h)\<lparr>h_count := h_count h - 1\<rparr>"
    have h2: "h_inv h2" "set (h_all h2) = set (h_all h) - {e}" "h_elems h2 = h_elems h"
      using unlink_inv [OF assms ev] by (simp_all add: h2_def)
    have e: "e \<in> set (h_all h)" "he_key (h_elems h e) = k" using h_map_Some [OF assms] ev by auto
    then have "hash_delete k h = Some (0, h2)"
      using f l ev h_all_index [OF assms e] by (simp add: hash_delete_def Let_def h2_def set_bucket_def)
    moreover have "h_map h2 = (h_map h)(k := None)"
    proof (rule map_pair_eqI)
      fix k' a b
      have "h_map h2 k' = Some (a, b) \<longleftrightarrow> a \<noteq> e \<and> h_map h k' = Some (a, b)"
        unfolding h_map_Some [OF h2(1)] h_map_Some [OF assms] h2(2,3) by blast
      moreover have "a = e \<longleftrightarrow> k' = k" if "h_map h k' = Some (a, b)"
      proof -
        have "he_key (h_elems h a) = k'" using that h_map_Some [OF assms] by blast
        then have "a = e \<Longrightarrow> k' = k" using e(2) by blast
        moreover have "k' = k \<Longrightarrow> a = e" using that ev by simp
        ultimately show ?thesis by blast
      qed
      ultimately show "h_map h2 k' = Some (a, b) \<longleftrightarrow> ((h_map h)(k := None)) k' = Some (a, b)"
        by auto
    qed
    ultimately show ?thesis using Some h2(1) by simp
  qed
qed

lemma hash_create_inv:
  assumes "h_count h = 0"
  shows "h_inv (hash_create flags len h)" "h_map (hash_create flags len h) = Map.empty"
  using assms by (auto simp: hash_create_def h_inv_def h_map_def h_all_def Let_def PAGE_SIZE_def
      sizeof_linkedlist_def concat_replicate_trivial)

section \<open>The contract of a dictionary\<close>

datatype dict_op = Ins key ptr ptr | Del key | Get key

text \<open>What each operation returns and does to the map of keys to elements and objects, and
  the callers' obligation: an inserted element is not in the table.\<close>

type_synonym dict = "key \<rightharpoonup> ptr \<times> ptr"

fun dict_spec :: "dict_op \<Rightarrow> dict \<Rightarrow> (int + ptr) \<times> dict" where
  "dict_spec (Ins k e v) d = (if d k = None then (Inl 0, d(k \<mapsto> (e, v))) else (Inl (-1), d))"
| "dict_spec (Del k) d = (Inl (if d k = None then -1 else 0), d(k := None))"
| "dict_spec (Get k) d = (Inr (case d k of None \<Rightarrow> NULL | Some (e, v) \<Rightarrow> v), d)"

fun dict_ok :: "dict_op \<Rightarrow> dict \<Rightarrow> bool" where
  "dict_ok (Ins k e v) d \<longleftrightarrow> e \<noteq> NULL \<and> (\<forall>k' v'. d k' \<noteq> Some (e, v'))"
| "dict_ok (Del k) d \<longleftrightarrow> True"
| "dict_ok (Get k) d \<longleftrightarrow> True"

fun spec_run :: "dict_op list \<Rightarrow> dict \<Rightarrow> (int + ptr) list" where
  "spec_run [] d = []"
| "spec_run (p # ps) d = fst (dict_spec p d) # spec_run ps (snd (dict_spec p d))"

fun ok_run :: "dict_op list \<Rightarrow> dict \<Rightarrow> bool" where
  "ok_run [] d \<longleftrightarrow> True"
| "ok_run (p # ps) d \<longleftrightarrow> dict_ok p d \<and> ok_run ps (snd (dict_spec p d))"

fun op_run :: "(dict_op \<Rightarrow> 's \<Rightarrow> ((int + ptr) \<times> 's) option) \<Rightarrow> dict_op list \<Rightarrow> 's \<Rightarrow> (int + ptr) list option" where
  "op_run step [] s = Some []"
| "op_run step (p # ps) s = do { (r, s') \<leftarrow> step p s; rs \<leftarrow> op_run step ps s'; Some (r # rs) }"

locale dictionary =
  fixes inv :: "'s \<Rightarrow> bool"
    and abs :: "'s \<Rightarrow> dict"
    and step :: "dict_op \<Rightarrow> 's \<Rightarrow> ((int + ptr) \<times> 's) option"
  assumes step: "inv s \<Longrightarrow> dict_ok p (abs s) \<Longrightarrow>
    \<exists>s'. step p s = Some (fst (dict_spec p (abs s)), s') \<and> inv s' \<and> abs s' = snd (dict_spec p (abs s))"
begin

lemma run: "inv s \<Longrightarrow> ok_run ps (abs s) \<Longrightarrow> op_run step ps s = Some (spec_run ps (abs s))"
proof (induction ps arbitrary: s)
  case (Cons p ps)
  then obtain s' where "step p s = Some (fst (dict_spec p (abs s)), s')" "inv s'"
    "abs s' = snd (dict_spec p (abs s))" using step by fastforce
  with Cons show ?case by simp
qed simp

lemma get_after_insert:
  assumes "inv s" "dict_ok (Ins k e v) (abs s)" "abs s k = None"
  shows "op_run step [Ins k e v, Get k] s = Some [Inl 0, Inr v]"
  using run [OF assms(1), of "[Ins k e v, Get k]"] assms by simp

end

definition hash_step :: "dict_op \<Rightarrow> hash \<Rightarrow> ((int + ptr) \<times> hash) option" where
  "hash_step p h = (case p of
     Ins k e v \<Rightarrow> do { (r, h) \<leftarrow> hash_insert k e v h; Some (Inl r, h) }
   | Del k \<Rightarrow> do { (r, h) \<leftarrow> hash_delete k h; Some (Inl r, h) }
   | Get k \<Rightarrow> do { (r, h) \<leftarrow> hash_lookup k h; Some (Inr r, h) })"

interpretation ht: dictionary h_inv h_map hash_step
proof
  fix h p assume inv: "h_inv h" and ok: "dict_ok p (h_map h)"
  show "\<exists>h'. hash_step p h = Some (fst (dict_spec p (h_map h)), h') \<and> h_inv h' \<and>
      h_map h' = snd (dict_spec p (h_map h))"
  proof (cases p)
    case (Ins k e v)
    have "e \<notin> set (h_all h)" using ok Ins h_map_Some [OF inv] by auto
    then show ?thesis using hash_insert_rep [OF inv, of e k v] ok Ins
      by (fastforce simp: hash_step_def)
  next
    case (Del k)
    then show ?thesis using hash_delete_rep [OF inv, of k] by (fastforce simp: hash_step_def)
  next
    case (Get k)
    then show ?thesis using hash_lookup_rep [OF inv, of k] inv by (fastforce simp: hash_step_def)
  qed
qed

section \<open>Iteration\<close>

lemma skip_empty_props:
  "length (h_table h) = h_length h \<Longrightarrow>
   concat (drop (skip_empty g h b) (h_table h)) = concat (drop b (h_table h)) \<and>
   (skip_empty g h b < h_length h \<longrightarrow> h_table h ! skip_empty g h b \<noteq> [])"
proof (induction g h b rule: skip_empty.induct)
  case (1 g h b)
  show ?case
  proof (cases "b < h_length h \<and> h_table h ! b = []")
    case True
    then have e: "bucket_count g h b = 0" using 1 by (simp add: bucket_count_def)
    have d: "concat (drop b (h_table h)) = concat (drop (b + 1) (h_table h))"
      using True 1 by (simp add: Cons_nth_drop_Suc [symmetric])
    show ?thesis
    proof (cases "b + 1 < h_length h")
      case True
      then show ?thesis using 1 e d by (simp add: skip_empty.simps [of g h b])
    next
      case False
      then show ?thesis using 1 e d by (simp add: skip_empty.simps [of g h b])
    qed
  next
    case False
    then show ?thesis using 1
      by (cases "b < h_length h") (simp_all add: skip_empty.simps [of g h b] bucket_count_def)
  qed
qed

text \<open>What is left to visit, from an iterator that stands at element \<open>x\<close> of its bucket.\<close>

lemma iterate_rest:
  assumes "h_inv h"
  shows "hi_bucket it < h_length h \<Longrightarrow> h_table h ! hi_bucket it = as @ x # bs \<Longrightarrow>
    hi_entry it = x \<Longrightarrow> hi_next it = hd (bs @ [NULL]) \<Longrightarrow>
    length (x # bs @ concat (drop (hi_bucket it + 1) (h_table h))) < fuel \<Longrightarrow>
    iterate fuel g h it = Some (map (\<lambda>e. he_ptr (h_elems h e))
      (x # bs @ concat (drop (hi_bucket it + 1) (h_table h))))"
proof (induction fuel arbitrary: it as x bs)
  case (Suc fuel)
  let ?t = "h_table h" and ?b = "hi_bucket it"
  have len: "length ?t = h_length h" using assms by (simp add: h_inv_def)
  have sub: "set (?t ! ?b) \<subseteq> set (h_all h)" using bucket_subset Suc.prems(1) len by metis
  have dist: "distinct (?t ! ?b)"
    using assms Suc.prems(1) len by (auto simp: h_inv_def h_all_def distinct_concat_iff)
  have step: "iterate fuel g h (hash_iter_next g h it) = Some (map (\<lambda>e. he_ptr (h_elems h e))
      (bs @ concat (drop (?b + 1) ?t)))"
  proof (cases bs)
    case (Cons y ys)
    then have "y \<in> set (h_all h)" using sub Suc.prems(2) by auto
    then have "y \<noteq> NULL" using assms by (metis h_inv_def)
    moreover have "ls_next NULL (?t ! ?b) y = hd (ys @ [NULL])"
      using ls_next_split [of "as @ [x]" y ys NULL] dist Suc.prems(2) Cons by simp
    ultimately have "hash_iter_next g h it = it\<lparr>hi_entry := y, hi_next := hd (ys @ [NULL])\<rparr>"
      using Suc.prems Cons by (simp add: hash_iter_next_def iter_take_def Let_def)
    then show ?thesis using Suc.IH [of "hash_iter_next g h it" "as @ [x]" y ys] Suc.prems Cons by simp
  next
    case Nil
    let ?n = "skip_empty g h (?b + 1)"
    note sk = skip_empty_props [OF len, of g "?b + 1"]
    show ?thesis
    proof (cases "?n < h_length h")
      case False
      then have "hash_iter_done h (hash_iter_next g h it)"
        using Suc.prems Nil by (simp add: hash_iter_done_def hash_iter_next_def Let_def)
      moreover have "0 < fuel" using Suc.prems(5) by simp
      ultimately show ?thesis using sk False Nil len by (cases fuel) auto
    next
      case True
      then obtain y ys where y: "?t ! ?n = y # ys" using sk by (cases "?t ! ?n") auto
      have c: "concat (drop (?b + 1) ?t) = y # ys @ concat (drop (?n + 1) ?t)"
        using sk True y len by (simp add: Cons_nth_drop_Suc [symmetric])
      have "hash_iter_next g h it = it\<lparr>hi_bucket := ?n, hi_entry := y, hi_next := hd (ys @ [NULL])\<rparr>"
        using Suc.prems Nil True y by (simp add: hash_iter_next_def iter_take_def Let_def)
      then show ?thesis
        using Suc.IH [of "hash_iter_next g h it" "[]" y ys] True y c Suc.prems(5) Nil by simp
    qed
  qed
  then show ?case using Suc.prems by (simp add: hash_iter_done_def hash_iter_get_def)
qed simp

lemma iterate_all:
  assumes "h_inv h" "length (h_all h) < fuel"
  shows "iterate fuel g h (hash_iter_init g h it) = Some (map (\<lambda>e. he_ptr (h_elems h e)) (h_all h))"
proof -
  let ?t = "h_table h" and ?n = "skip_empty g h 0"
  have len: "length ?t = h_length h" using assms by (simp add: h_inv_def)
  note sk = skip_empty_props [OF len, of g 0]
  show ?thesis
  proof (cases "?n < h_length h")
    case False
    then have "hash_iter_done h (hash_iter_init g h it)"
      by (simp add: hash_iter_done_def hash_iter_init_def Let_def)
    then show ?thesis using sk False len assms(2) by (cases fuel) (auto simp: h_all_def)
  next
    case True
    then obtain y ys where y: "?t ! ?n = y # ys" using sk by (cases "?t ! ?n") auto
    have c: "h_all h = y # ys @ concat (drop (?n + 1) ?t)"
      using sk True y len by (simp add: h_all_def Cons_nth_drop_Suc [symmetric])
    have "hash_iter_init g h it = it\<lparr>hi_bucket := ?n, hi_entry := y, hi_next := hd (ys @ [NULL])\<rparr>"
      using True y by (simp add: hash_iter_init_def iter_take_def Let_def)
    then show ?thesis
      using iterate_rest [OF assms(1), of "hash_iter_init g h it" "[]" y ys fuel g] True y c assms(2)
      by simp
  qed
qed

section \<open>Properties\<close>

text \<open>C6: the hash table is a finite map. Every sequence of insertions, deletions and lookups
  on a well-formed table, in which an inserted element is never already stored, runs without a
  panic and returns exactly what the map from keys to elements and objects returns.\<close>

theorem hash_refines_map:
  assumes "h_inv h" and "ok_run ops (h_map h)"
  shows "op_run hash_step ops h = Some (spec_run ops (h_map h))"
  by (rule ht.run [OF assms])

definition hash0 :: hash where
  "hash0 = hash_create 0 64 \<lparr>h_elems = \<lambda>_. \<lparr>he_ptr = 0, he_key = []\<rparr>, h_table = [], h_length = 0,
     h_count = 0, h_flags = 0, h_lock = False\<rparr>"

lemma hash0_inv: "h_inv hash0" "h_map hash0 = Map.empty"
  using hash_create_inv by (simp_all add: hash0_def)

theorem hash_refines_map_witness:
  "op_run hash_step [Ins [1, 2] 100 7, Ins [1, 2] 200 8, Get [1, 2], Get [3], Del [1, 2], Get [1, 2]] hash0 =
   Some [Inl 0, Inl (-1), Inr 7, Inr 0, Inl 0, Inr 0]"
  using hash_refines_map [OF hash0_inv(1),
      of "[Ins [1, 2] 100 7, Ins [1, 2] 200 8, Get [1, 2], Get [3], Del [1, 2], Get [1, 2]]"]
  by (simp add: hash0_inv(2))

text \<open>C19: iteration over a well-formed table ends and visits every stored element exactly
  once, whatever value the skip loop finds in the memory just past the table.\<close>

theorem hash_iteration_complete:
  assumes "h_inv h" and "h_count h < fuel"
  shows "\<exists>es. distinct es \<and> set es = {e. \<exists>k v. h_map h k = Some (e, v)} \<and>
    iterate fuel g h (hash_iter_init g h it) = Some (map (\<lambda>e. he_ptr (h_elems h e)) es)"
proof (intro exI conjI)
  show "distinct (h_all h)" using assms(1) by (simp add: h_inv_def)
  show "set (h_all h) = {e. \<exists>k v. h_map h k = Some (e, v)}" by (simp add: h_map_Some [OF assms(1)])
  show "iterate fuel g h (hash_iter_init g h it) = Some (map (\<lambda>e. he_ptr (h_elems h e)) (h_all h))"
    using assms iterate_all [of h fuel g it] by (simp add: h_inv_def)
qed

theorem hash_iteration_complete_witness:
  "\<exists>h. hash_insert [1] 100 7 hash0 = Some (0, h) \<and>
    iterate 2 55 h (hash_iter_init 55 h \<lparr>hi_bucket = 0, hi_entry = 0, hi_next = 0\<rparr>) = Some [7]"
proof -
  have "100 \<notin> set (h_all hash0)" 
    using h_map_None [of hash0 "he_key (h_elems hash0 100)"] by (auto simp: hash0_inv(2))
  then obtain h where h: "hash_insert [1] 100 7 hash0 = Some (0, h)" "h_inv h" "h_map h = [[1] \<mapsto> (100, 7)]"
    using hash_insert_rep [OF hash0_inv(1), of 100 "[1]" 7] by (auto simp: hash0_inv(2))
  have "he_ptr (h_elems h 100) = 7" "100 \<in> set (h_all h)"
    using h_map_Some [OF h(2), of "[1]" 100 7] h(3) by simp_all
  moreover have "e = 100" if "e \<in> set (h_all h)" for e
  proof -
    from that have "h_map h (he_key (h_elems h e)) = Some (e, he_ptr (h_elems h e))"
      unfolding h_map_Some [OF h(2)] by blast
    then show ?thesis unfolding h(3) fun_upd_apply by (metis option.distinct(1) option.inject prod.inject)
  qed
  ultimately have all: "set (h_all h) = {100}" "he_ptr (h_elems h 100) = 7" by blast+
  have "h_all h = [100]" by (rule distinct_singleton) (use h(2) all in \<open>simp_all add: h_inv_def\<close>)
  then have "h_count h < 2" using h(2) by (simp add: h_inv_def)
  from hash_iteration_complete [OF h(2) this] obtain es where es: "distinct es"
    "set es = {e. \<exists>k v. h_map h k = Some (e, v)}"
    "iterate 2 55 h (hash_iter_init 55 h \<lparr>hi_bucket = 0, hi_entry = 0, hi_next = 0\<rparr>) =
       Some (map (\<lambda>e. he_ptr (h_elems h e)) es)" by blast
  have "{e. \<exists>k v. h_map h k = Some (e, v)} = {100}" using h(3) by (auto split: if_splits)
  then have "es = [100]" using es(1,2) by (intro distinct_singleton) simp_all
  with es(3) h(1) all(2) show ?thesis by simp
qed

end
