(* ===== verification/Qsort.thy ===== *)
theory Qsort
  imports Prelude "HOL-Library.Multiset"
begin

text \<open>
  The pseudo-random generator of \<open>kernel/random.c\<close> and the quicksort of \<open>lib/ds/qsort.c\<close>, which
  draws its pivots from it. The array is a list of elements; the two recursive calls work on
  the part of the array before and the part after the pivot.
\<close>

section \<open>Random numbers\<close>

record pcg32_random_t =
  pcg_state :: u64
  pcg_inc :: u64

definition pcg32_random_r :: "pcg32_random_t \<Rightarrow> u32 \<times> pcg32_random_t" where
  "pcg32_random_r rng =
     (let oldstate = pcg_state rng;
          rng = rng\<lparr>pcg_state := oldstate * 6364136223846793005 + (pcg_inc rng OR 1)\<rparr>;
          xorshifted = (ucast (drop_bit 27 (drop_bit 18 oldstate XOR oldstate)) :: u32);
          rot = (ucast (drop_bit 59 oldstate) :: u32)
      in (drop_bit (unat rot) xorshifted OR push_bit (unat (- rot AND 31)) xorshifted, rng))"

definition random_u32 :: "pcg32_random_t \<Rightarrow> u32 \<times> pcg32_random_t" where
  "random_u32 s = pcg32_random_r s"

definition random_init :: "u64 \<Rightarrow> pcg32_random_t \<Rightarrow> pcg32_random_t" where
  "random_init nanoseconds s =
     (let s = s\<lparr>pcg_state := nanoseconds\<rparr>; s = s\<lparr>pcg_inc := 64\<rparr> in snd (pcg32_random_r s))"

section \<open>Quicksort\<close>

definition swap_elems :: "nat \<Rightarrow> nat \<Rightarrow> 'a list \<Rightarrow> 'a list" where
  "swap_elems a b xs =
     (let data = xs ! a; xs = xs[a := xs ! b] in xs[b := data])"

text \<open>One round of the partition loop, and the loop for \<open>i\<close> from 1 to \<open>num - 1\<close>.\<close>

definition part_step :: "('a \<Rightarrow> 'a \<Rightarrow> int) \<Rightarrow> nat \<times> 'a list \<Rightarrow> nat \<Rightarrow> nat \<times> 'a list" where
  "part_step compar st i = (case st of (part, xs) \<Rightarrow>
     if compar (xs ! i) (xs ! 0) < 0 then (part + 1, swap_elems (part + 1) i xs) else (part, xs))"

definition part_loop :: "('a \<Rightarrow> 'a \<Rightarrow> int) \<Rightarrow> nat \<Rightarrow> 'a list \<Rightarrow> nat \<times> 'a list" where
  "part_loop compar num xs = foldl (part_step compar) (0, xs) [1..<num]"

lemma length_swap [simp]: "length (swap_elems a b xs) = length xs"
  by (simp add: swap_elems_def Let_def)

lemma mset_swap_elems: "a < length xs \<Longrightarrow> b < length xs \<Longrightarrow> mset (swap_elems a b xs) = mset xs"
  by (simp add: swap_elems_def Let_def mset_swap)

lemma swap_nth:
  "a < length xs \<Longrightarrow> b < length xs \<Longrightarrow> i < length xs \<Longrightarrow>
   swap_elems a b xs ! i = (if i = b then xs ! a else if i = a then xs ! b else xs ! i)"
  by (auto simp: swap_elems_def Let_def nth_list_update)

text \<open>What the loop has established when \<open>n\<close> elements have been looked at: the pivot is still
  first, the elements up to \<open>part\<close> are below it, the ones from there to \<open>n\<close> are not.\<close>

definition part_inv :: "('a \<Rightarrow> 'a \<Rightarrow> int) \<Rightarrow> 'a list \<Rightarrow> nat \<Rightarrow> nat \<times> 'a list \<Rightarrow> bool" where
  "part_inv c xs0 n st \<longleftrightarrow> (case st of (part, xs) \<Rightarrow>
     part < n \<and> mset xs = mset xs0 \<and> xs ! 0 = xs0 ! 0 \<and>
     (\<forall>j. 1 \<le> j \<and> j \<le> part \<longrightarrow> c (xs ! j) (xs ! 0) < 0) \<and>
     (\<forall>j. part < j \<and> j < n \<longrightarrow> \<not> c (xs ! j) (xs ! 0) < 0))"

lemma part_step_inv:
  assumes "part_inv c xs0 n st" "1 \<le> n" "n < length xs0"
  shows "part_inv c xs0 (n + 1) (part_step c st n)"
proof -
  obtain part xs where st: "st = (part, xs)" by (cases st)
  have i: "part < n" "mset xs = mset xs0" "xs ! 0 = xs0 ! 0"
    "\<And>j. 1 \<le> j \<Longrightarrow> j \<le> part \<Longrightarrow> c (xs ! j) (xs ! 0) < 0"
    "\<And>j. part < j \<Longrightarrow> j < n \<Longrightarrow> \<not> c (xs ! j) (xs ! 0) < 0"
    using assms(1) st by (auto simp: part_inv_def)
  have len: "length xs = length xs0" using mset_eq_length [OF i(2)] .
  have ix: "part + 1 < length xs" "n < length xs" "0 < length xs" using i(1) assms len by auto
  show ?thesis
  proof (cases "c (xs ! n) (xs ! 0) < 0")
    case False
    have "\<not> c (xs ! j) (xs ! 0) < 0" if "part < j" "j < n + 1" for j
      using i(5) [of j] False that by (cases "j = n") auto
    with False i show ?thesis by (auto simp: part_inv_def part_step_def st)
  next
    case True
    let ?ys = "swap_elems (part + 1) n xs"
    have z: "?ys ! 0 = xs ! 0" using assms(2) ix by (simp add: swap_nth)
    have "c (?ys ! j) (?ys ! 0) < 0" if "1 \<le> j" "j \<le> part + 1" for j
      using that i(1,4) True ix z swap_nth [OF ix(1,2), of j]
      by (cases "j = part + 1") auto
    moreover have "\<not> c (?ys ! j) (?ys ! 0) < 0" if "part + 1 < j" "j < n + 1" for j
      using that i(5) [of j] i(5) [of "part + 1"] ix z swap_nth [OF ix(1,2), of j] by (cases "j = n") auto
    moreover have "mset ?ys = mset xs0" using mset_swap_elems [OF ix(1,2)] i(2) by simp
    ultimately show ?thesis using True i(1,3) z by (auto simp: part_inv_def part_step_def st)
  qed
qed

lemma part_loop_inv:
  assumes "1 \<le> n" "n \<le> length xs"
  shows "part_inv c xs n (part_loop c n xs)"
  using assms
proof (induction n rule: dec_induct)
  case base
  then show ?case by (auto simp: part_loop_def part_inv_def)
next
  case (step n)
  then show ?case using part_step_inv [of c xs n "part_loop c n xs"] by (simp add: part_loop_def)
qed

lemma part_loop_less:
  "1 < length xs \<Longrightarrow> part_loop c (length xs) xs = (part, ys) \<Longrightarrow> part < length xs \<and> length ys = length xs"
  using part_loop_inv [of "length xs" xs c] by (auto simp: part_inv_def dest: mset_eq_length)

function qsort :: "('a \<Rightarrow> 'a \<Rightarrow> int) \<Rightarrow> 'a list \<Rightarrow> pcg32_random_t \<Rightarrow> 'a list \<times> pcg32_random_t" where
  "qsort compar xs rng =
     (let num = length xs in
      if num \<le> 1 then (xs, rng)
      else
        let (r, rng) = random_u32 rng;
            pivot = unat r mod num;
            xs = swap_elems pivot 0 xs;
            (part, xs) = part_loop compar num xs;
            xs = swap_elems 0 part xs;
            (ls, rng) = (if part > 0 then qsort compar (take part xs) rng else (take part xs, rng));
            (rs, rng) = (if num > part then qsort compar (drop (part + 1) xs) rng
                         else (drop (part + 1) xs, rng))
        in (ls @ xs ! part # rs, rng))"
  by auto
termination
proof (relation "measure (\<lambda>(c, xs, r). length xs)", goal_cases)
  case 1
  then show ?case by simp
next
  case (2 c xs rng num rx r rng' pivot ys pl part zs ws)
  then show ?case using part_loop_less [of ys c part zs] by auto
next
  case (3 c xs rng num rx r rng' pivot ys pl part zs ws lr ls rng'')
  then show ?case using part_loop_less [of ys c part zs] by auto
qed

declare qsort.simps [simp del]

section \<open>Correctness\<close>

text \<open>What a comparison function promises: below is asymmetric, and not-below transitive.\<close>

locale comparison =
  fixes c :: "'a \<Rightarrow> 'a \<Rightarrow> int"
  assumes asym: "c x y < 0 \<Longrightarrow> \<not> c y x < 0"
    and trans: "\<not> c y x < 0 \<Longrightarrow> \<not> c z y < 0 \<Longrightarrow> \<not> c z x < 0"
begin

lemma sorted_join:
  assumes "sorted_wrt (\<lambda>x y. \<not> c y x < 0) ls" "sorted_wrt (\<lambda>x y. \<not> c y x < 0) rs"
    "\<forall>x \<in> set ls. c x p < 0" "\<forall>x \<in> set rs. \<not> c x p < 0"
  shows "sorted_wrt (\<lambda>x y. \<not> c y x < 0) (ls @ p # rs)"
proof -
  have "\<not> c p x < 0" if "x \<in> set ls" for x using that assms(3) asym by blast
  moreover from this have "\<not> c y x < 0" if "x \<in> set ls" "y \<in> set rs" for x y
    using that assms(4) trans by blast
  ultimately show ?thesis using assms by (simp add: sorted_wrt_append)
qed

lemma split_around:
  assumes "part_inv c xs (length xs) (part, ys)" "1 < length xs"
  defines "zs \<equiv> swap_elems 0 part ys"
  shows "mset (take part zs) + {#zs ! part#} + mset (drop (part + 1) zs) = mset xs"
    "\<forall>x \<in> set (take part zs). c x (zs ! part) < 0"
    "\<forall>x \<in> set (drop (part + 1) zs). \<not> c x (zs ! part) < 0"
proof -
  have i: "part < length xs" "mset ys = mset xs"
    "\<And>j. 1 \<le> j \<Longrightarrow> j \<le> part \<Longrightarrow> c (ys ! j) (ys ! 0) < 0"
    "\<And>j. part < j \<Longrightarrow> j < length xs \<Longrightarrow> \<not> c (ys ! j) (ys ! 0) < 0"
    using assms(1) by (auto simp: part_inv_def)
  have len: "length ys = length xs" using mset_eq_length [OF i(2)] .
  have nth: "zs ! j = (if j = part then ys ! 0 else if j = 0 then ys ! part else ys ! j)"
    if "j < length xs" for j using that i(1) len unfolding zs_def by (subst swap_nth) auto
  have lz: "length zs = length xs" by (simp add: zs_def len)
  have "zs = take part zs @ zs ! part # drop (part + 1) zs"
    using i(1) lz by (simp add: id_take_nth_drop)
  moreover have "mset zs = mset xs"
    using i(1,2) len mset_swap_elems [of 0 ys part] by (cases xs) (simp_all add: zs_def)
  ultimately show "mset (take part zs) + {#zs ! part#} + mset (drop (part + 1) zs) = mset xs"
    by (metis add_mset_add_single mset.simps(2) mset_append union_mset_add_mset_left
        union_mset_add_mset_right)
  show "\<forall>x \<in> set (take part zs). c x (zs ! part) < 0"
  proof
    fix x assume "x \<in> set (take part zs)"
    then obtain j where j: "j < part" "x = zs ! j" using lz i(1) by (auto simp: in_set_conv_nth)
    moreover have "zs ! j = (if j = 0 then ys ! part else ys ! j)" "zs ! part = ys ! 0"
      using nth [of j] nth [of part] j i(1) by simp_all
    ultimately show "c x (zs ! part) < 0" using i(3) [of j] i(3) [of part] by (cases "j = 0") simp_all
  qed
  show "\<forall>x \<in> set (drop (part + 1) zs). \<not> c x (zs ! part) < 0"
  proof
    fix x assume "x \<in> set (drop (part + 1) zs)"
    then obtain j where j: "j < length xs - (part + 1)" "x = zs ! (part + 1 + j)"
      using lz i(1) by (auto simp: in_set_conv_nth)
    then have "part + 1 + j < length xs" by simp
    with j show "\<not> c x (zs ! part) < 0"
      using nth [of "part + 1 + j"] nth [of part] i(1) i(4) [of "part + 1 + j"] by auto
  qed
qed

lemma qsort_sorts:
  "mset (fst (qsort c xs rng)) = mset xs \<and> sorted_wrt (\<lambda>x y. \<not> c y x < 0) (fst (qsort c xs rng))"
proof (induction "length xs" arbitrary: xs rng rule: less_induct)
  case less
  show ?case
  proof (cases "length xs \<le> 1")
    case True
    then show ?thesis by (cases xs) (auto simp: qsort.simps)
  next
    case False
    obtain r rng1 where r: "random_u32 rng = (r, rng1)" by (cases "random_u32 rng")
    let ?p = "unat r mod length xs"
    let ?xs = "swap_elems ?p 0 xs"
    have "?p < length xs" using False by (intro mod_less_divisor) auto
    then have ms: "mset ?xs = mset xs" using False by (intro mset_swap_elems) auto
    obtain part ys where pl: "part_loop c (length xs) ?xs = (part, ys)" by (cases "part_loop c (length xs) ?xs")
    have inv: "part_inv c ?xs (length ?xs) (part, ys)"
      using part_loop_inv [of "length xs" ?xs c] False pl by simp
    define zs where "zs = swap_elems 0 part ys"
    have sp: "mset (take part zs) + {#zs ! part#} + mset (drop (part + 1) zs) = mset xs"
      "\<forall>x \<in> set (take part zs). c x (zs ! part) < 0"
      "\<forall>x \<in> set (drop (part + 1) zs). \<not> c x (zs ! part) < 0"
      using split_around [OF inv] False ms by (simp_all add: zs_def)
    have pn: "part < length xs" "length zs = length xs"
      using inv mset_eq_length [of ys ?xs] by (auto simp: part_inv_def zs_def)
    obtain ls rng2 where ls: "(if part > 0 then qsort c (take part zs) rng1 else (take part zs, rng1)) = (ls, rng2)"
      by fastforce
    obtain rs rng3 where rs: "qsort c (drop (part + 1) zs) rng2 = (rs, rng3)" by fastforce
    have eq: "fst (qsort c xs rng) = ls @ zs ! part # rs"
    proof -
      have "swap_elems 0 part ys = zs" by (simp add: zs_def)
      then show ?thesis using False r pl ls rs pn
        by (subst qsort.simps) (cases "part > 0"; fastforce simp add: Let_def)
    qed
    have l: "mset ls = mset (take part zs)" "sorted_wrt (\<lambda>x y. \<not> c y x < 0) ls"
      using less [of "take part zs" rng1] ls pn by (auto split: if_splits)
    have r': "mset rs = mset (drop (part + 1) zs)" "sorted_wrt (\<lambda>x y. \<not> c y x < 0) rs"
      using less [of "drop (part + 1) zs" rng2] rs pn by auto
    have "mset (ls @ zs ! part # rs) = mset xs" using l(1) r'(1) sp(1) by simp
    moreover have "sorted_wrt (\<lambda>x y. \<not> c y x < 0) (ls @ zs ! part # rs)"
      using sorted_join [OF l(2) r'(2)] sp(2,3) mset_eq_setD [OF l(1)] mset_eq_setD [OF r'(1)] by simp
    ultimately show ?thesis using eq by simp
  qed
qed

end

text \<open>The comparison that orders machine words by value, the shape of the comparisons the
  callers pass.\<close>

definition word_compare :: "u64 \<Rightarrow> u64 \<Rightarrow> int" where
  "word_compare a b = (if a < b then -1 else if a = b then 0 else 1)"

interpretation wc: comparison word_compare
  by unfold_locales (auto simp: word_compare_def split: if_splits)



end
