(* ===== verification/PriQueue.thy ===== *)
theory PriQueue
  imports LinkedList "HOL-Library.Signed_Division" "HOL-Library.Multiset"
begin

text \<open>
  The priority queue of \<open>kernel/queue.c\<close>, the run queue of a processor. Each of its lists is the
  list that its linked list represents, newest first, of nodes with their data. The lock of the
  queue is held for the whole of each operation, which is therefore one step. An access to a
  list beyond the array is None. The locale \<open>priority_queue\<close> is what the scheduler relies on.
\<close>

definition PRIQUEUE_LEVELS :: int where "PRIQUEUE_LEVELS = 32"

record priqueue =
  pq_levels :: int
  pq_curhighest :: int
  pq_lists :: "(ptr \<times> ptr) list list"

definition priqueue_create :: "int \<Rightarrow> priqueue" where
  "priqueue_create levels =
     \<lparr>pq_levels = levels, pq_curhighest = 0, pq_lists = replicate (nat PRIQUEUE_LEVELS) []\<rparr>"

text \<open>The list a priority is put in.\<close>

definition queue_index :: "priqueue \<Rightarrow> int \<Rightarrow> int" where
  "queue_index pq pri =
     (let q = (if pq_levels pq > PRIQUEUE_LEVELS then (pri * PRIQUEUE_LEVELS) sdiv pq_levels pq else pri);
          q = (if q < 0 then 0 else q)
      in if q \<ge> pq_levels pq then pq_levels pq - 1 else q)"

definition priqueue_insert :: "ptr \<Rightarrow> ptr \<Rightarrow> int \<Rightarrow> priqueue \<Rightarrow> priqueue option" where
  "priqueue_insert node data pri pq =
     (let q = queue_index pq pri in
      if 0 \<le> q \<and> nat q < length (pq_lists pq) then
        let pq = pq\<lparr>pq_lists := (pq_lists pq)[nat q := (node, data) # pq_lists pq ! nat q]\<rparr>
        in Some (if q > pq_curhighest pq then pq\<lparr>pq_curhighest := q\<rparr> else pq)
      else None)"

text \<open>The loop of \<open>priqueue_pop\<close>, for \<open>i\<close> from its argument less one down to 0.\<close>

fun pop_loop :: "nat \<Rightarrow> priqueue \<Rightarrow> ptr \<times> priqueue" where
  "pop_loop 0 pq = (NULL, pq)"
| "pop_loop (Suc i) pq =
     (if pq_lists pq ! i \<noteq> [] then
        let ret = snd (last (pq_lists pq ! i));
            pq = pq\<lparr>pq_lists := (pq_lists pq)[i := butlast (pq_lists pq ! i)]\<rparr>;
            pq = (if int i = pq_curhighest pq \<and> pq_lists pq ! i = []
                  then pq\<lparr>pq_curhighest := pq_curhighest pq - 1\<rparr> else pq)
        in (ret, pq)
      else
        let pq = (if int i = pq_curhighest pq \<and> pq_lists pq ! i = []
                  then pq\<lparr>pq_curhighest := pq_curhighest pq - 1\<rparr> else pq)
        in pop_loop i pq)"

definition priqueue_pop :: "priqueue \<Rightarrow> ptr \<times> priqueue" where
  "priqueue_pop pq = pop_loop (nat (pq_curhighest pq + 1)) pq"

section \<open>Invariant and service order\<close>

definition pq_inv :: "priqueue \<Rightarrow> bool" where
  "pq_inv pq \<longleftrightarrow> length (pq_lists pq) = nat PRIQUEUE_LEVELS \<and>
     0 < pq_levels pq \<and> pq_levels pq \<le> PRIQUEUE_LEVELS \<and>
     -1 \<le> pq_curhighest pq \<and> pq_curhighest pq < PRIQUEUE_LEVELS \<and>
     (\<forall>i < length (pq_lists pq). pq_curhighest pq < int i \<longrightarrow> pq_lists pq ! i = [])"

text \<open>The data of the lists below \<open>n\<close> with their list numbers, in the order in which they
  will be popped.\<close>

fun served :: "'a list list \<Rightarrow> nat \<Rightarrow> (nat \<times> 'a) list" where
  "served ls 0 = []"
| "served ls (Suc n) = map (Pair n) (rev (ls ! n)) @ served ls n"

definition pq_abs :: "priqueue \<Rightarrow> (nat \<times> ptr \<times> ptr) list" where
  "pq_abs pq = served (pq_lists pq) (length (pq_lists pq))"

lemma served_upd_above: "n \<le> i \<Longrightarrow> served (ls[i := x]) n = served ls n"
  by (induction n) auto

lemma served_less: "(p, x) \<in> set (served ls n) \<Longrightarrow> p < n"
  by (induction n) auto

lemma served_empty_above:
  "k \<le> n \<Longrightarrow> (\<And>i. k \<le> i \<Longrightarrow> i < n \<Longrightarrow> ls ! i = []) \<Longrightarrow> served ls n = served ls k"
  by (induction n) (auto simp: le_Suc_eq)

text \<open>Insertion after everything of at least the same priority.\<close>

definition serve_after :: "nat \<times> 'a \<Rightarrow> (nat \<times> 'a) list \<Rightarrow> (nat \<times> 'a) list" where
  "serve_after e xs = takeWhile (\<lambda>x. fst x \<ge> fst e) xs @ e # dropWhile (\<lambda>x. fst x \<ge> fst e) xs"

lemma serve_after_append:
  "\<forall>x \<in> set xs. fst x \<ge> fst e \<Longrightarrow> serve_after e (xs @ ys) = xs @ serve_after e ys"
  by (simp add: serve_after_def takeWhile_append2)

lemma serve_after_low: "\<forall>x \<in> set xs. fst x < fst e \<Longrightarrow> serve_after e xs = e # xs"
  by (cases xs) (auto simp: serve_after_def)

lemma served_insert:
  "q < n \<Longrightarrow> n \<le> length ls \<Longrightarrow> served (ls[q := e # ls ! q]) n = serve_after (q, e) (served ls n)"
proof (induction n)
  case (Suc n)
  show ?case
  proof (cases "q = n")
    case True
    have "serve_after (n, e) (map (Pair n) (rev (ls ! n)) @ served ls n) =
        map (Pair n) (rev (ls ! n)) @ (n, e) # served ls n"
      using served_less [of _ _ ls n] by (subst serve_after_append) (auto intro!: serve_after_low)
    then show ?thesis using True Suc.prems by (simp add: served_upd_above)
  next
    case False
    then have "serve_after (q, e) (map (Pair n) (rev (ls ! n)) @ served ls n) =
        map (Pair n) (rev (ls ! n)) @ serve_after (q, e) (served ls n)"
      using Suc.prems by (intro serve_after_append) auto
    then show ?thesis using False Suc by simp
  qed
qed simp

lemma served_pop:
  "i < n \<Longrightarrow> n \<le> length ls \<Longrightarrow> ls ! i \<noteq> [] \<Longrightarrow> (\<And>j. i < j \<Longrightarrow> j < n \<Longrightarrow> ls ! j = []) \<Longrightarrow>
   served ls n = (i, last (ls ! i)) # served (ls[i := butlast (ls ! i)]) n"
proof (induction n)
  case (Suc n)
  show ?case
  proof (cases "i = n")
    case True
    obtain ys y where "ls ! n = ys @ [y]" using Suc.prems(3) True by (cases "ls ! n" rule: rev_cases) auto
    then show ?thesis using True Suc.prems(2) by (simp add: served_upd_above)
  next
    case False
    with Suc show ?thesis by simp
  qed
qed simp

section \<open>Operations on the service order\<close>

lemma insert_abs:
  assumes "pq_inv pq"
  shows "\<exists>pq'. priqueue_insert node data pri pq = Some pq' \<and> pq_inv pq' \<and> pq_levels pq' = pq_levels pq \<and>
    pq_abs pq' = serve_after (nat (queue_index pq pri), node, data) (pq_abs pq)"
proof -
  let ?q = "queue_index pq pri"
  have q: "0 \<le> ?q" "nat ?q < length (pq_lists pq)" "?q < PRIQUEUE_LEVELS"
    using assms by (auto simp: queue_index_def pq_inv_def Let_def)
  have ab: "served ((pq_lists pq)[nat ?q := (node, data) # pq_lists pq ! nat ?q]) (length (pq_lists pq)) =
      serve_after (nat ?q, node, data) (pq_abs pq)"
    using served_insert [OF q(2) order.refl, of "(node, data)"] by (simp add: pq_abs_def)
  show ?thesis using assms q ab
    by (auto simp: priqueue_insert_def Let_def pq_inv_def pq_abs_def nth_list_update nat_less_iff)
qed

lemma pop_loop_abs:
  "pq_inv pq \<Longrightarrow> pq_curhighest pq = int n - 1 \<Longrightarrow>
   \<exists>pq'. pop_loop n pq = (case pq_abs pq of [] \<Rightarrow> NULL | x # xs \<Rightarrow> snd (snd x), pq') \<and>
     pq_inv pq' \<and> pq_levels pq' = pq_levels pq \<and> pq_abs pq' = tl (pq_abs pq)"
proof (induction n arbitrary: pq)
  case 0
  then have "pq_abs pq = []"
    using served_empty_above [of 0 "length (pq_lists pq)" "pq_lists pq"] by (auto simp: pq_abs_def pq_inv_def)
  then show ?case using 0 by (intro exI [of _ pq]) simp
next
  case (Suc i)
  let ?ls = "pq_lists pq"
  have i: "i < length ?ls" using Suc.prems by (auto simp: pq_inv_def)
  show ?case
  proof (cases "?ls ! i = []")
    case True
    let ?pq = "pq\<lparr>pq_curhighest := pq_curhighest pq - 1\<rparr>"
    have "?ls ! j = []" if "j < length ?ls" "pq_curhighest pq - 1 < int j" for j
    proof (cases "j = i")
      case False
      then show ?thesis using that Suc.prems by (auto simp: pq_inv_def)
    qed (use True in simp)
    then have "pq_inv ?pq" using Suc.prems by (simp add: pq_inv_def)
    moreover have "pop_loop (Suc i) pq = pop_loop i ?pq" using True Suc.prems by (simp add: Let_def)
    ultimately show ?thesis using Suc.IH [of ?pq] Suc.prems by (simp add: pq_abs_def)
  next
    case False
    have ab: "pq_abs pq = (i, last (?ls ! i)) # served (?ls[i := butlast (?ls ! i)]) (length ?ls)"
      unfolding pq_abs_def by (rule served_pop) (use i False Suc.prems in \<open>auto simp: pq_inv_def\<close>)
    define pq' where "pq' = snd (pop_loop (Suc i) pq)"
    have pq': "pop_loop (Suc i) pq = (snd (last (?ls ! i)), pq')"
      "pq_lists pq' = ?ls[i := butlast (?ls ! i)]" "pq_levels pq' = pq_levels pq"
      "pq_curhighest pq' = (if butlast (?ls ! i) = [] then pq_curhighest pq - 1 else pq_curhighest pq)"
      using False Suc.prems i by (simp_all add: pq'_def Let_def)
    have "pq_inv pq'"
      using Suc.prems pq' i by (auto simp: pq_inv_def nth_list_update split: if_splits)
    with pq' ab show ?thesis by (simp add: pq_abs_def)
  qed
qed

lemma pop_abs:
  assumes "pq_inv pq"
  shows "\<exists>pq'. priqueue_pop pq = (case pq_abs pq of [] \<Rightarrow> NULL | x # xs \<Rightarrow> snd (snd x), pq') \<and>
    pq_inv pq' \<and> pq_levels pq' = pq_levels pq \<and> pq_abs pq' = tl (pq_abs pq)"
  unfolding priqueue_pop_def by (rule pop_loop_abs [OF assms]) (use assms in \<open>simp add: pq_inv_def\<close>)

lemma create_abs:
  "0 < levels \<Longrightarrow> levels \<le> PRIQUEUE_LEVELS \<Longrightarrow>
   pq_inv (priqueue_create levels) \<and> pq_abs (priqueue_create levels) = []"
  using served_empty_above [of 0 32 "replicate 32 []"]
  by (auto simp: pq_inv_def pq_abs_def priqueue_create_def PRIQUEUE_LEVELS_def)

section \<open>The contract of a priority queue\<close>

fun put_all :: "('e \<Rightarrow> 's \<Rightarrow> 's option) \<Rightarrow> 'e list \<Rightarrow> 's \<Rightarrow> 's option" where
  "put_all put [] s = Some s"
| "put_all put (e # es) s = do { s' \<leftarrow> put e s; put_all put es s' }"

fun take_n :: "('s \<Rightarrow> 'd \<times> 's) \<Rightarrow> nat \<Rightarrow> 's \<Rightarrow> 'd list \<times> 's" where
  "take_n get 0 s = ([], s)"
| "take_n get (Suc n) s = (let (d, s) = get s; (ds, s) = take_n get n s in (d # ds, s))"

text \<open>A request to insert, as it stands in the service order.\<close>

definition tag :: "('p \<Rightarrow> nat) \<Rightarrow> 'n \<times> 'd \<times> 'p \<Rightarrow> nat \<times> 'n \<times> 'd" where
  "tag level e = (case e of (n, d, p) \<Rightarrow> (level p, n, d))"

locale priority_queue =
  fixes inv :: "'s \<Rightarrow> bool"
    and abs :: "'s \<Rightarrow> (nat \<times> 'n \<times> 'd) list"
    and level :: "'p \<Rightarrow> nat"
    and put :: "'n \<times> 'd \<times> 'p \<Rightarrow> 's \<Rightarrow> 's option"
    and get :: "'s \<Rightarrow> 'd \<times> 's"
  assumes put: "inv s \<Longrightarrow>
      \<exists>s'. put (n, d, p) s = Some s' \<and> inv s' \<and> abs s' = serve_after (level p, n, d) (abs s)"
    and get: "inv s \<Longrightarrow> abs s = x # xs \<Longrightarrow> \<exists>s'. get s = (snd (snd x), s') \<and> inv s' \<and> abs s' = xs"
begin

lemma put_all: "inv s \<Longrightarrow>
  \<exists>s'. put_all put es s = Some s' \<and> inv s' \<and> abs s' = foldl (\<lambda>xs e. serve_after (tag level e) xs) (abs s) es"
proof (induction es arbitrary: s)
  case (Cons e es)
  obtain n d p where e: "e = (n, d, p)" by (cases e)
  obtain s1 where s1: "put e s = Some s1" "inv s1" "abs s1 = serve_after (tag level e) (abs s)"
    using put [OF Cons.prems, of n d p] e unfolding tag_def by auto
  from Cons.IH [OF s1(2)] s1 show ?case by auto
qed simp

lemma take_n: "inv s \<Longrightarrow> \<exists>s'. take_n get (length (abs s)) s = (map (snd \<circ> snd) (abs s), s')"
proof (induction "abs s" arbitrary: s)
  case (Cons x xs)
  obtain s1 where s1: "get s = (snd (snd x), s1)" "inv s1" "abs s1 = xs"
    using get [OF Cons.prems Cons.hyps(2) [symmetric]] by blast
  from Cons.hyps(1) [of s1] s1 Cons.hyps(2) [symmetric] show ?case by auto
qed simp

end

text \<open>Stability: inserting one by one after everything of at least the same priority sorts by
  descending priority and keeps the order of arrival within a priority.\<close>

lemma serve_after_mset [simp]: "mset (serve_after e xs) = add_mset e (mset xs)"
proof -
  have "mset (takeWhile P xs) + mset (dropWhile P xs) = mset xs" for P
    by (metis mset_append takeWhile_dropWhile_id)
  then show ?thesis by (simp add: serve_after_def)
qed

lemma serve_after_Cons:
  "serve_after e (x # xs) = (if fst x \<ge> fst e then x # serve_after e xs else e # x # xs)"
  by (simp add: serve_after_def)

lemma serve_after_sorted:
  "sorted_wrt (\<lambda>x y. fst x \<ge> fst y) xs \<Longrightarrow> sorted_wrt (\<lambda>x y. fst x \<ge> fst y) (serve_after e xs)"
proof (induction xs)
  case (Cons x xs)
  have "set (serve_after e xs) = insert e (set xs)"
    using serve_after_mset [of e xs] by (metis set_mset_add_mset_insert set_mset_mset)
  with Cons show ?case by (auto simp: serve_after_Cons)
qed (simp add: serve_after_def)

lemma serve_after_filter:
  "sorted_wrt (\<lambda>x y. fst x \<ge> fst y) xs \<Longrightarrow>
   filter (\<lambda>x. fst x = p) (serve_after e xs) = filter (\<lambda>x. fst x = p) xs @ (if fst e = p then [e] else [])"
proof (induction xs)
  case (Cons x xs)
  show ?case
  proof (cases "fst x \<ge> fst e")
    case False
    then have "\<forall>y \<in> set (x # xs). fst y < fst e" using Cons.prems by auto
    then have "filter (\<lambda>y. fst y = fst e) (x # xs) = []" by (auto simp: filter_empty_conv)
    with False show ?thesis by (auto simp: serve_after_Cons)
  next
    case True
    with Cons show ?thesis by (simp add: serve_after_Cons)
  qed
qed (simp add: serve_after_def)

lemma serve_order_stable:
  "foldl (\<lambda>xs e. serve_after e xs) [] es = sort_key (\<lambda>e. - int (fst e)) es"
proof -
  let ?r = "\<lambda>es. foldl (\<lambda>xs e. serve_after e xs) [] es"
  have *: "mset (?r es) = mset es \<and> sorted_wrt (\<lambda>x y. fst x \<ge> fst y) (?r es) \<and>
      (\<forall>p. filter (\<lambda>x. fst x = p) (?r es) = filter (\<lambda>x. fst x = p) es)"
  proof (induction es rule: rev_induct)
    case (snoc e es)
    then show ?case
      using serve_after_sorted [of "?r es" e] serve_after_filter [of "?r es" _ e] by simp
  qed simp
  show ?thesis
  proof (rule properties_for_sort_key [symmetric])
    show "filter (\<lambda>x. - int (fst k) = - int (fst x)) (?r es) =
        filter (\<lambda>x. - int (fst k) = - int (fst x)) es" for k
      using * [THEN conjunct2, THEN conjunct2, rule_format, of "fst k"] by (simp add: eq_commute)
    show "sorted (map (\<lambda>e. - int (fst e)) (?r es))" using * by (simp add: sorted_wrt_map)
  qed (use * in simp)
qed

context priority_queue
begin

lemma served_stably:
  assumes "inv s" "abs s = []"
  shows "\<exists>s' s''. put_all put es s = Some s' \<and>
    take_n get (length es) s' =
      (map (\<lambda>(n, d, p). d) (sort_key (\<lambda>(n, d, p). - int (level p)) es), s'')"
proof -
  obtain s' where s': "put_all put es s = Some s'" "inv s'"
    "abs s' = foldl (\<lambda>xs e. serve_after (tag level e) xs) [] es" using put_all [OF assms(1)] assms(2) by auto
  have "foldl (\<lambda>xs e. serve_after (tag level e) xs) [] es = foldl (\<lambda>xs e. serve_after e xs) [] (map (tag level) es)"
    by (simp add: foldl_map)
  then have ab: "abs s' = sort_key (\<lambda>e. - int (fst e)) (map (tag level) es)"
    using s'(3) serve_order_stable by metis
  have k: "sort_key (\<lambda>e. - int (fst e)) (map (tag level) es) =
      map (tag level) (sort_key (\<lambda>e. - int (fst (tag level e))) es)"
  proof (rule properties_for_sort_key)
    let ?F = "\<lambda>e. - int (fst (tag level e))"
    fix k
    have "filter (\<lambda>x. fst k = fst (tag level x)) (sort_key ?F es) =
        filter (\<lambda>x. fst k = fst (tag level x)) es"
      using sort_key_stable [of ?F "- int (fst k)" es] by (simp add: eq_commute)
    then show "filter (\<lambda>y. - int (fst k) = - int (fst y)) (map (tag level) (sort_key ?F es)) =
        filter (\<lambda>y. - int (fst k) = - int (fst y)) (map (tag level) es)"
      by (simp add: filter_map o_def)
  qed (simp_all add: o_def)
  have F: "(\<lambda>e. - int (fst (tag level e))) = (\<lambda>(n, d, p). - int (level p))"
    by (auto simp: tag_def)
  have t: "snd \<circ> snd \<circ> tag level = (\<lambda>(n, d, p). d)" by (auto simp: tag_def)
  have "map (snd \<circ> snd) (abs s') = map (\<lambda>(n, d, p). d) (sort_key (\<lambda>(n, d, p). - int (level p)) es)"
    unfolding ab k F map_map t ..
  moreover have "length (abs s') = length es" using ab by simp
  ultimately show ?thesis using take_n [OF s'(2)] s'(1) by auto
qed

end

definition level_of :: "int \<Rightarrow> int \<Rightarrow> nat" where
  "level_of levels pri = nat (min (max pri 0) (levels - 1))"

lemma queue_index_level:
  assumes "pq_inv pq"
  shows "nat (queue_index pq pri) = level_of (pq_levels pq) pri"
  using assms by (auto simp: queue_index_def level_of_def pq_inv_def Let_def)

interpretation pq: priority_queue "\<lambda>s. pq_inv s \<and> pq_levels s = levels" pq_abs "level_of levels"
  "\<lambda>(n, d, p). priqueue_insert n d p" priqueue_pop for levels
proof
  fix s n d p assume "pq_inv s \<and> pq_levels s = levels"
  then show "\<exists>s'. (case (n, d, p) of (n, d, p) \<Rightarrow> priqueue_insert n d p) s = Some s' \<and>
      (pq_inv s' \<and> pq_levels s' = levels) \<and> pq_abs s' = serve_after (level_of levels p, n, d) (pq_abs s)"
    using insert_abs [of s n d p] queue_index_level [of s p] by auto
next
  fix s x xs assume "pq_inv s \<and> pq_levels s = levels" "pq_abs s = x # xs"
  then show "\<exists>s'. priqueue_pop s = (snd (snd x), s') \<and> (pq_inv s' \<and> pq_levels s' = levels) \<and> pq_abs s' = xs"
    using pop_abs [of s] by auto
qed

section \<open>Properties\<close>



text \<open>C0: \<open>priqueue_pop\<close> on any queue state that the operations keep returns the oldest entry
  of the highest occupied level and removes only it; on an empty queue it returns NULL and
  the queue stays empty; the bound of the scan stays an upper bound of the occupied levels.\<close>

theorem priqueue_pop_correct:
  assumes "pq_inv pq"
  shows "\<exists>pq'. priqueue_pop pq = (case pq_abs pq of [] \<Rightarrow> NULL | x # xs \<Rightarrow> snd (snd x), pq') \<and>
    pq_abs pq' = tl (pq_abs pq) \<and> pq_inv pq'"
  using pop_abs [OF assms] by blast

theorem priqueue_pop_correct_witness:
  "\<exists>pq'. priqueue_pop (priqueue_create 16) = (NULL, pq') \<and> pq_inv pq'"
  using priqueue_pop_correct [of "priqueue_create 16"] create_abs [of 16] by (auto simp: PRIQUEUE_LEVELS_def)

text \<open>With more levels than lists, a priority at or above the number of levels selects a list
  past the end of the array.\<close>

lemma priqueue_insert_overrun: "priqueue_insert n d 100 (priqueue_create 64) = None"
  by (simp add: priqueue_insert_def queue_index_def priqueue_create_def PRIQUEUE_LEVELS_def
      signed_divide_int_def)

end
