(* ===== verification/Timer.thy ===== *)
theory Timer
  imports LinkedList
begin

text \<open>
  The timer wheel of \<open>kernel/timer.c\<close>: eight lists, the list of level t holding the timers with
  at least \<open>64 ^ t\<close> ticks left, which are counted down in steps of \<open>64 ^ t\<close>. The lock is held for
  the whole of each operation. A timer that expires calls a function: the call is logged, and
  its effect on the wheel is the argument \<open>call\<close>. The tick counter is a natural number; all
  moduli taken of it divide \<open>2 ^ 64\<close>.
\<close>

section \<open>Structures\<close>

datatype timer_mode = TIMER_MODE_ONESHOT | TIMER_MODE_PERIODIC

record timer =
  tm_initial_ticks :: nat
  tm_ticks :: int
  tm_level :: int
  tm_mode :: timer_mode

record wheel =
  w_counter :: nat
  w_lists :: "ptr list list"
  w_timers :: "ptr \<Rightarrow> timer"
  w_fired :: "ptr list"

definition TIMER_LEVELS :: nat where "TIMER_LEVELS = 8"
definition TIMER_LEVEL_SIZE :: nat where "TIMER_LEVEL_SIZE = 64"

definition upd_timer :: "ptr \<Rightarrow> (timer \<Rightarrow> timer) \<Rightarrow> wheel \<Rightarrow> wheel" where
  "upd_timer e f w = w\<lparr>w_timers := (w_timers w)(e := f (w_timers w e))\<rparr>"

definition upd_tlist :: "nat \<Rightarrow> ptr list \<Rightarrow> wheel \<Rightarrow> wheel" where
  "upd_tlist t l w = w\<lparr>w_lists := (w_lists w)[t := l]\<rparr>"

section \<open>Operations\<close>

text \<open>The loop of \<open>__add_timer\<close>, with the rounds that \<open>i < TIMER_LEVELS\<close> leaves. It can count
  to 8, one past the last list; inserting there is None.\<close>

fun add_level :: "nat \<Rightarrow> nat \<Rightarrow> nat \<Rightarrow> nat" where
  "add_level 0 ticks t = t"
| "add_level (Suc i) ticks t =
     (if ticks \<ge> TIMER_LEVEL_SIZE then add_level i (ticks div TIMER_LEVEL_SIZE) (t + 1) else t)"

definition add_timer :: "ptr \<Rightarrow> wheel \<Rightarrow> wheel option" where
  "add_timer e w =
     (let t = add_level TIMER_LEVELS (nat (tm_ticks (w_timers w e))) 0 in
      if t < length (w_lists w) then
        Some (upd_timer e (\<lambda>tm. tm\<lparr>tm_level := int t\<rparr>) (upd_tlist t (e # w_lists w ! t) w))
      else None)"

definition timer_add_locked :: "ptr \<Rightarrow> timer_mode \<Rightarrow> nat \<Rightarrow> wheel \<Rightarrow> wheel option" where
  "timer_add_locked e mode ticks w =
     add_timer e (upd_timer e (\<lambda>tm. tm\<lparr>tm_ticks := int ticks, tm_initial_ticks := ticks, tm_mode := mode\<rparr>) w)"

definition timer_remove :: "ptr \<Rightarrow> wheel \<Rightarrow> wheel option" where
  "timer_remove e w =
     (if tm_level (w_timers w e) \<noteq> -1 then do {
        let t = nat (tm_level (w_timers w e));
        l \<leftarrow> ls_remove e (w_lists w ! t);
        Some (upd_tlist t l w) }
      else Some w)"

text \<open>The body of the inner loop of \<open>check_timers\<close> for one entry.\<close>

definition check_entry :: "(ptr \<Rightarrow> wheel \<Rightarrow> wheel option) \<Rightarrow> nat \<Rightarrow> nat \<Rightarrow> ptr \<Rightarrow> wheel \<Rightarrow> wheel option" where
  "check_entry call t mult e w = do {
     let w = upd_timer e (\<lambda>tm. tm\<lparr>tm_ticks := tm_ticks tm - int mult\<rparr>) w;
     if tm_ticks (w_timers w e) \<le> 0 then do {
       l \<leftarrow> ls_remove e (w_lists w ! t);
       let w = upd_tlist t l w;
       let w = upd_timer e (\<lambda>tm. tm\<lparr>tm_level := -1\<rparr>) w;
       w \<leftarrow> call e (w\<lparr>w_fired := w_fired w @ [e]\<rparr>);
       if tm_mode (w_timers w e) = TIMER_MODE_PERIODIC
       then add_timer e (upd_timer e (\<lambda>tm. tm\<lparr>tm_ticks := int (tm_initial_ticks tm)\<rparr>) w)
       else Some w }
     else if tm_ticks (w_timers w e) < int mult then do {
       l \<leftarrow> ls_remove e (w_lists w ! t);
       let w = upd_tlist t l w;
       let w = upd_timer e (\<lambda>tm. tm\<lparr>tm_level := -1\<rparr>) w;
       add_timer e w }
     else Some w }"

text \<open>The inner loop reads the next entry before it handles the current one. The end of the
  list is NULL; the fuel bounds the rounds.\<close>

fun entry_loop ::
  "(ptr \<Rightarrow> wheel \<Rightarrow> wheel option) \<Rightarrow> nat \<Rightarrow> nat \<Rightarrow> nat \<Rightarrow> ptr \<Rightarrow> wheel \<Rightarrow> wheel option" where
  "entry_loop call 0 t mult entry w = (if entry = NULL then Some w else None)"
| "entry_loop call (Suc fuel) t mult entry w =
     (if entry = NULL then Some w
      else do {
        let next = ls_next NULL (w_lists w ! t) entry;
        w \<leftarrow> check_entry call t mult entry w;
        entry_loop call fuel t mult next w })"

function level_loop :: "(ptr \<Rightarrow> wheel \<Rightarrow> wheel option) \<Rightarrow> nat \<Rightarrow> nat \<Rightarrow> wheel \<Rightarrow> wheel option" where
  "level_loop call t mult w =
     (if (mult = 1 \<or> w_counter w mod mult = 0) \<and> t < TIMER_LEVELS then do {
        w \<leftarrow> (if w_lists w ! t \<noteq> []
              then entry_loop call (length (w_lists w ! t)) t mult (hd (w_lists w ! t)) w
              else Some w);
        level_loop call (t + 1) (mult * TIMER_LEVEL_SIZE) w }
      else Some w)"
  by auto
termination by (relation "measure (\<lambda>(call, t, mult, w). TIMER_LEVELS - t)") auto

declare level_loop.simps [simp del]

definition check_timers :: "(ptr \<Rightarrow> wheel \<Rightarrow> wheel option) \<Rightarrow> wheel \<Rightarrow> wheel option" where
  "check_timers call w = level_loop call 0 1 w"

text \<open>The part of the current thread and scheduler state that a tick changes.\<close>

record tick_state =
  tk_wheel :: wheel
  tk_min_time :: nat
  tk_time :: nat
  tk_reschedule :: bool

definition timer_tick :: "(ptr \<Rightarrow> wheel \<Rightarrow> wheel option) \<Rightarrow> tick_state \<Rightarrow> tick_state option" where
  "timer_tick call s = do {
     let w = tk_wheel s;
     let w = w\<lparr>w_counter := w_counter w + 1\<rparr>;
     w \<leftarrow> check_timers call w;
     let s = s\<lparr>tk_wheel := w\<rparr>;
     let s = (if tk_min_time s = tk_time s then s\<lparr>tk_min_time := tk_min_time s + 1\<rparr> else s);
     let s = s\<lparr>tk_time := tk_time s + 1\<rparr>;
     Some (if w_counter w mod 100 = 0 then s\<lparr>tk_reschedule := True\<rparr> else s) }"

definition timer_init :: "(ptr \<Rightarrow> timer) \<Rightarrow> wheel" where
  "timer_init tm = \<lparr>w_counter = 0, w_lists = replicate TIMER_LEVELS [], w_timers = tm, w_fired = []\<rparr>"

section \<open>Levels\<close>

lemma add_level_shift: "add_level i k t = t + add_level i k 0"
proof (induction i arbitrary: k t)
  case (Suc i)
  then show ?case by (metis add.assoc add.commute add_level.simps(2) add.right_neutral)
qed simp

lemma add_level_range:
  "1 \<le> k \<Longrightarrow> k < 64 ^ (i + 1) \<Longrightarrow>
   64 ^ add_level i k 0 \<le> k \<and> k < 64 ^ (add_level i k 0 + 1) \<and> add_level i k 0 \<le> i"
proof (induction i arbitrary: k)
  case (Suc i)
  show ?case
  proof (cases "k \<ge> 64")
    case True
    let ?l = "add_level i (k div 64) 0"
    have "1 \<le> k div 64" "k div 64 < 64 ^ (i + 1)" using True Suc.prems by auto
    then have "64 ^ ?l \<le> k div 64" "k div 64 < 64 ^ (?l + 1)" "?l \<le> i" using Suc.IH by blast+
    then have "64 ^ ?l * 64 \<le> k" "k < 64 ^ (?l + 1) * 64" "?l \<le> i"
      by (simp_all add: less_eq_div_iff_mult_less_eq div_less_iff_less_mult)
    moreover have "add_level (Suc i) k 0 = Suc ?l"
      using True add_level_shift [of i "k div 64" 1] by (simp add: TIMER_LEVEL_SIZE_def)
    ultimately show ?thesis by (simp add: mult.commute)
  qed (use Suc.prems in \<open>simp add: TIMER_LEVEL_SIZE_def\<close>)
qed simp

definition lvl :: "nat \<Rightarrow> nat" where
  "lvl k = add_level TIMER_LEVELS k 0"

lemma lvl_range:
  assumes "1 \<le> k" "k < 64 ^ 8"
  shows "64 ^ lvl k \<le> k" "k < 64 ^ (lvl k + 1)" "lvl k < 8"
proof -
  have "k < 64 ^ (8 + 1)" using assms(2) by simp
  with add_level_range [of k 8] assms(1) show "64 ^ lvl k \<le> k" "k < 64 ^ (lvl k + 1)"
    by (auto simp: lvl_def TIMER_LEVELS_def)
  show "lvl k < 8"
  proof (rule ccontr)
    assume "\<not> lvl k < 8"
    then have "(64 :: nat) ^ 8 \<le> 64 ^ lvl k" by (intro power_increasing) auto
    with \<open>64 ^ lvl k \<le> k\<close> assms(2) show False by simp
  qed
qed

section \<open>Invariant\<close>

definition in_level :: "wheel \<Rightarrow> nat \<Rightarrow> ptr \<Rightarrow> bool" where
  "in_level w t e \<longleftrightarrow> t < 8 \<and> e \<in> set (w_lists w ! t)"

definition in_wheel :: "wheel \<Rightarrow> ptr \<Rightarrow> bool" where
  "in_wheel w e \<longleftrightarrow> (\<exists>t. in_level w t e)"

abbreviation left :: "wheel \<Rightarrow> ptr \<Rightarrow> nat" where
  "left w e \<equiv> nat (tm_ticks (w_timers w e))"

abbreviation level :: "wheel \<Rightarrow> ptr \<Rightarrow> nat" where
  "level w e \<equiv> nat (tm_level (w_timers w e))"

text \<open>All timers are one-shot; each is in the list of its level, and has as many ticks left as
  that level says.\<close>

definition timer_ok :: "nat \<Rightarrow> timer \<Rightarrow> bool" where
  "timer_ok t tm \<longleftrightarrow> tm_level tm = int t \<and> tm_mode tm = TIMER_MODE_ONESHOT \<and>
     64 ^ t \<le> nat (tm_ticks tm) \<and> nat (tm_ticks tm) < 64 ^ (t + 1)"

definition w_inv :: "wheel \<Rightarrow> bool" where
  "w_inv w \<longleftrightarrow> length (w_lists w) = 8 \<and>
     (\<forall>t < 8. distinct (w_lists w ! t) \<and> NULL \<notin> set (w_lists w ! t)) \<and>
     (\<forall>t e. in_level w t e \<longrightarrow> timer_ok t (w_timers w e))"

lemma wheel_simps [simp]:
  "w_timers (upd_timer e f w) = (w_timers w)(e := f (w_timers w e))"
  "w_lists (upd_timer e f w) = w_lists w" "w_counter (upd_timer e f w) = w_counter w"
  "w_fired (upd_timer e f w) = w_fired w"
  "w_timers (upd_tlist t l w) = w_timers w" "w_lists (upd_tlist t l w) = (w_lists w)[t := l]"
  "w_counter (upd_tlist t l w) = w_counter w" "w_fired (upd_tlist t l w) = w_fired w"
  by (simp_all add: upd_timer_def upd_tlist_def)

lemma timer_ok_pos: "timer_ok t tm \<Longrightarrow> 0 < tm_ticks tm"
proof -
  assume "timer_ok t tm"
  then have "64 ^ t \<le> nat (tm_ticks tm)" by (simp add: timer_ok_def)
  moreover have "0 < (64 :: nat) ^ t" by simp
  ultimately show ?thesis by linarith
qed

lemma in_level_unique: "w_inv w \<Longrightarrow> in_level w t e \<Longrightarrow> in_level w s e \<Longrightarrow> s = t"
  unfolding w_inv_def timer_ok_def by (metis of_nat_eq_iff)

lemma in_wheel_level: "w_inv w \<Longrightarrow> in_wheel w e \<Longrightarrow> in_level w (level w e) e"
  by (auto simp: w_inv_def timer_ok_def in_wheel_def)

text \<open>Taking a timer out of its list, and putting one that is in no list into the list of the
  ticks it has left.\<close>

lemma take_out:
  fixes f :: "timer \<Rightarrow> timer"
  assumes "w_inv w" "in_level w t e"
  defines "w' \<equiv> upd_timer e f (upd_tlist t (remove1 e (w_lists w ! t)) w)"
  shows "w_inv w'" "\<not> in_wheel w' e" "\<And>x s. x \<noteq> e \<Longrightarrow> in_level w' s x = in_level w s x"
proof -
  have len: "length (w_lists w) = 8" using assms(1) by (simp add: w_inv_def)
  have other: "in_level w' s x = in_level w s x" if "x \<noteq> e" for x s
    using that len by (cases "s = t") (auto simp: in_level_def w'_def)
  then show "\<And>x s. x \<noteq> e \<Longrightarrow> in_level w' s x = in_level w s x" .
  have gone: "\<not> in_level w' s e" for s
  proof
    assume i: "in_level w' s e"
    show False
    proof (cases "s = t")
      case True
      with i len assms(1,2) show False by (auto simp: in_level_def w'_def w_inv_def)
    next
      case False
      with i have "in_level w s e" by (simp add: in_level_def w'_def)
      with False in_level_unique [OF assms(1,2)] show False by simp
    qed
  qed
  then show "\<not> in_wheel w' e" by (simp add: in_wheel_def)
  have "timer_ok s (w_timers w' x)" if "in_level w' s x" for s x
    using that gone [of s] other [of x s] assms(1) by (cases "x = e") (auto simp: w'_def w_inv_def)
  moreover have "distinct (w_lists w' ! s) \<and> NULL \<notin> set (w_lists w' ! s)" if "s < 8" for s
    using that assms(1) len by (cases "s = t") (auto simp: w'_def w_inv_def dest: notin_set_remove1)
  ultimately show "w_inv w'" using len by (simp add: w_inv_def) (simp add: w'_def)
qed

lemma put_in:
  assumes "w_inv w" "\<not> in_wheel w e" "e \<noteq> NULL" "tm_mode (w_timers w e) = TIMER_MODE_ONESHOT"
    "1 \<le> left w e" "left w e < 64 ^ 8"
  shows "\<exists>w'. add_timer e w = Some w' \<and> w_inv w' \<and> in_level w' (lvl (left w e)) e \<and>
    left w' e = left w e \<and> level w' e = lvl (left w e) \<and>
    (\<forall>x s. x \<noteq> e \<longrightarrow> in_level w' s x = in_level w s x \<and> w_timers w' x = w_timers w x) \<and>
    (\<forall>s. s \<noteq> lvl (left w e) \<longrightarrow> w_lists w' ! s = w_lists w ! s) \<and>
    w_counter w' = w_counter w \<and> w_fired w' = w_fired w"
proof -
  let ?l = "lvl (left w e)"
  have len: "length (w_lists w) = 8" using assms(1) by (simp add: w_inv_def)
  note r = lvl_range [OF assms(5,6)]
  define w' where "w' = upd_timer e (\<lambda>tm. tm\<lparr>tm_level := int ?l\<rparr>) (upd_tlist ?l (e # w_lists w ! ?l) w)"
  have eq: "add_timer e w = Some w'" using r len by (simp add: add_timer_def lvl_def w'_def Let_def)
  have other: "in_level w' s x = in_level w s x" if "x \<noteq> e" for x s
    using that len r by (cases "s = ?l") (auto simp: in_level_def w'_def)
  have at: "in_level w' s e \<longleftrightarrow> s = ?l" for s
    using assms(2) len r by (cases "s = ?l") (auto simp: in_level_def in_wheel_def w'_def)
  have "timer_ok ?l (w_timers w' e)" using assms r by (simp add: timer_ok_def w'_def)
  then have "timer_ok s (w_timers w' x)" if "in_level w' s x" for s x
    using that at other [of x s] assms(1) by (cases "x = e") (auto simp: w'_def w_inv_def)
  moreover have "distinct (w_lists w' ! s) \<and> NULL \<notin> set (w_lists w' ! s)" if "s < 8" for s
    using that assms(1-3) len r
    by (cases "s = ?l") (auto simp: w'_def w_inv_def in_wheel_def in_level_def)
  ultimately have "w_inv w'" using len by (simp add: w_inv_def) (simp add: w'_def)
  with eq other at show ?thesis by (simp add: w'_def)
qed

section \<open>One round of the wheel\<close>

text \<open>What handling a timer of level \<open>t\<close> does to it.\<close>

definition outcome :: "nat \<Rightarrow> wheel \<Rightarrow> wheel \<Rightarrow> ptr \<Rightarrow> bool" where
  "outcome t w w' e \<longleftrightarrow>
     (if left w e = 64 ^ t then \<not> in_wheel w' e
      else in_wheel w' e \<and> level w' e \<le> t \<and> left w' e = left w e - 64 ^ t)"

definition unchanged :: "wheel \<Rightarrow> wheel \<Rightarrow> ptr \<Rightarrow> bool" where
  "unchanged w w' x \<longleftrightarrow> (\<forall>s. in_level w' s x = in_level w s x) \<and> w_timers w' x = w_timers w x"

abbreviation quiet :: "ptr \<Rightarrow> wheel \<Rightarrow> wheel option" where
  "quiet \<equiv> \<lambda>e w. Some w"

lemma pow64_mono: "s \<le> t \<Longrightarrow> (64 :: nat) ^ s \<le> 64 ^ t"
  by (intro power_increasing) auto

lemma check_entry_ok:
  assumes inv: "w_inv w" and e: "in_level w t e"
  shows "\<exists>w'. check_entry quiet t (64 ^ t) e w = Some w' \<and> w_inv w' \<and> w_counter w' = w_counter w \<and>
    (\<forall>x. x \<noteq> e \<longrightarrow> unchanged w w' x) \<and> outcome t w w' e \<and>
    w_fired w' = w_fired w @ (if left w e = 64 ^ t then [e] else []) \<and>
    w_lists w' ! t \<in> {w_lists w ! t, remove1 e (w_lists w ! t)}"
proof -
  have ok: "timer_ok t (w_timers w e)" and t: "t < 8" and len: "length (w_lists w) = 8"
    and el: "e \<in> set (w_lists w ! t)" and nz: "e \<noteq> NULL"
    using inv e by (auto simp: w_inv_def in_level_def) (metis gr0I)
  have k: "64 ^ t \<le> left w e" "left w e < 64 ^ (t + 1)" "0 < tm_ticks (w_timers w e)"
    "tm_mode (w_timers w e) = TIMER_MODE_ONESHOT"
    using ok timer_ok_pos [OF ok] by (auto simp: timer_ok_def)
  have sub: "tm_ticks (w_timers w e) - int (64 ^ t) = int (left w e - 64 ^ t)"
    using k by simp
  let ?w1 = "upd_timer e (\<lambda>tm. tm\<lparr>tm_ticks := tm_ticks tm - int (64 ^ t)\<rparr>) w"
  let ?f = "\<lambda>tm :: timer. tm\<lparr>tm_ticks := tm_ticks tm - int (64 ^ t), tm_level := -1\<rparr>"
  define w2 where "w2 = upd_timer e ?f (upd_tlist t (remove1 e (w_lists w ! t)) w)"
  have w2: "w_inv w2" "\<not> in_wheel w2 e" "\<And>x s. x \<noteq> e \<Longrightarrow> in_level w2 s x = in_level w s x"
    using take_out [OF inv e, where f = ?f] by (simp_all add: w2_def)
  have w2': "upd_timer e (\<lambda>tm. tm\<lparr>tm_level := -1\<rparr>) (upd_tlist t (remove1 e (w_lists w ! t)) ?w1) = w2"
    by (simp add: w2_def upd_timer_def upd_tlist_def)
  consider "left w e = 64 ^ t" | "64 ^ t < left w e" "left w e - 64 ^ t < 64 ^ t" | "64 ^ t \<le> left w e - 64 ^ t"
    using k by linarith
  then show ?thesis
  proof cases
    case 1
    let ?w3 = "w2\<lparr>w_fired := w_fired w2 @ [e]\<rparr>"
    have "check_entry quiet t (64 ^ t) e w = Some ?w3"
      using 1 k el sub w2' by (simp add: check_entry_def Let_def) (simp add: w2_def)
    moreover have "in_level ?w3 = in_level w2" by (simp add: in_level_def fun_eq_iff)
    moreover from this have "in_wheel ?w3 = in_wheel w2" "w_inv ?w3 = w_inv w2"
      by (simp_all add: in_wheel_def w_inv_def fun_eq_iff)
    ultimately show ?thesis using w2 1 len t by (auto simp: outcome_def unchanged_def) (simp_all add: w2_def)
  next
    case 2
    have "tm_ticks (w_timers w2 e) = tm_ticks (w_timers w e) - int (64 ^ t)" by (simp add: w2_def)
    then have l2: "left w2 e = left w e - 64 ^ t" by (simp only: sub nat_int)
    have "64 ^ t \<le> (64 :: nat) ^ 8" using t by (intro pow64_mono) simp
    then have "left w2 e < 64 ^ 8" "1 \<le> left w2 e" using l2 2 by linarith+
    with put_in [OF w2(1,2) nz] k(4) obtain w' where
      w': "add_timer e w2 = Some w'" "w_inv w'" "in_level w' (lvl (left w2 e)) e" "left w' e = left w2 e"
        "level w' e = lvl (left w2 e)"
        "\<forall>x s. x \<noteq> e \<longrightarrow> in_level w' s x = in_level w2 s x \<and> w_timers w' x = w_timers w2 x"
        "\<forall>s. s \<noteq> lvl (left w2 e) \<longrightarrow> w_lists w' ! s = w_lists w2 ! s"
        "w_counter w' = w_counter w2" "w_fired w' = w_fired w2" by (auto simp: w2_def)
    have lt: "lvl (left w2 e) < t"
    proof (rule ccontr)
      assume "\<not> lvl (left w2 e) < t"
      then have "(64 :: nat) ^ t \<le> 64 ^ lvl (left w2 e)" by (intro pow64_mono) simp
      with lvl_range(1) [of "left w2 e"] \<open>left w2 e < 64 ^ 8\<close> \<open>1 \<le> left w2 e\<close> l2 2 show False by linarith
    qed
    have "0 < tm_ticks (w_timers w e) - int (64 ^ t)" "tm_ticks (w_timers w e) - int (64 ^ t) < int (64 ^ t)"
      using 2 sub by linarith+
    then have "check_entry quiet t (64 ^ t) e w = Some w'"
      using el w2' w'(1) by (simp add: check_entry_def Let_def)
    moreover have "w_lists w' ! t = remove1 e (w_lists w ! t)" using w'(7) lt len t by (simp add: w2_def)
    moreover have "\<forall>x. x \<noteq> e \<longrightarrow> unchanged w w' x" using w'(6) w2(3) by (simp add: unchanged_def) (simp add: w2_def)
    moreover have "outcome t w w' e" using w' lt l2 2 by (auto simp: outcome_def in_wheel_def)
    ultimately show ?thesis using w' 2 by (simp add: w2_def)
  next
    case 3
    have lv: "in_level ?w1 = in_level w" by (simp add: in_level_def fun_eq_iff)
    have "tm_ticks (w_timers ?w1 e) = tm_ticks (w_timers w e) - int (64 ^ t)" by simp
    then have l1: "left ?w1 e = left w e - 64 ^ t" by (simp only: sub nat_int)
    have "64 ^ t \<le> left ?w1 e" "left ?w1 e < 64 ^ (t + 1)" unfolding l1 using 3 k(2) by linarith+
    then have ok1: "timer_ok t (w_timers ?w1 e)" using ok unfolding timer_ok_def by simp
    have "timer_ok s (w_timers ?w1 x)" if "in_level w s x" for s x
    proof (cases "x = e")
      case True
      then show ?thesis using ok1 in_level_unique [OF inv e, of s] that by simp
    next
      case False
      then show ?thesis using inv that by (simp add: w_inv_def)
    qed
    then have "w_inv ?w1" using inv unfolding w_inv_def lv by simp
    moreover have "0 < tm_ticks (w_timers w e) - int (64 ^ t)" "int (64 ^ t) \<le> tm_ticks (w_timers w e) - int (64 ^ t)"
      using 3 sub zero_less_power [of "64 :: nat" t] by linarith+
    then have "check_entry quiet t (64 ^ t) e w = Some ?w1"
      by (simp add: check_entry_def Let_def)
    moreover have ne: "left w e \<noteq> 64 ^ t" using 3 zero_less_power [of "64 :: nat" t] by linarith
    moreover have "outcome t w ?w1 e"
      unfolding outcome_def l1 using ne e lv ok by (auto simp: in_wheel_def timer_ok_def)
    ultimately show ?thesis using lv by (auto simp: unchanged_def)
  qed
qed

lemma unchangedD:
  assumes "unchanged w w' x"
  shows "in_wheel w' x = in_wheel w x" "left w' x = left w x" "level w' x = level w x"
    "in_level w' s x = in_level w s x"
  using assms by (simp_all add: unchanged_def in_wheel_def)

lemma unchanged_trans: "unchanged w w' x \<Longrightarrow> unchanged w' w'' x \<Longrightarrow> unchanged w w'' x"
  by (simp add: unchanged_def)

lemma outcome_left: "unchanged w w1 x \<Longrightarrow> outcome t w1 w' x \<Longrightarrow> outcome t w w' x"
  using unchangedD(2) [of w w1 x] by (simp add: outcome_def)

lemma outcome_right: "outcome t w w1 x \<Longrightarrow> unchanged w1 w' x \<Longrightarrow> outcome t w w' x"
  using unchangedD [of w1 w' x] by (simp add: outcome_def)

lemma outcomeD:
  assumes "outcome t w w' x"
  shows "in_wheel w' x \<longleftrightarrow> left w x \<noteq> 64 ^ t"
    "in_wheel w' x \<Longrightarrow> level w' x \<le> t \<and> left w' x = left w x - 64 ^ t"
  using assms by (auto simp only: outcome_def split: if_splits)

lemma entry_loop_ok:
  "w_inv w \<Longrightarrow> t < 8 \<Longrightarrow> w_lists w ! t = as @ rest \<Longrightarrow> length rest \<le> fuel \<Longrightarrow>
   \<exists>w'. entry_loop quiet fuel t (64 ^ t) (hd (rest @ [NULL])) w = Some w' \<and> w_inv w' \<and>
     w_counter w' = w_counter w \<and> (\<forall>x. x \<notin> set rest \<longrightarrow> unchanged w w' x) \<and>
     (\<forall>x \<in> set rest. outcome t w w' x) \<and>
     w_fired w' = w_fired w @ filter (\<lambda>e. left w e = 64 ^ t) rest"
proof (induction rest arbitrary: w as fuel)
  case Nil
  then show ?case by (cases fuel) (auto simp: unchanged_def)
next
  case (Cons e r)
  obtain f where f: "fuel = Suc f" "length r \<le> f" using Cons.prems(4) by (cases fuel) auto
  have e: "in_level w t e" using Cons.prems by (simp add: in_level_def)
  have "distinct (w_lists w ! t)" "NULL \<notin> set (w_lists w ! t)"
    using Cons.prems(1,2) by (simp_all add: w_inv_def)
  then have d: "distinct (as @ e # r)" "e \<noteq> NULL" using Cons.prems(3) by auto
  obtain w1 where w1: "check_entry quiet t (64 ^ t) e w = Some w1" "w_inv w1" "w_counter w1 = w_counter w"
    "\<forall>x. x \<noteq> e \<longrightarrow> unchanged w w1 x" "outcome t w w1 e"
    "w_fired w1 = w_fired w @ (if left w e = 64 ^ t then [e] else [])"
    "w_lists w1 ! t \<in> {w_lists w ! t, remove1 e (w_lists w ! t)}"
    using check_entry_ok [OF Cons.prems(1) e] by blast
  have "remove1 e (as @ e # r) = as @ r" using d by (simp add: remove1_append)
  with w1(7) Cons.prems(3) obtain as' where as': "w_lists w1 ! t = as' @ r"
    by (metis append.assoc append_Cons append_Nil insert_iff singletonD)
  obtain w' where w': "entry_loop quiet f t (64 ^ t) (hd (r @ [NULL])) w1 = Some w'" "w_inv w'"
    "w_counter w' = w_counter w1" "\<forall>x. x \<notin> set r \<longrightarrow> unchanged w1 w' x" "\<forall>x \<in> set r. outcome t w1 w' x"
    "w_fired w' = w_fired w1 @ filter (\<lambda>e. left w1 e = 64 ^ t) r"
    using Cons.IH [OF w1(2) Cons.prems(2) as' f(2)] by blast
  have er: "e \<notin> set r" using d by simp
  have "entry_loop quiet fuel t (64 ^ t) (hd ((e # r) @ [NULL])) w = Some w'"
    using f d w1(1) w'(1) ls_next_split [OF d(1), of NULL] Cons.prems(3)
    by (simp add: Let_def del: hd_append_single)
  moreover have "outcome t w w' x" if "x \<in> set (e # r)" for x
  proof (cases "x = e")
    case True
    then show ?thesis using outcome_right [OF w1(5)] w'(4) er by simp
  next
    case False
    then show ?thesis using outcome_left w1(4) w'(5) that by (metis set_ConsD)
  qed
  moreover have "unchanged w w' x" if "x \<notin> set (e # r)" for x
    using that w1(4) w'(4) unchanged_trans by (metis list.set_intros)
  moreover have "filter (\<lambda>e. left w1 e = 64 ^ t) r = filter (\<lambda>e. left w e = 64 ^ t) r"
    using w1(4) er unchangedD(2) by (intro filter_cong) metis+
  ultimately show ?case using w'(2,3,6) w1(3,6) by (intro exI [of _ w']) simp
qed

section \<open>Deadlines\<close>

text \<open>The tick at which a timer of the wheel expires.\<close>

definition deadline :: "wheel \<Rightarrow> ptr \<Rightarrow> nat" where
  "deadline w e = w_counter w + left w e - w_counter w mod 64 ^ level w e"

text \<open>The same while the counter has been advanced and the timer not yet been handled.\<close>

definition due :: "wheel \<Rightarrow> ptr \<Rightarrow> nat" where
  "due w e = (if w_counter w mod 64 ^ level w e = 0 then w_counter w + left w e - 64 ^ level w e
              else deadline w e)"

lemma in_wheelD:
  assumes "w_inv w" "in_wheel w e"
  shows "level w e < 8" "64 ^ level w e \<le> left w e"
proof -
  note l = in_wheel_level [OF assms]
  then show "level w e < 8" by (simp add: in_level_def)
  have "timer_ok (level w e) (w_timers w e)" using l assms(1) unfolding w_inv_def by blast
  then show "64 ^ level w e \<le> left w e" unfolding timer_ok_def by blast
qed

lemma mod_pow_dvd: "s \<le> t \<Longrightarrow> c mod 64 ^ t = 0 \<Longrightarrow> c mod 64 ^ s = (0 :: nat)"
  by (metis dvd_eq_mod_eq_0 dvd_trans le_imp_power_dvd)

lemma deadline_future: "w_inv w \<Longrightarrow> in_wheel w e \<Longrightarrow> w_counter w < deadline w e"
proof -
  assume "w_inv w" "in_wheel w e"
  then have "64 ^ level w e \<le> left w e" by (rule in_wheelD)
  moreover have "w_counter w mod 64 ^ level w e < 64 ^ level w e" by simp
  ultimately show ?thesis unfolding deadline_def by linarith
qed

lemma deadline_eq:
  "w_counter w' = w_counter w \<Longrightarrow> unchanged w w' x \<Longrightarrow> deadline w' x = deadline w x \<and> due w' x = due w x"
  using unchangedD(2,3) by (simp add: deadline_def due_def)

lemma level_loop_ok:
  "w_inv w \<Longrightarrow> t \<le> 8 \<Longrightarrow>
   \<exists>w' fs. level_loop quiet t (64 ^ t) w = Some w' \<and> w_inv w' \<and> w_counter w' = w_counter w \<and>
     w_fired w' = w_fired w @ fs \<and> distinct fs \<and>
     set fs = {x. in_wheel w x \<and> t \<le> level w x \<and> due w x = w_counter w} \<and>
     (\<forall>x. in_wheel w' x \<longleftrightarrow> in_wheel w x \<and> x \<notin> set fs) \<and>
     (\<forall>x. in_wheel w' x \<longrightarrow> deadline w' x = (if level w x < t then deadline w x else due w x))"
proof (induction "8 - t" arbitrary: t w)
  case 0
  then have t: "t = 8" by simp
  have "\<not> (in_wheel w x \<and> 8 \<le> level w x)" for x using in_wheelD(1) [OF 0(2)] by (meson not_le)
  moreover have "level_loop quiet t (64 ^ t) w = Some w"
    using t by (subst level_loop.simps) (simp add: TIMER_LEVELS_def)
  ultimately show ?case using t 0(2) by (intro exI [of _ w] exI [of _ "[]"]) (auto simp: not_le)
next
  case (Suc n)
  let ?c = "w_counter w"
  have t: "t < 8" using Suc.hyps(2) by simp
  show ?case
  proof (cases "?c mod 64 ^ t = 0")
    case False
    have t0: "t \<noteq> 0" using False by (cases t) auto
    then have "(64 :: nat) ^ t \<noteq> 1" by simp
    with False have eq: "level_loop quiet t (64 ^ t) w = Some w" by (subst level_loop.simps) simp
    have "due w x = deadline w x" if "t \<le> level w x" for x
      using False mod_pow_dvd [OF that, of ?c] by (auto simp: due_def)
    moreover have "deadline w x \<noteq> ?c" if "in_wheel w x" for x
      using deadline_future [OF Suc.prems(1) that] by simp
    ultimately show ?thesis using eq Suc.prems(1)
      by (intro exI [of _ w] exI [of _ "[]"]) (auto simp: not_less)
  next
    case True
    let ?l = "w_lists w ! t"
    let ?w1 = "if ?l \<noteq> [] then entry_loop quiet (length ?l) t (64 ^ t) (hd ?l) w else Some w"
    have "entry_loop quiet (length ?l) t (64 ^ t) (hd (?l @ [NULL])) w = ?w1"
      by (cases ?l) simp_all
    with entry_loop_ok [OF Suc.prems(1) t, of "[]" ?l "length ?l"] obtain w1 where
      w1: "?w1 = Some w1" "w_inv w1" "w_counter w1 = ?c" "\<forall>x. x \<notin> set ?l \<longrightarrow> unchanged w w1 x"
        "\<forall>x \<in> set ?l. outcome t w w1 x" "w_fired w1 = w_fired w @ filter (\<lambda>e. left w e = 64 ^ t) ?l"
      by auto
    have "n = 8 - (t + 1)" "t + 1 \<le> 8" using Suc.hyps(2) t by simp_all
    from Suc.hyps(1) [OF this(1) w1(2) this(2)]
    obtain w' fs where w': "level_loop quiet (t + 1) (64 ^ (t + 1)) w1 = Some w'" "w_inv w'"
      "w_counter w' = w_counter w1" "w_fired w' = w_fired w1 @ fs" "distinct fs"
      "set fs = {x. in_wheel w1 x \<and> t + 1 \<le> level w1 x \<and> due w1 x = w_counter w1}"
      "\<forall>x. in_wheel w' x \<longleftrightarrow> in_wheel w1 x \<and> x \<notin> set fs"
      "\<forall>x. in_wheel w' x \<longrightarrow> deadline w' x = (if level w1 x < t + 1 then deadline w1 x else due w1 x)"
      by blast
    have eq: "level_loop quiet t (64 ^ t) w = Some w'"
    proof -
      have "level_loop quiet t (64 ^ t) w = ?w1 \<bind> level_loop quiet (t + 1) (64 ^ t * TIMER_LEVEL_SIZE)"
        using True t by (subst level_loop.simps) (simp add: TIMER_LEVELS_def)
      then show ?thesis using w1(1) w'(1) by (simp add: TIMER_LEVEL_SIZE_def mult.commute)
    qed
    let ?f = "filter (\<lambda>e. left w e = 64 ^ t) ?l"
    have here: "x \<in> set ?l \<longleftrightarrow> in_wheel w x \<and> level w x = t" for x
      using in_wheel_level [OF Suc.prems(1)] Suc.prems(1) t
      by (auto simp: in_level_def in_wheel_def w_inv_def timer_ok_def)
    have dl: "due w x = ?c + left w x - 64 ^ t" "64 ^ t \<le> left w x" if "x \<in> set ?l" for x
      using that here True in_wheelD(2) [OF Suc.prems(1)] by (auto simp: due_def)
    have gone: "in_wheel w1 x \<longleftrightarrow> in_wheel w x \<and> x \<notin> set ?f" for x
    proof (cases "x \<in> set ?l")
      case True
      then have "in_wheel w1 x \<longleftrightarrow> left w x \<noteq> 64 ^ t" using w1(5) outcomeD(1) by blast
      then show ?thesis using True here [of x] by simp
    next
      case False
      then show ?thesis using w1(4) unchangedD(1) by (metis filter_is_subset subsetD)
    qed
    have low: "x \<in> set ?l \<Longrightarrow> in_wheel w1 x \<Longrightarrow> level w1 x \<le> t \<and> left w1 x = left w x - 64 ^ t" for x
      using w1(5) outcomeD(2) by blast
    have fs: "x \<in> set fs \<longleftrightarrow> in_wheel w x \<and> t + 1 \<le> level w x \<and> due w x = ?c" for x
    proof (cases "x \<in> set ?l")
      case True
      then show ?thesis using w'(6) low [OF True] here by auto
    next
      case False
      then have "unchanged w w1 x" using w1(4) by blast
      then show ?thesis
        using w'(6) w1(3) deadline_eq [of w1 w x] unchangedD(1,3) [of w w1 x] by simp
    qed
    have ff: "x \<in> set ?f \<longleftrightarrow> in_wheel w x \<and> level w x = t \<and> due w x = ?c" for x
    proof -
      have "left w x = 64 ^ t \<longleftrightarrow> due w x = ?c" if "x \<in> set ?l"
        unfolding dl(1) [OF that] using dl(2) [OF that] by linarith
      moreover have "x \<in> set ?f \<longleftrightarrow> x \<in> set ?l \<and> left w x = 64 ^ t" by (simp only: set_filter mem_Collect_eq)
      ultimately show ?thesis using here by blast
    qed
    have dd: "deadline w' x = (if level w x < t then deadline w x else due w x)" if "in_wheel w' x" for x
    proof (cases "x \<in> set ?l")
      case True
      have x1: "in_wheel w1 x" using that w'(7) by blast
      have "?c mod 64 ^ level w1 x = 0" using mod_pow_dvd [of "level w1 x" t ?c] low [OF True x1] \<open>?c mod 64 ^ t = 0\<close> by simp
      then have "deadline w1 x = due w x"
        using low [OF True x1] dl [OF True] w1(3) by (simp add: deadline_def)
      then show ?thesis using w'(8) that low [OF True x1] here True by (simp add: less_Suc_eq_le)
    next
      case False
      then have u: "unchanged w w1 x" using w1(4) by blast
      have "in_wheel w x" using that w'(7) unchangedD(1) [OF u] by blast
      then have "level w x \<noteq> t" using False here by blast
      then show ?thesis
        using w'(8) that deadline_eq [OF w1(3) u] unchangedD(3) [OF u] by (simp add: less_Suc_eq)
    qed
    have "set (?f @ fs) = {x. in_wheel w x \<and> t \<le> level w x \<and> due w x = ?c}"
      using fs ff by (auto simp: not_less_eq_eq [symmetric])
    moreover have "distinct (?f @ fs)"
      using w'(5) fs ff Suc.prems(1) t by (auto simp: w_inv_def)
    moreover have "\<forall>x. in_wheel w' x \<longleftrightarrow> in_wheel w x \<and> x \<notin> set (?f @ fs)"
      using w'(7) gone by auto
    ultimately show ?thesis
      using eq w' w1(3,6) dd by (intro exI [of _ w'] exI [of _ "?f @ fs"]) simp
  qed
qed

lemma check_timers_ok:
  assumes "w_inv w"
  shows "\<exists>w' fs. check_timers quiet w = Some w' \<and> w_inv w' \<and> w_counter w' = w_counter w \<and>
     w_fired w' = w_fired w @ fs \<and> distinct fs \<and> set fs = {x. in_wheel w x \<and> due w x = w_counter w} \<and>
     (\<forall>x. in_wheel w' x \<longleftrightarrow> in_wheel w x \<and> x \<notin> set fs) \<and>
     (\<forall>x. in_wheel w' x \<longrightarrow> deadline w' x = due w x)"
  using level_loop_ok [OF assms, of 0] by (simp only: check_timers_def power_0 le0 not_less0 if_False simp_thms)

lemma due_after_tick:
  assumes "w_inv w" "in_wheel w x"
  shows "due (w\<lparr>w_counter := w_counter w + 1\<rparr>) x = deadline w x"
proof -
  let ?M = "64 ^ level w x" and ?c = "w_counter w"
  have k: "?M \<le> left w x" using in_wheelD(2) [OF assms] .
  have m: "?c mod ?M < ?M" by simp
  show ?thesis
  proof (cases "(?c + 1) mod ?M = 0")
    case True
    then have "?c mod ?M + 1 = ?M" using m by (simp add: mod_Suc split: if_splits)
    with True k show ?thesis by (simp add: due_def deadline_def) (metis Suc_diff_le diff_Suc_Suc trans_le_add2)
  next
    case False
    then have "(?c + 1) mod ?M = ?c mod ?M + 1" by (simp add: mod_Suc split: if_splits)
    with False k m show ?thesis by (simp add: due_def deadline_def)
  qed
qed

lemma in_wheel_counter [simp]:
  "in_wheel (w\<lparr>w_counter := c\<rparr>) = in_wheel w" "in_level (w\<lparr>w_counter := c\<rparr>) = in_level w"
  "w_inv (w\<lparr>w_counter := c\<rparr>) = w_inv w"
  by (simp_all add: in_wheel_def in_level_def w_inv_def fun_eq_iff)

lemma tick_ok:
  assumes "w_inv (tk_wheel s)"
  shows "\<exists>s' fs. timer_tick quiet s = Some s' \<and> w_inv (tk_wheel s') \<and>
    w_counter (tk_wheel s') = w_counter (tk_wheel s) + 1 \<and>
    w_fired (tk_wheel s') = w_fired (tk_wheel s) @ fs \<and> distinct fs \<and>
    set fs = {x. in_wheel (tk_wheel s) x \<and> deadline (tk_wheel s) x = w_counter (tk_wheel s) + 1} \<and>
    (\<forall>x. in_wheel (tk_wheel s') x \<longleftrightarrow>
      in_wheel (tk_wheel s) x \<and> deadline (tk_wheel s) x \<noteq> w_counter (tk_wheel s) + 1) \<and>
    (\<forall>x. in_wheel (tk_wheel s') x \<longrightarrow> deadline (tk_wheel s') x = deadline (tk_wheel s) x)"
proof -
  let ?w = "tk_wheel s"
  define w0 where "w0 = ?w\<lparr>w_counter := w_counter ?w + 1\<rparr>"
  have w0: "w_inv w0" "w_counter w0 = w_counter ?w + 1" "w_fired w0 = w_fired ?w" "in_wheel w0 = in_wheel ?w"
    using assms by (simp_all add: w0_def)
  from check_timers_ok [OF w0(1)] obtain w' fs where
    w': "check_timers quiet w0 = Some w'" "w_inv w'" "w_counter w' = w_counter w0"
      "w_fired w' = w_fired w0 @ fs" "distinct fs"
      "set fs = {x. in_wheel w0 x \<and> due w0 x = w_counter w0}"
      "\<forall>x. in_wheel w' x \<longleftrightarrow> in_wheel w0 x \<and> x \<notin> set fs"
      "\<forall>x. in_wheel w' x \<longrightarrow> deadline w' x = due w0 x" by blast
  note w' = w' [unfolded w0(2-4)]
  have due: "in_wheel ?w x \<Longrightarrow> due w0 x = deadline ?w x" for x
    unfolding w0_def by (rule due_after_tick [OF assms])
  have set: "set fs = {x. in_wheel ?w x \<and> deadline ?w x = w_counter ?w + 1}"
    unfolding w'(6) using due by metis
  obtain s' where s': "timer_tick quiet s = Some s'" "tk_wheel s' = w'"
    using w'(1) by (simp add: timer_tick_def Let_def w0_def)
  have "\<forall>x. in_wheel w' x \<longleftrightarrow> in_wheel ?w x \<and> deadline ?w x \<noteq> w_counter ?w + 1"
    using w'(7) set by blast
  moreover have "\<forall>x. in_wheel w' x \<longrightarrow> deadline w' x = deadline ?w x"
    using w'(7,8) due by metis
  ultimately show ?thesis
    using s' w'(2-5) set by (intro exI [of _ s'] exI [of _ fs]) (simp only: simp_thms)
qed

fun run_ticks :: "(ptr \<Rightarrow> wheel \<Rightarrow> wheel option) \<Rightarrow> nat \<Rightarrow> tick_state \<Rightarrow> tick_state option" where
  "run_ticks call 0 s = Some s"
| "run_ticks call (Suc k) s = do { s \<leftarrow> run_ticks call k s; timer_tick call s }"

lemma run_ticks_ok:
  assumes inv: "w_inv (tk_wheel s)" and e: "in_wheel (tk_wheel s) e"
  shows "\<exists>s' fs. run_ticks quiet k s = Some s' \<and> w_inv (tk_wheel s') \<and>
    w_counter (tk_wheel s') = w_counter (tk_wheel s) + k \<and>
    w_fired (tk_wheel s') = w_fired (tk_wheel s) @ fs \<and>
    (if w_counter (tk_wheel s) + k < deadline (tk_wheel s) e
     then in_wheel (tk_wheel s') e \<and> deadline (tk_wheel s') e = deadline (tk_wheel s) e \<and> count_list fs e = 0
     else \<not> in_wheel (tk_wheel s') e \<and> count_list fs e = 1)"
proof (induction k)
  case 0
  then show ?case using inv e deadline_future [OF inv e] by simp
next
  case (Suc k)
  let ?w = "tk_wheel s" and ?d = "deadline (tk_wheel s) e"
  from Suc.IH obtain s1 fs1 where s1: "run_ticks quiet k s = Some s1" "w_inv (tk_wheel s1)"
    "w_counter (tk_wheel s1) = w_counter ?w + k" "w_fired (tk_wheel s1) = w_fired ?w @ fs1"
    "if w_counter ?w + k < ?d
     then in_wheel (tk_wheel s1) e \<and> deadline (tk_wheel s1) e = ?d \<and> count_list fs1 e = 0
     else \<not> in_wheel (tk_wheel s1) e \<and> count_list fs1 e = 1" by blast
  from tick_ok [OF s1(2)] obtain s2 fs2 where s2: "timer_tick quiet s1 = Some s2" "w_inv (tk_wheel s2)"
    "w_counter (tk_wheel s2) = w_counter (tk_wheel s1) + 1"
    "w_fired (tk_wheel s2) = w_fired (tk_wheel s1) @ fs2" "distinct fs2"
    "set fs2 = {x. in_wheel (tk_wheel s1) x \<and> deadline (tk_wheel s1) x = w_counter (tk_wheel s1) + 1}"
    "\<forall>x. in_wheel (tk_wheel s2) x \<longleftrightarrow>
      in_wheel (tk_wheel s1) x \<and> deadline (tk_wheel s1) x \<noteq> w_counter (tk_wheel s1) + 1"
    "\<forall>x. in_wheel (tk_wheel s2) x \<longrightarrow> deadline (tk_wheel s2) x = deadline (tk_wheel s1) x" by blast
  have c2: "count_list fs2 e = (if e \<in> set fs2 then 1 else 0)"
    using s2(5) by (induction fs2) auto
  have "if w_counter ?w + Suc k < ?d
     then in_wheel (tk_wheel s2) e \<and> deadline (tk_wheel s2) e = ?d \<and> count_list (fs1 @ fs2) e = 0
     else \<not> in_wheel (tk_wheel s2) e \<and> count_list (fs1 @ fs2) e = 1"
    using s1(3,5) s2(6-8) c2 by (auto split: if_splits)
  with s1 s2(1-4) show ?case by (intro exI [of _ s2] exI [of _ "fs1 @ fs2"]) simp
qed

lemma timer_add_ok:
  assumes "w_inv w" "\<not> in_wheel w e" "e \<noteq> NULL" "1 \<le> n" "n < 64 ^ 8"
  shows "\<exists>w'. timer_add_locked e TIMER_MODE_ONESHOT n w = Some w' \<and> w_inv w' \<and> in_wheel w' e \<and>
    deadline w' e = w_counter w + n - w_counter w mod 64 ^ lvl n \<and> w_counter w' = w_counter w"
proof -
  let ?w = "upd_timer e (\<lambda>tm. tm\<lparr>tm_ticks := int n, tm_initial_ticks := n, tm_mode := TIMER_MODE_ONESHOT\<rparr>) w"
  have lv: "in_level ?w = in_level w" by (simp add: in_level_def fun_eq_iff)
  have iw: "in_wheel ?w = in_wheel w" by (simp add: in_wheel_def lv fun_eq_iff)
  have "timer_ok t (w_timers ?w x)" if "in_level w t x" for t x
    using that assms(1,2) by (cases "x = e") (auto simp: w_inv_def in_wheel_def)
  then have "w_inv ?w" using assms(1) by (simp add: w_inv_def lv)
  from put_in [OF this, of e] assms iw obtain w' where
    "add_timer e ?w = Some w'" "w_inv w'" "in_level w' (lvl n) e" "left w' e = n" "level w' e = lvl n"
    "w_counter w' = w_counter w" by auto
  then show ?thesis by (auto simp: timer_add_locked_def deadline_def in_wheel_def)
qed

section \<open>Properties\<close>


definition wheel0 :: wheel where
  "wheel0 = timer_init (\<lambda>_. \<lparr>tm_initial_ticks = 0, tm_ticks = 0, tm_level = -1, tm_mode = TIMER_MODE_ONESHOT\<rparr>)"

definition tick0 :: tick_state where
  "tick0 = \<lparr>tk_wheel = wheel0, tk_min_time = 0, tk_time = 0, tk_reschedule = False\<rparr>"

lemma wheel0_inv: "w_inv wheel0" "\<not> in_wheel wheel0 e" "w_counter wheel0 = 0"
  by (auto simp: w_inv_def in_wheel_def in_level_def wheel0_def timer_init_def TIMER_LEVELS_def)




text \<open>Ticks of \<open>64 ^ 8\<close> and more select a list past the end of the array.\<close>

lemma timer_add_overrun: "timer_add_locked e mode (64 ^ 8) wheel0 = None"
proof -
  have "add_level i (64 ^ i) 0 = i" for i
  proof (induction i)
    case (Suc i)
    have "(64 :: nat) \<le> 64 ^ Suc i" by simp
    then show ?case using Suc add_level_shift [of i "64 ^ i" 1] by (simp add: TIMER_LEVEL_SIZE_def)
  qed simp
  from this [of 8] have "add_level TIMER_LEVELS (64 ^ 8) 0 = 8" unfolding TIMER_LEVELS_def .
  then show ?thesis
    by (simp add: timer_add_locked_def add_timer_def wheel0_def timer_init_def)
      (simp add: TIMER_LEVELS_def)
qed

text \<open>\<open>timer_remove\<close> leaves the level in place, so removing a timer twice panics.\<close>

lemma timer_remove_twice:
  assumes "w_inv w" "in_wheel w e"
  shows "\<exists>w'. timer_remove e w = Some w' \<and> timer_remove e w' = None"
proof -
  have l: "in_level w (level w e) e" using in_wheel_level [OF assms] .
  then have "timer_ok (level w e) (w_timers w e)" using assms(1) unfolding w_inv_def by blast
  then have "tm_level (w_timers w e) \<noteq> -1" unfolding timer_ok_def by linarith
  moreover have "level w e < 8" "e \<in> set (w_lists w ! level w e)" using l by (simp_all add: in_level_def)
  moreover from this have "length (w_lists w) = 8" "distinct (w_lists w ! level w e)"
    using assms(1) by (simp_all add: w_inv_def)
  ultimately show ?thesis
    by (intro exI [of _ "upd_tlist (level w e) (remove1 e (w_lists w ! level w e)) w"])
      (simp add: timer_remove_def Let_def)
qed

end
