(* ===== verification/Buddy.thy ===== *)
theory Buddy
  imports Bitmap KStack LinkedList
begin

text \<open>
  The physical page allocator of \<open>kernel/pm_buddy.c\<close>. Its bitmaps lie one after the other in the
  static array \<open>static_bitmaps\<close>, here the byte memory from address 0; a free list is the list of
  block addresses that its stack represents, top first (see \<open>KStack\<close>). A panic is None.
  The lock is held for the whole of each operation.
\<close>

section \<open>Constants and state\<close>

definition MAX_ORDER :: nat where "MAX_ORDER = 21"
definition MIN_SIZE :: nat where "MIN_SIZE = 0x1000"
definition MAX_SIZE :: nat where "MAX_SIZE = MIN_SIZE * 2 ^ MAX_ORDER"
definition MEMORY_SIZE :: nat where "MEMORY_SIZE = MAX_SIZE"
definition MIN_PHYS_MEM :: nat where "MIN_PHYS_MEM = 0x400000"

record buddy =
  bd_static :: bytes
  bd_bitmaps :: "nat \<Rightarrow> ptr"
  bd_freelists :: "nat \<Rightarrow> nat list"
  bd_num_allocated :: "nat \<Rightarrow> nat"
  bd_inited :: bool
  bd_free_memory :: nat
  bd_total_memory :: nat

definition IS_POWER2 :: "nat \<Rightarrow> bool" where
  "IS_POWER2 n \<longleftrightarrow> (let x = (of_nat n :: u64) in x \<noteq> 0 \<and> x AND (NOT x + 1) = x)"

function order_loop :: "nat \<Rightarrow> nat \<Rightarrow> nat" where
  "order_loop address o' = (if address \<noteq> 0 \<and> even address then order_loop (address div 2) (o' + 1) else o')"
  by auto
termination by (relation "measure fst") auto

declare order_loop.simps [simp del]

definition min_possible_order :: "nat \<Rightarrow> nat" where
  "min_possible_order address = order_loop (address div MIN_SIZE) 0"

definition buddy_order_max_blocks :: "nat \<Rightarrow> nat" where
  "buddy_order_max_blocks order = MEMORY_SIZE div (MIN_SIZE * 2 ^ order)"

section \<open>Operations\<close>

definition bd_test :: "nat \<Rightarrow> nat \<Rightarrow> buddy \<Rightarrow> bool" where
  "bd_test order b s = bitmap_test (bd_bitmaps s order) b (bd_static s)"

definition bd_set :: "nat \<Rightarrow> nat \<Rightarrow> buddy \<Rightarrow> buddy" where
  "bd_set order b s = s\<lparr>bd_static := bitmap_set (bd_bitmaps s order) b (bd_static s)\<rparr>"

definition bd_reset :: "nat \<Rightarrow> nat \<Rightarrow> buddy \<Rightarrow> buddy" where
  "bd_reset order b s = s\<lparr>bd_static := bitmap_reset (bd_bitmaps s order) b (bd_static s)\<rparr>"

definition upd_free :: "nat \<Rightarrow> nat list \<Rightarrow> buddy \<Rightarrow> buddy" where
  "upd_free order l s = s\<lparr>bd_freelists := (bd_freelists s)(order := l)\<rparr>"

definition upd_num :: "nat \<Rightarrow> (nat \<Rightarrow> nat) \<Rightarrow> buddy \<Rightarrow> buddy" where
  "upd_num order f s = s\<lparr>bd_num_allocated := (bd_num_allocated s)(order := f (bd_num_allocated s order))\<rparr>"

text \<open>Popping and marking a block, the last part of the allocation.\<close>

definition take_block :: "nat \<Rightarrow> nat \<Rightarrow> buddy \<Rightarrow> (nat \<times> buddy) option" where
  "take_block len order s =
     (let address = (case bd_freelists s order of [] \<Rightarrow> 0 | a # _ \<Rightarrow> a);
          s = upd_free order (tl (bd_freelists s order)) s;
          b = address div len
      in do {
        kassert (\<not> bd_test order b s);
        let s = bd_set order b s;
        let s = upd_num order (\<lambda>n. n + 1) s;
        Some (address, s) })"

function do_pmm_buddy_allocate :: "nat \<Rightarrow> buddy \<Rightarrow> (nat \<times> buddy) option" where
  "do_pmm_buddy_allocate len s =
     (if \<not> bd_inited s then None
      else if \<not> IS_POWER2 len then None
      else if len < MIN_SIZE then None
      else if len > MAX_SIZE then None
      else
        let order = min_possible_order len in
        if bd_freelists s order = [] then do {
          (a, s) \<leftarrow> do_pmm_buddy_allocate (len * 2) s;
          let s = upd_free order (a # bd_freelists s order) s;
          let s = upd_free order ((a + len) # bd_freelists s order) s;
          take_block len order s }
        else take_block len order s)"
  by auto
termination by (relation "measure (\<lambda>(len, s). 2 * MAX_SIZE + 1 - len)") (auto simp: MIN_SIZE_def)

declare do_pmm_buddy_allocate.simps [simp del]

function deallocate :: "nat \<Rightarrow> nat \<Rightarrow> buddy \<Rightarrow> (int \<times> buddy) option" where
  "deallocate address order s =
     (if \<not> bd_inited s then None
      else if order > MAX_ORDER then Some (-1, s)
      else
        let b = address div (MIN_SIZE * 2 ^ order) in
        if \<not> bd_test order b s then deallocate address (order + 1) s
        else
          let buddy = address XOR (MIN_SIZE * 2 ^ order);
              buddy_bit = buddy div (MIN_SIZE * 2 ^ order);
              s = bd_reset order b s
          in do {
            s \<leftarrow> (if \<not> bd_test order buddy_bit s then do {
                    l \<leftarrow> ls_remove buddy (bd_freelists s order);
                    let s = upd_free order l s;
                    (r, s) \<leftarrow> deallocate (if buddy > address then address else buddy) (order + 1) s;
                    Some s }
                  else Some (upd_free order (address # bd_freelists s order) s));
            let s = upd_num order (\<lambda>n. n - 1) s;
            Some (int order, s) })"
  by auto
termination by (relation "measure (\<lambda>(address, order, s). MAX_ORDER + 1 - order)") auto

declare deallocate.simps [simp del]

definition pmm_buddy_allocate :: "nat \<Rightarrow> buddy \<Rightarrow> (nat \<times> buddy) option" where
  "pmm_buddy_allocate len s = do {
     (ret, s) \<leftarrow> do_pmm_buddy_allocate len s;
     let s = s\<lparr>bd_free_memory := bd_free_memory s - len\<rparr>;
     Some (ret, s) }"

definition pmm_buddy_deallocate :: "nat \<Rightarrow> buddy \<Rightarrow> buddy option" where
  "pmm_buddy_deallocate address s =
     (if address \<ge> MIN_PHYS_MEM + MEMORY_SIZE then Some s
      else do {
        (order, s) \<leftarrow> deallocate address 0 s;
        Some (if order \<ge> 0 then
                let s = s\<lparr>bd_free_memory := bd_free_memory s + MIN_SIZE * 2 ^ nat order\<rparr>
                in if bd_total_memory s < bd_free_memory s
                   then s\<lparr>bd_total_memory := bd_free_memory s\<rparr> else s
              else s) })"

text \<open>The loop of \<open>pmm_buddy_init\<close>, for \<open>i\<close> up to \<open>MAX_ORDER\<close>.\<close>

fun init_loop :: "nat \<Rightarrow> nat \<Rightarrow> nat \<Rightarrow> nat \<Rightarrow> buddy \<Rightarrow> buddy" where
  "init_loop 0 i start len s = s"
| "init_loop (Suc n) i start len s =
     (let s = s\<lparr>bd_bitmaps := (bd_bitmaps s)(i := start)\<rparr>;
          s = s\<lparr>bd_static := memset start (-1) len (bd_static s)\<rparr>;
          s = upd_free i [] s;
          s = upd_num i (\<lambda>_. buddy_order_max_blocks i) s
      in init_loop n (i + 1) (start + len) (len div 2) s)"

definition pmm_buddy_init :: "buddy \<Rightarrow> buddy" where
  "pmm_buddy_init s =
     (let len = (MEMORY_SIZE div MIN_SIZE) div 8;
          s = init_loop (MAX_ORDER + 1) 0 0 len s
      in s\<lparr>bd_inited := True\<rparr>)"

definition mm_physical_get_usage :: "buddy \<Rightarrow> int option" where
  "mm_physical_get_usage s =
     (if bd_total_memory s = 0 then None
      else Some (let use = 100 - int (100 * bd_free_memory s div bd_total_memory s);
                     use = (if use < 0 then 0 else use)
                 in if use > 100 then 100 else use))"

section \<open>Blocks and bits\<close>

text \<open>Block \<open>i\<close> of an order, its size, the number of blocks, and its buddy.\<close>

definition bsz :: "nat \<Rightarrow> nat" where "bsz k = MIN_SIZE * 2 ^ k"
definition nb :: "nat \<Rightarrow> nat" where "nb k = 2 ^ (21 - k)"
definition flip :: "nat \<Rightarrow> nat" where "flip i = (if even i then i + 1 else i - 1)"

text \<open>Where the initialisation puts the bitmap of an order.\<close>

definition bm :: "nat \<Rightarrow> nat" where "bm k = 2 ^ 19 - 2 ^ (19 - k)"

lemma bsz_pos [simp]: "0 < bsz k" by (simp add: bsz_def MIN_SIZE_def)
lemma bsz_nz [simp]: "bsz k \<noteq> 0" by (simp add: bsz_def MIN_SIZE_def)
lemma bsz_Suc: "bsz (Suc k) = 2 * bsz k" by (simp add: bsz_def)
lemma bsz_fold: "MIN_SIZE * 2 ^ k = bsz k" by (simp add: bsz_def)

lemma flip_flip [simp]: "flip (flip i) = i" by (auto simp: flip_def)
lemma flip_neq [simp]: "flip i \<noteq> i" by (auto simp: flip_def elim: oddE)
lemma flip_div [simp]: "flip i div 2 = i div 2" by (auto simp: flip_def elim: oddE)
lemma flip_less: "k \<le> 20 \<Longrightarrow> i < nb k \<Longrightarrow> flip i < nb k"
proof -
  assume k: "k \<le> 20" "i < nb k"
  then have "even (nb k)" by (simp add: nb_def)
  with k show ?thesis by (auto simp: flip_def) presburger
qed

lemma flip_cases: "i = 2 * (i div 2) \<and> flip i = 2 * (i div 2) + 1 \<or> i = 2 * (i div 2) + 1 \<and> flip i = 2 * (i div 2)"
  by (auto simp: flip_def elim: oddE)

lemma nb_half: "k < 21 \<Longrightarrow> i < nb k \<Longrightarrow> i div 2 < nb (Suc k)"
proof -
  assume k: "k < 21" "i < nb k"
  then have "nb k = 2 * nb (Suc k)" by (simp add: nb_def flip: power_Suc)
  with k show ?thesis by simp
qed

lemma nb_double: "k < 21 \<Longrightarrow> j < nb (Suc k) \<Longrightarrow> 2 * j < nb k \<and> 2 * j + 1 < nb k"
proof -
  assume k: "k < 21" "j < nb (Suc k)"
  then have "nb k = 2 * nb (Suc k)" by (simp add: nb_def flip: power_Suc)
  with k show ?thesis by simp
qed

lemma buddy_xor: "(i * bsz k) XOR bsz k = flip i * bsz k"
proof -
  have "bsz k = 2 ^ (12 + k)" by (simp add: bsz_def MIN_SIZE_def power_add)
  then have p: "j * bsz k = push_bit (12 + k) j" for j by (simp add: push_bit_eq_mult)
  have "(i * bsz k) XOR (1 * bsz k) = push_bit (12 + k) (i XOR 1)" unfolding p by (simp add: push_bit_xor)
  moreover have "i XOR 1 = flip i" by (auto simp: flip_def xor_Suc_0_eq)
  ultimately show ?thesis using p [of "flip i"] by (simp only: mult_1)
qed

text \<open>The bitmaps of the orders up to 18 do not overlap, and lie below the last byte, which is
  shared by the orders 19 to 21.\<close>

lemma bm_Suc: "k \<le> 18 \<Longrightarrow> bm (Suc k) = bm k + 2 ^ (18 - k)"
proof -
  assume k: "k \<le> 18"
  have "(2 :: nat) ^ (19 - k) = 2 * 2 ^ (18 - k)" using k by (simp add: Suc_diff_le flip: power_Suc)
  moreover have "(2 :: nat) ^ (19 - k) \<le> 2 ^ 19" by (intro power_increasing) auto
  ultimately show ?thesis unfolding bm_def using k by (simp only: diff_Suc_Suc numeral_nat)
qed

lemma bm_mono: "k \<le> l \<Longrightarrow> bm k \<le> bm l"
  unfolding bm_def by (intro diff_le_mono2 power_increasing) auto

lemma bit_byte: "k \<le> 18 \<Longrightarrow> i < nb k \<Longrightarrow> bm k + i div 8 < bm (Suc k)"
proof -
  assume k: "k \<le> 18" "i < nb k"
  have "21 - k = 3 + (18 - k)" using k by simp
  then have "(2 :: nat) ^ (21 - k) = 8 * 2 ^ (18 - k)" by (simp only: power_add) simp
  with k show ?thesis by (simp add: bm_Suc nb_def)
qed

section \<open>Invariant\<close>

definition valid :: "nat \<Rightarrow> nat \<Rightarrow> bool" where
  "valid k i \<longleftrightarrow> k \<le> 18 \<and> i < nb k"

definition bd_maps :: "buddy \<Rightarrow> bool" where
  "bd_maps s \<longleftrightarrow> (\<forall>k \<le> 21. bd_bitmaps s k = bm k)"

lemma valid_byte_neq: "valid k i \<Longrightarrow> valid l j \<Longrightarrow> k \<noteq> l \<Longrightarrow> bm k + i div 8 \<noteq> bm l + j div 8"
proof -
  have *: "bm k + i div 8 < bm l + j div 8" if "valid k i" "valid l j" "k < l" for k l i j
    using that bit_byte [of k i] bm_mono [of "Suc k" l] by (simp add: valid_def)
  assume "valid k i" "valid l j" "k \<noteq> l"
  then show ?thesis using * [of k i l j] * [of l j k i] by (cases "k < l") auto
qed

lemma valid_byte_low: "valid k i \<Longrightarrow> 19 \<le> l \<Longrightarrow> bm k + i div 8 < bm l"
  using bit_byte [of k i] bm_mono [of "Suc k" l] by (simp add: valid_def)

lemma bd_upd_simps [simp]:
  "bd_bitmaps (bd_set k i s) = bd_bitmaps s" "bd_bitmaps (bd_reset k i s) = bd_bitmaps s"
  "bd_bitmaps (upd_free k l s) = bd_bitmaps s" "bd_bitmaps (upd_num k f s) = bd_bitmaps s"
  "bd_freelists (bd_set k i s) = bd_freelists s" "bd_freelists (bd_reset k i s) = bd_freelists s"
  "bd_freelists (upd_free k l s) = (bd_freelists s)(k := l)" "bd_freelists (upd_num k f s) = bd_freelists s"
  "bd_inited (bd_set k i s) = bd_inited s" "bd_inited (bd_reset k i s) = bd_inited s"
  "bd_inited (upd_free k l s) = bd_inited s" "bd_inited (upd_num k f s) = bd_inited s"
  "bd_static (upd_free k l s) = bd_static s" "bd_static (upd_num k f s) = bd_static s"
  "bd_test o' j (upd_free k l s) = bd_test o' j s" "bd_test o' j (upd_num k f s) = bd_test o' j s"
  by (simp_all add: bd_set_def bd_reset_def upd_free_def upd_num_def bd_test_def)

lemma bd_maps_simps [simp]:
  "bd_maps (bd_set k i s) = bd_maps s" "bd_maps (bd_reset k i s) = bd_maps s"
  "bd_maps (upd_free k l s) = bd_maps s" "bd_maps (upd_num k f s) = bd_maps s"
  by (simp_all add: bd_maps_def)

lemma bd_test_set:
  assumes "bd_maps s" "valid k i" "valid l j"
  shows "bd_test l j (bd_set k i s) = (l = k \<and> j = i \<or> bd_test l j s)"
    "bd_test l j (bd_reset k i s) = (\<not> (l = k \<and> j = i) \<and> bd_test l j s)"
proof -
  have m: "bd_bitmaps s k = bm k" "bd_bitmaps s l = bm l" using assms by (auto simp: bd_maps_def valid_def)
  have "bitmap_assign (bm k) i v m (bm l + j div 8) = m (bm l + j div 8)" if "l \<noteq> k" for v m
    using valid_byte_neq [OF assms(3,2) that] by (rule bitmap_assign_other)
  then have "l \<noteq> k \<Longrightarrow> bitmap_test (bm l) j (bitmap_assign (bm k) i v m) = bitmap_test (bm l) j m" for v m
    by (intro bitmap_test_cong)
  then show "bd_test l j (bd_set k i s) = (l = k \<and> j = i \<or> bd_test l j s)"
    "bd_test l j (bd_reset k i s) = (\<not> (l = k \<and> j = i) \<and> bd_test l j s)"
    by (cases "l = k"; simp add: bd_test_def bd_set_def bd_reset_def m bitmap_set_def bitmap_reset_def)+
qed

text \<open>A free block is in the free list of its order when its buddy is not free; when a block
  is marked free, so are its halves. The orders above 18 are unused.\<close>

definition free_set :: "buddy \<Rightarrow> nat \<Rightarrow> nat set" where
  "free_set s k = {i. i < nb k \<and> \<not> bd_test k i s \<and> bd_test k (flip i) s}"

definition bd_inv :: "buddy \<Rightarrow> bool" where
  "bd_inv s \<longleftrightarrow> bd_inited s \<and> bd_maps s \<and> bd_static s (bm 19) = 0 \<and>
     (\<forall>k. 19 \<le> k \<longrightarrow> bd_freelists s k = []) \<and>
     (\<forall>k \<le> 18. distinct (bd_freelists s k) \<and> set (bd_freelists s k) = (\<lambda>i. i * bsz k) ` free_set s k) \<and>
     (\<forall>k j. valid (Suc k) j \<and> \<not> bd_test (Suc k) j s \<longrightarrow> \<not> bd_test k (2 * j) s \<and> \<not> bd_test k (2 * j + 1) s)"

text \<open>A block is allocated when it is marked and its halves are not.\<close>

definition allocd :: "buddy \<Rightarrow> nat \<times> nat \<Rightarrow> bool" where
  "allocd s b \<longleftrightarrow> (case b of (k, i) \<Rightarrow> valid k i \<and> bd_test k i s \<and>
     (case k of 0 \<Rightarrow> True | Suc l \<Rightarrow> \<not> bd_test l (2 * i) s \<and> \<not> bd_test l (2 * i + 1) s))"

lemma bd_invD:
  assumes "bd_inv s"
  shows "bd_inited s" "bd_maps s" "bd_static s (bm 19) = 0" "\<And>k. 19 \<le> k \<Longrightarrow> bd_freelists s k = []"
    "\<And>k. k \<le> 18 \<Longrightarrow> distinct (bd_freelists s k)"
    "\<And>k. k \<le> 18 \<Longrightarrow> set (bd_freelists s k) = (\<lambda>i. i * bsz k) ` free_set s k"
    "\<And>k j. valid (Suc k) j \<Longrightarrow> \<not> bd_test (Suc k) j s \<Longrightarrow> \<not> bd_test k (2 * j) s \<and> \<not> bd_test k (2 * j + 1) s"
  using assms by (auto simp: bd_inv_def)

lemma bsz_inj [simp]: "i * bsz k = j * bsz k \<longleftrightarrow> i = j"
  using bsz_pos [of k] by (metis mult_cancel2 less_irrefl)

lemma inj_bsz: "inj (\<lambda>i. i * bsz k)"
  by (rule injI) simp

lemma parent_marked:
  assumes "bd_inv s" "valid k i" "bd_test k i s" "k < 18"
  shows "bd_test (Suc k) (i div 2) s" "valid (Suc k) (i div 2)"
proof -
  show v: "valid (Suc k) (i div 2)" using assms nb_half [of k i] by (simp add: valid_def)
  show "bd_test (Suc k) (i div 2) s"
    using bd_invD(7) [OF assms(1) v] assms(3) flip_cases [of i] by (metis)
qed

text \<open>Marking a block, with the free list of its order replaced.\<close>

lemma mark_inv:
  assumes inv: "bd_inv s" and v: "valid k i" and free: "\<not> bd_test k i s"
    and par: "k < 18 \<Longrightarrow> bd_test (Suc k) (i div 2) s"
    and l: "distinct l" "set l = (\<lambda>i. i * bsz k) ` {j. j < nb k \<and> j \<noteq> i \<and> \<not> bd_test k j s \<and> (bd_test k (flip j) s \<or> flip j = i)}"
  shows "bd_inv (bd_set k i (upd_free k l s))"
proof -
  let ?s = "bd_set k i (upd_free k l s)"
  note i = bd_invD [OF inv]
  have t: "bd_test k' j ?s = (k' = k \<and> j = i \<or> bd_test k' j s)" if "valid k' j" for k' j
    using bd_test_set(1) [of "upd_free k l s" k i k' j] i(2) v that by simp
  have fs: "free_set ?s k' = (if k' = k then {j. j < nb k \<and> j \<noteq> i \<and> \<not> bd_test k j s \<and> (bd_test k (flip j) s \<or> flip j = i)}
      else free_set s k')" if "k' \<le> 18" for k'
    using that t flip_less [of k'] by (auto simp: free_set_def valid_def)
  have "bd_static ?s (bm 19) = bd_static s (bm 19)"
    using valid_byte_low [OF v, of 19] i(2) v
    by (simp add: bd_set_def bitmap_set_def bitmap_assign_other bd_maps_def valid_def)
  moreover have "\<not> bd_test k' (2 * j) ?s \<and> \<not> bd_test k' (2 * j + 1) ?s"
    if h: "valid (Suc k') j" "\<not> bd_test (Suc k') j ?s" for k' j
  proof -
    have v2: "valid k' (2 * j)" "valid k' (2 * j + 1)" using h(1) nb_double [of k' j] by (auto simp: valid_def)
    have nt: "\<not> bd_test (Suc k') j s" using h t by blast
    then have c: "\<not> bd_test k' (2 * j) s" "\<not> bd_test k' (2 * j + 1) s" using i(7) [OF h(1)] by auto
    have "\<not> (k' = k \<and> (i = 2 * j \<or> i = 2 * j + 1))"
    proof
      assume a: "k' = k \<and> (i = 2 * j \<or> i = 2 * j + 1)"
      then have "i div 2 = j" by auto
      with a par nt h(1) show False by (auto simp: valid_def)
    qed
    then show ?thesis using t [OF v2(1)] t [OF v2(2)] c by auto
  qed
  ultimately show ?thesis using i l fs v unfolding bd_inv_def by (auto simp: valid_def)
qed

lemma allocd_cases:
  "allocd s (0, i) \<longleftrightarrow> valid 0 i \<and> bd_test 0 i s"
  "allocd s (Suc k, i) \<longleftrightarrow> valid (Suc k) i \<and> bd_test (Suc k) i s \<and> \<not> bd_test k (2 * i) s \<and> \<not> bd_test k (2 * i + 1) s"
  by (simp_all add: allocd_def)

lemma allocd_valid: "allocd s (k, i) \<Longrightarrow> valid k i \<and> bd_test k i s"
  by (simp add: allocd_def)

lemma valid_halves: "valid (Suc k) j \<Longrightarrow> valid k (2 * j) \<and> valid k (2 * j + 1)"
  using nb_double [of k j] by (auto simp: valid_def)

lemma half_iff: "(2 * j = i \<or> 2 * j + 1 = i) \<longleftrightarrow> j = i div (2 :: nat)"
  by auto

lemma mark_alloc:
  assumes inv: "bd_inv s" and v: "valid k i" and free: "\<not> bd_test k i s"
  shows "allocd (bd_set k i (upd_free k l s)) b \<longleftrightarrow> b = (k, i) \<or> allocd s b \<and> b \<noteq> (Suc k, i div 2)"
proof -
  let ?s = "bd_set k i (upd_free k l s)"
  obtain k' j where b: "b = (k', j)" by (cases b)
  have t: "bd_test m n ?s = (m = k \<and> n = i \<or> bd_test m n s)" if "valid m n" for m n
    using bd_test_set(1) [of "upd_free k l s" k i m n] bd_invD(2) [OF inv] v that by simp
  show ?thesis
  proof (cases k')
    case 0
    then show ?thesis using b t [of 0 j] v by (auto simp: allocd_cases)
  next
    case (Suc m)
    show ?thesis
    proof (cases "valid (Suc m) j")
      case True
      note h = valid_halves [OF True]
      have e: "bd_test m (2 * j) ?s \<or> bd_test m (2 * j + 1) ?s \<longleftrightarrow>
          m = k \<and> j = i div 2 \<or> bd_test m (2 * j) s \<or> bd_test m (2 * j + 1) s"
        using t h half_iff [of j i] by metis
      have "(Suc m, j) = (k, i) \<Longrightarrow> \<not> bd_test m (2 * j) s \<and> \<not> bd_test m (2 * j + 1) s"
        using bd_invD(7) [OF inv, of m j] True free by blast
      then show ?thesis using b Suc t [OF True] e True free v by (auto simp: allocd_cases)
    next
      case False
      then show ?thesis using b Suc v by (auto simp: allocd_cases)
    qed
  qed
qed

text \<open>Unmarking an allocated block, with the free list of its order replaced.\<close>

lemma unmark_inv:
  assumes inv: "bd_inv s" and a: "allocd s (k, i)"
    and l: "distinct l" "set l = (\<lambda>i. i * bsz k) ` {j. j < nb k \<and> flip j \<noteq> i \<and> (j = i \<or> \<not> bd_test k j s) \<and> bd_test k (flip j) s}"
  shows "bd_inv (bd_reset k i (upd_free k l s))"
proof -
  let ?s = "bd_reset k i (upd_free k l s)"
  note i = bd_invD [OF inv] and v = allocd_valid [OF a, THEN conjunct1]
  have t: "bd_test k' j ?s = (\<not> (k' = k \<and> j = i) \<and> bd_test k' j s)" if "valid k' j" for k' j
    using bd_test_set(2) [of "upd_free k l s" k i k' j] i(2) v that by simp
  have fs: "free_set ?s k' = (if k' = k then {j. j < nb k \<and> flip j \<noteq> i \<and> (j = i \<or> \<not> bd_test k j s) \<and> bd_test k (flip j) s}
      else free_set s k')" if "k' \<le> 18" for k'
    using that t flip_less [of k'] by (auto simp: free_set_def valid_def)
  have "bd_static ?s (bm 19) = bd_static s (bm 19)"
    using valid_byte_low [OF v, of 19] i(2) v
    by (simp add: bd_reset_def bitmap_reset_def bitmap_assign_other bd_maps_def valid_def)
  moreover have "\<not> bd_test k' (2 * j) ?s \<and> \<not> bd_test k' (2 * j + 1) ?s"
    if h: "valid (Suc k') j" "\<not> bd_test (Suc k') j ?s" for k' j
  proof -
    have "\<not> bd_test k' (2 * j) s \<and> \<not> bd_test k' (2 * j + 1) s"
      using h t i(7) [OF h(1)] a by (auto simp: allocd_cases)
    then show ?thesis using t valid_halves [OF h(1)] by blast
  qed
  ultimately show ?thesis using i l fs v unfolding bd_inv_def by (auto simp: valid_def)
qed

lemma unmark_alloc:
  assumes inv: "bd_inv s" and a: "allocd s (k, i)"
  shows "allocd (bd_reset k i (upd_free k l s)) b \<longleftrightarrow>
    b \<noteq> (k, i) \<and> (allocd s b \<or> b = (Suc k, i div 2) \<and> k < 18 \<and> \<not> bd_test k (flip i) s)"
proof -
  let ?s = "bd_reset k i (upd_free k l s)"
  have v: "valid k i" "bd_test k i s" using allocd_valid [OF a] by auto
  obtain k' j where b: "b = (k', j)" by (cases b)
  have t: "bd_test m n ?s = (\<not> (m = k \<and> n = i) \<and> bd_test m n s)" if "valid m n" for m n
    using bd_test_set(2) [of "upd_free k l s" k i m n] bd_invD(2) [OF inv] v that by simp
  show ?thesis
  proof (cases k')
    case 0
    then show ?thesis using b t [of 0 j] v by (auto simp: allocd_cases)
  next
    case (Suc m)
    show ?thesis
    proof (cases "valid (Suc m) j")
      case True
      note h = valid_halves [OF True]
      show ?thesis
      proof (cases "m = k \<and> j = i div 2")
        case parent: True
        have "bd_test (Suc k) (i div 2) s" using parent_marked(1) [OF inv v] True parent by (simp add: valid_def)
        moreover have "(\<not> bd_test k (2 * j) ?s \<and> \<not> bd_test k (2 * j + 1) ?s) = (\<not> bd_test k (flip i) s)"
          using flip_cases [of i] t h parent v by auto
        moreover have "\<not> allocd s (Suc k, i div 2)" using flip_cases [of i] v by (auto simp: allocd_cases)
        ultimately show ?thesis
          using b Suc t [OF True] True parent by (auto simp: allocd_cases valid_def)
      next
        case False
        then have "bd_test m (2 * j) ?s = bd_test m (2 * j) s" "bd_test m (2 * j + 1) ?s = bd_test m (2 * j + 1) s"
          using t h half_iff [of j i] by blast+
        then show ?thesis using b Suc t [OF True] True False by (auto simp: allocd_cases)
      qed
    next
      case False
      then show ?thesis using b Suc v parent_marked(2) [OF inv v] by (auto simp: allocd_cases)
    qed
  qed
qed

section \<open>Allocation\<close>

lemma order_loop_pow: "order_loop (2 ^ k) n = n + k"
  by (induction k arbitrary: n) (simp_all add: order_loop.simps)

lemma min_order_bsz: "min_possible_order (bsz k) = k"
  by (simp add: min_possible_order_def bsz_def MIN_SIZE_def order_loop_pow)

lemma power2_bsz:
  assumes "k \<le> 21"
  shows "IS_POWER2 (bsz k)"
proof -
  let ?x = "2 ^ (12 + k) :: u64"
  have x: "(of_nat (bsz k) :: u64) = ?x" by (simp add: bsz_def MIN_SIZE_def power_add)
  have "NOT ?x + 1 = NOT (mask (12 + k))" by (simp add: minus_eq_not_plus_1 [symmetric] minus_eq_not_minus_1 mask_eq_exp_minus_1)
  moreover have "?x AND NOT (mask (12 + k)) = ?x" by (rule bit_word_eqI) (auto simp: bit_simps)
  moreover have "?x \<noteq> 0" using assms by (simp add: word_neq_0_conv exp_eq_zero_iff)
  ultimately show ?thesis unfolding IS_POWER2_def Let_def x by simp
qed

lemma bsz_range: "k \<le> 21 \<Longrightarrow> \<not> bsz k < MIN_SIZE \<and> \<not> bsz k > MAX_SIZE"
proof -
  assume "k \<le> 21"
  then have "(2 :: nat) ^ k \<le> 2 ^ 21" by (intro power_increasing) auto
  then show ?thesis by (simp add: bsz_def MAX_SIZE_def MAX_ORDER_def not_less)
qed

lemma bsz_22: "bsz 22 > MAX_SIZE"
  by (simp add: bsz_def MAX_SIZE_def MAX_ORDER_def MIN_SIZE_def)

lemma alloc_unfold:
  assumes "bd_inited s" "k \<le> 21"
  shows "do_pmm_buddy_allocate (bsz k) s =
    (if bd_freelists s k = [] then do {
       (a, s) \<leftarrow> do_pmm_buddy_allocate (bsz (Suc k)) s;
       take_block (bsz k) k (upd_free k ((a + bsz k) # a # bd_freelists s k) s) }
     else take_block (bsz k) k s)"
proof -
  show ?thesis
    using assms power2_bsz [OF assms(2)] bsz_range [OF assms(2)]
    by (subst do_pmm_buddy_allocate.simps) (simp add: min_order_bsz bsz_Suc mult.commute upd_free_def)
qed

text \<open>Out of memory: with no free block of the order or above it the allocation panics.\<close>

lemma alloc_fails:
  assumes "bd_inited s"
  shows "k \<le> 22 \<Longrightarrow> \<forall>k' \<ge> k. bd_freelists s k' = [] \<Longrightarrow> do_pmm_buddy_allocate (bsz k) s = None"
proof (induction "22 - k" arbitrary: k)
  case 0
  then have "k = 22" by simp
  then show ?case using bsz_22 by (subst do_pmm_buddy_allocate.simps) simp
next
  case (Suc n)
  then have "do_pmm_buddy_allocate (bsz (Suc k)) s = None" by simp
  with Suc show ?case by (subst alloc_unfold [OF assms]) simp_all
qed

lemma allocd_num [simp]: "allocd (upd_num k f s) = allocd s"
  by (rule ext) (simp add: allocd_def split: prod.split nat.split)

lemma inv_num [simp]: "bd_inv (upd_num k f s) = bd_inv s"
  by (simp add: bd_inv_def free_set_def)

lemma take_listed:
  assumes inv: "bd_inv s" and k: "k \<le> 18" and ne: "bd_freelists s k \<noteq> []"
  shows "\<exists>i s'. take_block (bsz k) k s = Some (i * bsz k, s') \<and> valid k i \<and> bd_inv s' \<and>
    \<not> allocd s (k, i) \<and> (\<forall>b. allocd s' b \<longleftrightarrow> allocd s b \<or> b = (k, i)) \<and>
    (\<forall>k' < k. bd_freelists s' k' = bd_freelists s k')"
proof -
  note i = bd_invD [OF inv]
  obtain a l where al: "bd_freelists s k = a # l" using ne by (meson neq_Nil_conv)
  then obtain j where j: "a = j * bsz k" "j \<in> free_set s k" using i(6) [OF k] by auto
  then have v: "valid k j" and t: "\<not> bd_test k j s" "bd_test k (flip j) s" using k by (auto simp: free_set_def valid_def)
  have fv: "valid k (flip j)" using v flip_less [of k j] by (simp add: valid_def)
  have "(\<lambda>i. i * bsz k) ` (free_set s k - {j}) = (\<lambda>i. i * bsz k) ` free_set s k - {j * bsz k}"
    by (simp add: image_set_diff [OF inj_bsz])
  then have l: "distinct l" "set l = (\<lambda>i. i * bsz k) ` (free_set s k - {j})"
    using i(5,6) [OF k] al j(1) by (auto simp del: mult_cancel2)
  have "free_set s k - {j} = {j'. j' < nb k \<and> j' \<noteq> j \<and> \<not> bd_test k j' s \<and> (bd_test k (flip j') s \<or> flip j' = j)}"
    using t by (auto simp: free_set_def)
  moreover have "k < 18 \<Longrightarrow> bd_test (Suc k) (j div 2) s" using parent_marked(1) [OF inv fv t(2)] by simp
  ultimately have inv': "bd_inv (bd_set k j (upd_free k l s))"
    using mark_inv [OF inv v t(1) _ l(1)] l(2) by simp
  have "\<not> allocd s (Suc k, j div 2)" using flip_cases [of j] t by (auto simp: allocd_cases)
  then have al': "allocd (bd_set k j (upd_free k l s)) b \<longleftrightarrow> allocd s b \<or> b = (k, j)" for b
    using mark_alloc [OF inv v t(1)] by metis
  have "take_block (bsz k) k s = Some (j * bsz k, upd_num k (\<lambda>n. n + 1) (bd_set k j (upd_free k l s)))"
    using al j(1) t(1) by (simp add: take_block_def Let_def)
  moreover have "\<not> allocd s (k, j)" using t(1) allocd_valid by blast
  ultimately show ?thesis using v inv' al' 
    by (intro exI [of _ j] exI [of _ "upd_num k (\<lambda>n. n + 1) (bd_set k j (upd_free k l s))"]) simp
qed

lemma take_split:
  assumes inv: "bd_inv s" and k: "k < 18" and a: "allocd s (Suc k, j)" and e: "bd_freelists s k = []"
  shows "\<exists>s'. take_block (bsz k) k (upd_free k [j * bsz (Suc k) + bsz k, j * bsz (Suc k)] s) =
      Some ((2 * j + 1) * bsz k, s') \<and> valid k (2 * j + 1) \<and> bd_inv s' \<and>
    \<not> allocd s (k, 2 * j + 1) \<and> (\<forall>b. allocd s' b \<longleftrightarrow> allocd s b \<and> b \<noteq> (Suc k, j) \<or> b = (k, 2 * j + 1)) \<and>
    (\<forall>k' < k. bd_freelists s' k' = bd_freelists s k')"
proof -
  note i = bd_invD [OF inv]
  let ?i = "2 * j + 1"
  have v: "valid k (2 * j)" "valid k ?i" using allocd_valid [OF a] valid_halves by auto
  have t: "\<not> bd_test k (2 * j) s" "\<not> bd_test k ?i s" "bd_test (Suc k) j s" using a by (auto simp: allocd_cases)
  have ad: "j * bsz (Suc k) + bsz k = ?i * bsz k" "j * bsz (Suc k) = (2 * j) * bsz k" by (simp_all add: bsz_Suc)
  have "free_set s k = {}" using i(6) [of k] k e by simp
  then have none: "\<not> (j' < nb k \<and> \<not> bd_test k j' s \<and> bd_test k (flip j') s)" for j' by (auto simp: free_set_def)
  have "{j'. j' < nb k \<and> j' \<noteq> ?i \<and> \<not> bd_test k j' s \<and> (bd_test k (flip j') s \<or> flip j' = ?i)} = {2 * j}"
    (is "?A = _")
  proof
    have fl: "flip (2 * j) = ?i" by (simp add: flip_def)
    show "{2 * j} \<subseteq> ?A" using t v fl by (simp add: valid_def)
    show "?A \<subseteq> {2 * j}"
    proof
      fix x assume "x \<in> ?A"
      then have "flip x = ?i" using none [of x] by blast
      then show "x \<in> {2 * j}" using fl flip_flip by (metis singletonI)
    qed
  qed
  then have inv': "bd_inv (bd_set k ?i (upd_free k [(2 * j) * bsz k] s))"
    using mark_inv [OF inv v(2) t(2), of "[(2 * j) * bsz k]"] t(3) by simp
  have "(2 * j + 1) div 2 = j" by simp
  then have al': "allocd (bd_set k ?i (upd_free k [(2 * j) * bsz k] s)) b \<longleftrightarrow>
      allocd s b \<and> b \<noteq> (Suc k, j) \<or> b = (k, ?i)" for b
    using mark_alloc [OF inv v(2) t(2), of "[(2 * j) * bsz k]" b] by auto
  have u: "upd_free k x (upd_free k y s) = upd_free k x s" for x y by (simp add: upd_free_def)
  have "take_block (bsz k) k (upd_free k [j * bsz (Suc k) + bsz k, j * bsz (Suc k)] s) =
      Some (?i * bsz k, upd_num k (\<lambda>n. n + 1) (bd_set k ?i (upd_free k [(2 * j) * bsz k] s)))"
    unfolding ad using t(2) by (simp add: take_block_def Let_def u)
  moreover have "\<not> allocd s (k, ?i)" using t(2) allocd_valid by blast
  ultimately show ?thesis using v(2) inv' al'
    by (intro exI [of _ "upd_num k (\<lambda>n. n + 1) (bd_set k ?i (upd_free k [(2 * j) * bsz k] s))"]) simp
qed

lemma alloc_ok:
  "bd_inv s \<Longrightarrow> k \<le> 18 \<Longrightarrow> \<exists>k'. k \<le> k' \<and> k' \<le> 18 \<and> bd_freelists s k' \<noteq> [] \<Longrightarrow>
   \<exists>i s'. do_pmm_buddy_allocate (bsz k) s = Some (i * bsz k, s') \<and> valid k i \<and> bd_inv s' \<and>
     \<not> allocd s (k, i) \<and> (\<forall>b. allocd s' b \<longleftrightarrow> allocd s b \<or> b = (k, i)) \<and>
     (\<forall>k' < k. bd_freelists s' k' = bd_freelists s k')"
proof (induction "18 - k" arbitrary: k)
  case 0
  then have "k = 18" by simp
  with 0 have "bd_freelists s k \<noteq> []" using le_antisym by blast
  then show ?case
    using take_listed [OF 0(2,3)] alloc_unfold [of s k] bd_invD(1) [OF 0(2)] 0(3) by simp
next
  case (Suc n)
  have k: "k < 18" using Suc.hyps(2) by simp
  note u = alloc_unfold [OF bd_invD(1) [OF Suc.prems(1)], of k]
  show ?case
  proof (cases "bd_freelists s k = []")
    case False
    then show ?thesis using take_listed [OF Suc.prems(1,2)] u k by simp
  next
    case True
    with Suc.prems(3) have "\<exists>k'. Suc k \<le> k' \<and> k' \<le> 18 \<and> bd_freelists s k' \<noteq> []"
      by (metis le_eq_less_or_eq less_eq_Suc_le)
    moreover have "n = 18 - Suc k" "Suc k \<le> 18" using Suc.hyps(2) by simp_all
    ultimately obtain j s1 where s1: "do_pmm_buddy_allocate (bsz (Suc k)) s = Some (j * bsz (Suc k), s1)"
      "valid (Suc k) j" "bd_inv s1" "\<not> allocd s (Suc k, j)" "\<forall>b. allocd s1 b \<longleftrightarrow> allocd s b \<or> b = (Suc k, j)"
      "\<forall>k' < Suc k. bd_freelists s1 k' = bd_freelists s k'"
      using Suc.hyps(1) [of "Suc k", OF _ Suc.prems(1)] by blast
    have "bd_freelists s1 k = []" using s1(6) True by simp
    from take_split [OF s1(3) k _ this] s1(5) obtain s' where
      s': "take_block (bsz k) k (upd_free k [j * bsz (Suc k) + bsz k, j * bsz (Suc k)] s1) =
          Some ((2 * j + 1) * bsz k, s')" "valid k (2 * j + 1)" "bd_inv s'" "\<not> allocd s1 (k, 2 * j + 1)"
        "\<forall>b. allocd s' b \<longleftrightarrow> allocd s1 b \<and> b \<noteq> (Suc k, j) \<or> b = (k, 2 * j + 1)"
        "\<forall>k' < k. bd_freelists s' k' = bd_freelists s1 k'" by blast
    have "do_pmm_buddy_allocate (bsz k) s = Some ((2 * j + 1) * bsz k, s')"
      using u k True s1(1) s'(1) \<open>bd_freelists s1 k = []\<close> by simp
    moreover have "\<forall>b. allocd s' b \<longleftrightarrow> allocd s b \<or> b = (k, 2 * j + 1)" using s'(5) s1(4,5) by blast
    moreover have "\<not> allocd s (k, 2 * j + 1)" using s'(4) s1(5) by blast
    moreover have "\<forall>k' < k. bd_freelists s' k' = bd_freelists s k'" using s'(6) s1(6) by simp
    ultimately show ?thesis using s'(2,3) by blast
  qed
qed

section \<open>Deallocation\<close>

text \<open>Nothing below an allocated block is marked.\<close>

lemma descend:
  assumes inv: "bd_inv s" and a: "allocd s (k, i)"
  shows "d \<le> k \<Longrightarrow> m < 2 ^ d \<Longrightarrow> valid (k - d) (i * 2 ^ d + m) \<and> (0 < d \<longrightarrow> \<not> bd_test (k - d) (i * 2 ^ d + m) s)"
proof (induction d arbitrary: m)
  case 0
  then show ?case using allocd_valid [OF a] by simp
next
  case (Suc d)
  let ?p = "i * 2 ^ d + m div 2"
  have l: "k - d = Suc (k - Suc d)" using Suc.prems(1) by simp
  have ih: "valid (Suc (k - Suc d)) ?p" "0 < d \<Longrightarrow> \<not> bd_test (Suc (k - Suc d)) ?p s"
    using Suc.IH [of "m div 2"] Suc.prems l by auto
  have c: "i * 2 ^ Suc d + m = 2 * ?p \<or> i * 2 ^ Suc d + m = 2 * ?p + 1" by (simp add: algebra_simps) presburger
  have "\<not> bd_test (k - Suc d) (2 * ?p) s \<and> \<not> bd_test (k - Suc d) (2 * ?p + 1) s"
  proof (cases d)
    case 0
    then have "m div 2 = 0" using Suc.prems(2) by simp
    then show ?thesis using a 0 allocd_cases(2) [of s "k - 1" i] l by simp
  next
    case (Suc e)
    then show ?thesis using bd_invD(7) [OF inv ih(1)] ih(2) by simp
  qed
  then show ?case using valid_halves [OF ih(1)] c by metis
qed

lemma bsz_split: "k' \<le> k \<Longrightarrow> bsz k = 2 ^ (k - k') * bsz k'"
  by (simp add: bsz_def flip: power_add)

lemma dealloc_skip:
  assumes inv: "bd_inv s" and a: "allocd s (k, i)"
  shows "k' \<le> k \<Longrightarrow> deallocate (i * bsz k) k' s = deallocate (i * bsz k) k s"
proof (induction "k - k'" arbitrary: k')
  case (Suc n)
  then have k': "k' < k" by simp
  have "i * bsz k div (MIN_SIZE * 2 ^ k') = i * 2 ^ (k - k')"
    using bsz_split [of k' k] k' by (simp add: bsz_fold)
  moreover have "\<not> bd_test k' (i * 2 ^ (k - k')) s"
    using descend [OF inv a, of "k - k'" 0] k' by simp
  moreover have "k \<le> 18" using allocd_valid [OF a] by (simp add: valid_def)
  ultimately have "deallocate (i * bsz k) k' s = deallocate (i * bsz k) (k' + 1) s"
    using bd_invD(1) [OF inv] k' by (subst deallocate.simps) (simp add: MAX_ORDER_def)
  then show ?case using Suc.hyps(1) [of "k' + 1"] Suc.hyps(2) k' by simp
qed simp

lemma dealloc_top:
  assumes inv: "bd_inv s" and ad: "address < MEMORY_SIZE"
  shows "19 \<le> k \<Longrightarrow> k \<le> 22 \<Longrightarrow> deallocate address k s = Some (-1, s)"
proof (induction "22 - k" arbitrary: k)
  case 0
  then show ?case using bd_invD(1) [OF inv] by (subst deallocate.simps) (simp add: MAX_ORDER_def)
next
  case (Suc n)
  then have k: "k \<in> {19, 20, 21}" by auto
  then have bm: "bm k = bm 19" by (auto simp: bm_def)
  have "address div (MIN_SIZE * 2 ^ k) < 8"
    using ad k by (auto simp: MEMORY_SIZE_def MAX_SIZE_def MAX_ORDER_def MIN_SIZE_def less_mult_imp_div_less)
  moreover have "bd_bitmaps s k = bm k" using bd_invD(2) [OF inv] k by (auto simp: bd_maps_def)
  ultimately have "\<not> bd_test k (address div (MIN_SIZE * 2 ^ k)) s"
    using bd_invD(3) [OF inv] bm by (simp add: bd_test_def test_bit)
  then have "deallocate address k s = deallocate address (k + 1) s"
    using bd_invD(1) [OF inv] k by (subst deallocate.simps) (auto simp: MAX_ORDER_def)
  then show ?case using Suc by simp
qed

lemma upd_reset: "upd_free k l (bd_reset k i s) = bd_reset k i (upd_free k l s)"
  by (simp add: upd_free_def bd_reset_def)

lemma addr_range: "valid k i \<Longrightarrow> i * bsz k < MEMORY_SIZE"
proof -
  assume v: "valid k i"
  then have "i * bsz k < nb k * bsz k" by (simp add: valid_def)
  also have "nb k * bsz k = MEMORY_SIZE"
    using v by (simp add: nb_def bsz_def MEMORY_SIZE_def MAX_SIZE_def MAX_ORDER_def valid_def flip: power_add)
  finally show ?thesis .
qed

lemma dealloc_unfold:
  assumes inv: "bd_inv s" and a: "allocd s (k, i)"
  shows "deallocate (i * bsz k) k s = do {
      s \<leftarrow> (if \<not> bd_test k (flip i) s then do {
              l \<leftarrow> ls_remove (flip i * bsz k) (bd_freelists s k);
              (r, s) \<leftarrow> deallocate (i div 2 * bsz (Suc k)) (k + 1) (bd_reset k i (upd_free k l s));
              Some s }
            else Some (bd_reset k i (upd_free k (i * bsz k # bd_freelists s k) s)));
      Some (int k, upd_num k (\<lambda>n. n - 1) s) }"
proof -
  have v: "valid k i" "bd_test k i s" using allocd_valid [OF a] by auto
  then have k: "k \<le> 18" by (simp add: valid_def)
  have fv: "valid k (flip i)" using v flip_less [of k i] by (simp add: valid_def)
  let ?r = "bd_reset k i s"
  have tf: "bd_test k (flip i) ?r = bd_test k (flip i) s"
    using bd_test_set(2) [OF bd_invD(2) [OF inv] v(1) fv] by simp
  have e1: "i * bsz k = i div 2 * bsz (Suc k)" if "i < flip i"
    using flip_cases [of i] that by (metis bsz_Suc mult.assoc mult.commute less_add_one less_asym)
  have e2: "flip i * bsz k = i div 2 * bsz (Suc k)" if "\<not> i < flip i"
    using flip_cases [of i] that by (metis bsz_Suc mult.assoc mult.commute less_add_one)
  show ?thesis
    using bd_invD(1) [OF inv] k v(2)
    by (subst deallocate.simps, cases "i < flip i")
      (simp_all add: MAX_ORDER_def bsz_fold buddy_xor tf upd_reset Let_def e1 [symmetric] e2 [symmetric])
qed

lemma dealloc_ok:
  "bd_inv s \<Longrightarrow> allocd s (k, i) \<Longrightarrow>
   \<exists>s'. deallocate (i * bsz k) k s = Some (int k, s') \<and> bd_inv s' \<and>
     (\<forall>b. allocd s' b \<longleftrightarrow> allocd s b \<and> b \<noteq> (k, i))"
proof (induction "18 - k" arbitrary: k i s rule: less_induct)
  case less
  note inv = less.prems(1) and a = less.prems(2)
  have v: "valid k i" "bd_test k i s" using allocd_valid [OF a] by auto
  then have k: "k \<le> 18" by (simp add: valid_def)
  have fv: "valid k (flip i)" using v flip_less [of k i] by (simp add: valid_def)
  note unf = dealloc_unfold [OF inv a]
  show ?case
  proof (cases "bd_test k (flip i) s")
    case True
    let ?l = "i * bsz k # bd_freelists s k"
    have "i \<notin> free_set s k" using v by (simp add: free_set_def)
    then have "distinct ?l" using bd_invD(5,6) [OF inv k] by auto
    moreover have "set ?l = (\<lambda>i. i * bsz k) ` {j. j < nb k \<and> flip j \<noteq> i \<and> (j = i \<or> \<not> bd_test k j s) \<and> bd_test k (flip j) s}"
    proof -
      have "insert i (free_set s k) = {j. j < nb k \<and> flip j \<noteq> i \<and> (j = i \<or> \<not> bd_test k j s) \<and> bd_test k (flip j) s}"
        using True v flip_flip by (auto simp: free_set_def valid_def)
      then show ?thesis using bd_invD(6) [OF inv k] by (metis image_insert list.simps(15))
    qed
    ultimately have "bd_inv (bd_reset k i (upd_free k ?l s))" using unmark_inv [OF inv a] by blast
    then show ?thesis using unf True unmark_alloc [OF inv a, of ?l] by auto
  next
    case False
    let ?l = "remove1 (flip i * bsz k) (bd_freelists s k)"
    let ?s1 = "bd_reset k i (upd_free k ?l s)"
    have mem: "flip i * bsz k \<in> set (bd_freelists s k)"
      using bd_invD(6) [OF inv k] False v fv by (auto simp: free_set_def valid_def)
    have d: "distinct ?l" using bd_invD(5) [OF inv k] by simp
    have "set ?l = (\<lambda>i. i * bsz k) ` (free_set s k - {flip i})"
      using bd_invD(5,6) [OF inv k] by (simp add: image_set_diff [OF inj_bsz])
    also have "free_set s k - {flip i} = {j. j < nb k \<and> flip j \<noteq> i \<and> (j = i \<or> \<not> bd_test k j s) \<and> bd_test k (flip j) s}"
      using False v flip_flip by (auto simp: free_set_def)
    finally have inv1: "bd_inv ?s1" using unmark_inv [OF inv a d] by blast
    have al1: "allocd ?s1 b \<longleftrightarrow> b \<noteq> (k, i) \<and> (allocd s b \<or> b = (Suc k, i div 2) \<and> k < 18)" for b
      using unmark_alloc [OF inv a, of ?l b] False by simp
    have rec: "\<exists>r s2. deallocate (i div 2 * bsz (Suc k)) (k + 1) ?s1 = Some (r, s2) \<and> bd_inv s2 \<and>
        (\<forall>b. allocd s2 b \<longleftrightarrow> allocd s b \<and> b \<noteq> (k, i))"
    proof (cases "k < 18")
      case True
      have p: "allocd ?s1 (Suc k, i div 2)" using al1 True by simp
      have "\<not> allocd s (Suc k, i div 2)" using flip_cases [of i] v by (auto simp: allocd_cases)
      moreover obtain s2 where "deallocate (i div 2 * bsz (Suc k)) (Suc k) ?s1 = Some (int (Suc k), s2)" "bd_inv s2"
        "\<forall>b. allocd s2 b \<longleftrightarrow> allocd ?s1 b \<and> b \<noteq> (Suc k, i div 2)"
        using less.hyps [OF diff_less_mono2 [OF lessI True] inv1 p] by blast
      ultimately show ?thesis using al1 by auto
    next
      case False
      with k have "k = 18" by simp
      have "i div 2 * bsz (Suc k) \<le> i * bsz k" by (simp add: bsz_Suc)
      then have "i div 2 * bsz (Suc k) < MEMORY_SIZE" using addr_range [OF v(1)] by linarith
      from dealloc_top [OF inv1 this, of 19] have "deallocate (i div 2 * bsz (Suc k)) (k + 1) ?s1 = Some (-1, ?s1)"
        using \<open>k = 18\<close> by simp
      then show ?thesis using inv1 al1 False by auto
    qed
    then obtain r s2 where "deallocate (i div 2 * bsz (Suc k)) (k + 1) ?s1 = Some (r, s2)" "bd_inv s2"
      "\<forall>b. allocd s2 b \<longleftrightarrow> allocd s b \<and> b \<noteq> (k, i)" by blast
    then show ?thesis using unf False mem by simp
  qed
qed

section \<open>Initialisation\<close>

lemma init_loop_state:
  "i + n = 22 \<Longrightarrow> len = 2 ^ 18 div 2 ^ i \<Longrightarrow> start = bm i \<Longrightarrow>
   (\<forall>j. bd_bitmaps (init_loop n i start len s) j = (if i \<le> j \<and> j < 22 then bm j else bd_bitmaps s j)) \<and>
   (\<forall>j. bd_freelists (init_loop n i start len s) j = (if i \<le> j \<and> j < 22 then [] else bd_freelists s j)) \<and>
   (\<forall>a. bd_static (init_loop n i start len s) a = (if bm i \<le> a \<and> a < bm 19 then -1 else bd_static s a))"
proof (induction n arbitrary: i start len s)
  case 0
  then have "bm 19 = bm i" by (simp add: bm_def)
  with 0 show ?case by auto
next
  case (Suc n)
  have st: "start + len = bm (Suc i)"
  proof (cases "i \<le> 18")
    case True
    have "(2 :: nat) ^ 18 = 2 ^ (18 - i) * 2 ^ i" using True by (simp only: power_add [symmetric]) simp
    then have "(2 :: nat) ^ 18 div 2 ^ i = 2 ^ (18 - i)" 
      by (metis nonzero_mult_div_cancel_right power_not_zero zero_neq_numeral)
    then show ?thesis using Suc.prems bm_Suc [OF True] by simp
  next
    case False
    then have "(2 :: nat) ^ 18 < 2 ^ i" by (intro power_strict_increasing) auto
    then have "len = 0" using Suc.prems(2) by (simp only: div_less)
    then show ?thesis using Suc.prems(3) False by (simp add: bm_def)
  qed
  define s1 where "s1 = upd_num i (\<lambda>_. buddy_order_max_blocks i) (upd_free i [] (s\<lparr>bd_bitmaps := (bd_bitmaps s)(i := start),
      bd_static := memset start (-1) len (bd_static s)\<rparr>))"
  have eq: "init_loop (Suc n) i start len s = init_loop n (Suc i) (start + len) (len div 2) s1"
    by (simp add: Let_def s1_def)
  have "len div 2 = 2 ^ 18 div 2 ^ Suc i" using Suc.prems(2) by (metis div_mult2_eq power_Suc2)
  from Suc.IH [OF _ this st, of s1] Suc.prems(1) have
    ih: "\<forall>j. bd_bitmaps (init_loop n (Suc i) (start + len) (len div 2) s1) j = (if Suc i \<le> j \<and> j < 22 then bm j else bd_bitmaps s1 j)"
      "\<forall>j. bd_freelists (init_loop n (Suc i) (start + len) (len div 2) s1) j = (if Suc i \<le> j \<and> j < 22 then [] else bd_freelists s1 j)"
      "\<forall>a. bd_static (init_loop n (Suc i) (start + len) (len div 2) s1) a = (if bm (Suc i) \<le> a \<and> a < bm 19 then -1 else bd_static s1 a)"
    by auto
  have m: "bm (Suc i) \<le> bm 19" if "i \<le> 18" using bm_mono that by simp
  have z: "len = 0" if "\<not> i \<le> 18"
  proof -
    have "(2 :: nat) ^ 18 < 2 ^ i" using that by (intro power_strict_increasing) auto
    then show ?thesis using Suc.prems(2) by (simp only: div_less)
  qed
  have "bd_static s1 a = (if bm i \<le> a \<and> a < bm (Suc i) then -1 else bd_static s a)" for a
    using st Suc.prems(3) by (simp add: s1_def memset_apply)
  moreover have "bm 19 \<le> bm (Suc i)" if "\<not> i \<le> 18" using that bm_mono [of 19 "Suc i"] by simp
  moreover have "bm i = bm (Suc i)" if "\<not> i \<le> 18" using z [OF that] st Suc.prems(3) by simp
  moreover have "bm i \<le> bm (Suc i)" by (rule bm_mono) simp
  ultimately have "\<forall>a. bd_static (init_loop n (Suc i) (start + len) (len div 2) s1) a = (if bm i \<le> a \<and> a < bm 19 then -1 else bd_static s a)"
    using ih(3) m by (cases "i \<le> 18") auto
  moreover have "bd_bitmaps s1 = (bd_bitmaps s)(i := bm i)" "bd_freelists s1 = (bd_freelists s)(i := [])"
    using Suc.prems(3) by (simp_all add: s1_def)
  ultimately show ?case unfolding eq using ih(1,2) Suc.prems(1) by auto
qed

lemma init_inv:
  assumes "bd_static s (bm 19) = 0" "\<forall>k \<ge> 22. bd_freelists s k = []"
  shows "bd_inv (pmm_buddy_init s)" "allocd (pmm_buddy_init s) (k, i) \<longleftrightarrow> k = 0 \<and> i < nb 0"
proof -
  let ?s = "pmm_buddy_init s"
  have len: "(MEMORY_SIZE div MIN_SIZE) div 8 = 2 ^ 18 div 2 ^ 0"
    by (simp add: MEMORY_SIZE_def MAX_SIZE_def MAX_ORDER_def MIN_SIZE_def)
  have bm0: "0 = bm 0" by (simp add: bm_def)
  note l = init_loop_state [of 0 22 "(MEMORY_SIZE div MIN_SIZE) div 8" 0 s, OF _ len bm0]
  have p: "?s = (init_loop 22 0 0 ((MEMORY_SIZE div MIN_SIZE) div 8) s)\<lparr>bd_inited := True\<rparr>"
    by (simp add: pmm_buddy_init_def Let_def MAX_ORDER_def)
  have f: "bd_bitmaps ?s j = (if j < 22 then bm j else bd_bitmaps s j)" "bd_freelists ?s j = []"
    "bd_static ?s a = (if a < bm 19 then -1 else bd_static s a)" for j a
    using l assms(2) bm0 by (auto simp: p)
  have t: "bd_test k i ?s" if "valid k i" for k i
  proof -
    have "bm k + i div 8 < bm 19" using valid_byte_low [OF that] by simp
    then show ?thesis using that f(1) [of k] by (simp add: bd_test_def test_bit f(3) valid_def)
  qed
  have "free_set ?s k = {}" if "k \<le> 18" for k using t that by (auto simp: free_set_def valid_def)
  then show "bd_inv ?s" using f t assms(1) by (auto simp: bd_inv_def bd_maps_def p)
  show "allocd ?s (k, i) \<longleftrightarrow> k = 0 \<and> i < nb 0"
    using t valid_halves by (cases k) (auto simp: allocd_cases valid_def)
qed

section \<open>The contract of a block allocator\<close>

text \<open>The bytes of a block.\<close>

definition extent :: "nat \<times> nat \<Rightarrow> nat set" where
  "extent b = (case b of (k, i) \<Rightarrow> {i * bsz k ..< (i + 1) * bsz k})"

locale block_allocator =
  fixes inv :: "'s \<Rightarrow> bool"
    and owned :: "'s \<Rightarrow> 'b \<Rightarrow> bool"
    and mem :: "'b \<Rightarrow> nat set"
    and enough :: "'s \<Rightarrow> 'r \<Rightarrow> bool"
    and alloc :: "'r \<Rightarrow> 's \<Rightarrow> ('b \<times> 's) option"
    and free :: "'b \<Rightarrow> 's \<Rightarrow> 's option"
  assumes alloc: "inv s \<Longrightarrow> enough s r \<Longrightarrow>
      \<exists>b s'. alloc r s = Some (b, s') \<and> inv s' \<and> \<not> owned s b \<and> (\<forall>c. owned s' c \<longleftrightarrow> owned s c \<or> c = b)"
    and free: "inv s \<Longrightarrow> owned s b \<Longrightarrow>
      \<exists>s'. free b s = Some s' \<and> inv s' \<and> (\<forall>c. owned s' c \<longleftrightarrow> owned s c \<and> c \<noteq> b)"
    and apart: "inv s \<Longrightarrow> owned s b \<Longrightarrow> owned s c \<Longrightarrow> b \<noteq> c \<Longrightarrow> mem b \<inter> mem c = {}"
begin

lemma alloc_apart:
  assumes "inv s" "enough s r"
  shows "\<exists>b s'. alloc r s = Some (b, s') \<and> inv s' \<and> (\<forall>c. owned s c \<longrightarrow> mem b \<inter> mem c = {}) \<and>
    (\<forall>c. owned s' c \<longleftrightarrow> owned s c \<or> c = b)"
proof -
  obtain b s' where *: "alloc r s = Some (b, s')" "inv s'" "\<not> owned s b" "\<forall>c. owned s' c \<longleftrightarrow> owned s c \<or> c = b"
    using alloc [OF assms] by blast
  then have "\<forall>c. owned s c \<longrightarrow> mem b \<inter> mem c = {}" using apart [of s' b] by blast
  with * show ?thesis by blast
qed

lemma alloc_free:
  assumes "inv s" "enough s r" "alloc r s = Some (b, s')"
  shows "\<exists>s''. free b s' = Some s'' \<and> inv s'' \<and> (\<forall>c. owned s'' c \<longleftrightarrow> owned s c)"
proof -
  have *: "inv s'" "\<not> owned s b" "\<forall>c. owned s' c \<longleftrightarrow> owned s c \<or> c = b"
    using alloc [OF assms(1,2)] assms(3) by auto
  then obtain s'' where "free b s' = Some s''" "inv s''" "\<forall>c. owned s'' c \<longleftrightarrow> owned s' c \<and> c \<noteq> b"
    using free [of s' b] by blast
  with * show ?thesis by blast
qed

end

definition alloc_block :: "nat \<Rightarrow> buddy \<Rightarrow> ((nat \<times> nat) \<times> buddy) option" where
  "alloc_block k s = do { (a, s) \<leftarrow> pmm_buddy_allocate (bsz k) s; Some ((k, a div bsz k), s) }"

definition free_block :: "nat \<times> nat \<Rightarrow> buddy \<Rightarrow> buddy option" where
  "free_block b s = (case b of (k, i) \<Rightarrow> pmm_buddy_deallocate (i * bsz k) s)"

definition has_free :: "buddy \<Rightarrow> nat \<Rightarrow> bool" where
  "has_free s k \<longleftrightarrow> (\<exists>k'. k \<le> k' \<and> k' \<le> 18 \<and> bd_freelists s k' \<noteq> [])"

lemma bd_mem_simps [simp]:
  "allocd (s\<lparr>bd_free_memory := m\<rparr>) = allocd s" "allocd (s\<lparr>bd_total_memory := m\<rparr>) = allocd s"
  "bd_inv (s\<lparr>bd_free_memory := m\<rparr>) = bd_inv s" "bd_inv (s\<lparr>bd_total_memory := m\<rparr>) = bd_inv s"
  by (auto simp: allocd_def bd_inv_def bd_test_def bd_maps_def free_set_def fun_eq_iff split: nat.split)

lemma allocd_apart:
  assumes inv: "bd_inv s" and b: "allocd s (k, i)" and c: "allocd s (k', i')" and k: "k' \<le> k" and ne: "(k, i) \<noteq> (k', i')"
  shows "extent (k, i) \<inter> extent (k', i') = {}"
proof (rule ccontr)
  assume "extent (k, i) \<inter> extent (k', i') \<noteq> {}"
  then obtain x where "x \<in> extent (k, i)" "x \<in> extent (k', i')" by blast
  then have x: "i * bsz k \<le> x" "x < (i + 1) * bsz k" "i' * bsz k' \<le> x" "x < (i' + 1) * bsz k'"
    by (simp_all add: extent_def)
  let ?d = "k - k'"
  have "i = x div bsz k" "i' = x div bsz k'"
    using x by (auto intro!: div_nat_eqI [symmetric] simp: mult.commute)
  moreover have "x div bsz k = x div bsz k' div 2 ^ ?d"
    using bsz_split [OF k] by (metis div_mult2_eq mult.commute)
  ultimately have "i = i' div 2 ^ ?d" by simp
  then have e: "i' = i * 2 ^ ?d + i' mod 2 ^ ?d" by (metis div_mult_mod_eq)
  have "?d = 0 \<or> \<not> bd_test k' i' s" using descend [OF inv b, of ?d "i' mod 2 ^ ?d"] e k by auto
  then show False using allocd_valid [OF c] ne e k by auto
qed

interpretation ba: block_allocator bd_inv allocd extent "\<lambda>s k. k \<le> 18 \<and> has_free s k" alloc_block free_block
proof
  fix s k assume inv: "bd_inv s" and k: "k \<le> 18 \<and> has_free s k"
  then obtain i s' where s': "do_pmm_buddy_allocate (bsz k) s = Some (i * bsz k, s')" "valid k i" "bd_inv s'"
    "\<not> allocd s (k, i)" "\<forall>b. allocd s' b \<longleftrightarrow> allocd s b \<or> b = (k, i)"
    using alloc_ok [OF inv, of k] by (auto simp: has_free_def)
  then have "alloc_block k s = Some ((k, i), s'\<lparr>bd_free_memory := bd_free_memory s' - bsz k\<rparr>)"
    by (simp add: alloc_block_def pmm_buddy_allocate_def)
  moreover have "bd_inv (s'\<lparr>bd_free_memory := bd_free_memory s' - bsz k\<rparr>)" using s'(3) by simp
  moreover have "\<forall>c. allocd (s'\<lparr>bd_free_memory := bd_free_memory s' - bsz k\<rparr>) c \<longleftrightarrow> allocd s c \<or> c = (k, i)"
    unfolding bd_mem_simps by (rule s'(5))
  ultimately show "\<exists>b s'. alloc_block k s = Some (b, s') \<and> bd_inv s' \<and> \<not> allocd s b \<and>
      (\<forall>c. allocd s' c \<longleftrightarrow> allocd s c \<or> c = b)" using s'(4) by blast
next
  fix s b assume inv: "bd_inv s" and a: "allocd s b"
  obtain k i where b: "b = (k, i)" by (cases b)
  have "valid k i" using allocd_valid a b by blast
  then have ad: "\<not> i * bsz k \<ge> MIN_PHYS_MEM + MEMORY_SIZE" using addr_range by fastforce
  obtain s' where s': "deallocate (i * bsz k) k s = Some (int k, s')" "bd_inv s'"
    "\<forall>c. allocd s' c \<longleftrightarrow> allocd s c \<and> c \<noteq> (k, i)" using dealloc_ok [OF inv] a b by blast
  then have "deallocate (i * bsz k) 0 s = Some (int k, s')" 
    using dealloc_skip [OF inv, of k i 0] a b by simp
  then show "\<exists>s'. free_block b s = Some s' \<and> bd_inv s' \<and> (\<forall>c. allocd s' c \<longleftrightarrow> allocd s c \<and> c \<noteq> b)"
    using s' b ad by (simp add: free_block_def pmm_buddy_deallocate_def Let_def)
next
  fix s b c assume "bd_inv s" "allocd s b" "allocd s c" "b \<noteq> c"
  then show "extent b \<inter> extent c = {}"
    using allocd_apart by (metis Int_commute linear surj_pair)
qed

section \<open>Properties\<close>

text \<open>C4: an allocation of \<open>2 ^ k\<close> pages, when some free list of that order or above it is not
  empty, returns a block of that size, aligned to it, that overlaps no block allocated before;
  it becomes allocated and nothing else changes hands, whatever splitting was needed.\<close>

theorem pmm_buddy_allocate_apart:
  assumes "bd_inv s" and "k \<le> 18" and "has_free s k"
  shows "\<exists>i s'. pmm_buddy_allocate (bsz k) s = Some (i * bsz k, s') \<and> bd_inv s' \<and>
    (\<forall>c. allocd s c \<longrightarrow> extent (k, i) \<inter> extent c = {}) \<and> (\<forall>c. allocd s' c \<longleftrightarrow> allocd s c \<or> c = (k, i))"
proof -
  obtain b s' where b: "alloc_block k s = Some (b, s')" "bd_inv s'" "\<forall>c. allocd s c \<longrightarrow> extent b \<inter> extent c = {}"
    "\<forall>c. allocd s' c \<longleftrightarrow> allocd s c \<or> c = b" using ba.alloc_apart [OF assms(1)] assms(2,3) by blast
  obtain i t where t: "do_pmm_buddy_allocate (bsz k) s = Some (i * bsz k, t)"
    using alloc_ok [OF assms(1,2)] assms(3) by (auto simp: has_free_def)
  then have "pmm_buddy_allocate (bsz k) s = Some (i * bsz k, s')" "b = (k, i)"
    using b(1) by (auto simp: alloc_block_def pmm_buddy_allocate_def)
  with b show ?thesis by blast
qed

text \<open>A small state: everything initialised, then the first two pages given back.\<close>

definition buddy0 :: buddy where
  "buddy0 = pmm_buddy_init \<lparr>bd_static = \<lambda>_. 0, bd_bitmaps = \<lambda>_. 0, bd_freelists = \<lambda>_. [],
     bd_num_allocated = \<lambda>_. 0, bd_inited = False, bd_free_memory = 0, bd_total_memory = 0\<rparr>"

lemma buddy0_inv: "bd_inv buddy0" "allocd buddy0 (k, i) \<longleftrightarrow> k = 0 \<and> i < nb 0"
  unfolding buddy0_def by (rule init_inv; simp)+

lemma free_listed:
  assumes "bd_inv s" "valid k i" "\<not> bd_test k i s" "bd_test k (flip i) s"
  shows "has_free s k"
proof -
  have "i \<in> free_set s k" "k \<le> 18" using assms by (simp_all add: free_set_def valid_def)
  then have "bd_freelists s k \<noteq> []" using bd_invD(6) [OF assms(1), of k] by auto
  with \<open>k \<le> 18\<close> show ?thesis by (auto simp: has_free_def)
qed

text \<open>C15: giving back a block that is allocated never panics, whichever merges it causes, and
  afterwards exactly that block is no longer allocated.\<close>

theorem pmm_buddy_deallocate_exact:
  assumes "bd_inv s" and "allocd s (k, i)"
  shows "\<exists>s'. pmm_buddy_deallocate (i * bsz k) s = Some s' \<and> bd_inv s' \<and>
    (\<forall>c. allocd s' c \<longleftrightarrow> allocd s c \<and> c \<noteq> (k, i))"
  using ba.free [OF assms] by (simp add: free_block_def)

theorem pmm_buddy_deallocate_exact_witness:
  "\<exists>s'. pmm_buddy_deallocate 0x3000 buddy0 = Some s' \<and> bd_inv s' \<and> \<not> allocd s' (0, 3)"
proof -
  have "allocd buddy0 (0, 3)" by (simp add: buddy0_inv nb_def)
  from pmm_buddy_deallocate_exact [OF buddy0_inv(1) this] show ?thesis
    by (auto simp: bsz_def MIN_SIZE_def)
qed

theorem pmm_buddy_allocate_apart_witness:
  "\<exists>s1 i s2. pmm_buddy_deallocate 0x3000 buddy0 = Some s1 \<and>
     pmm_buddy_allocate 0x1000 s1 = Some (i * 0x1000, s2) \<and> allocd s2 (0, i)"
proof -
  have a: "allocd buddy0 (0, 3)" by (simp add: buddy0_inv nb_def)
  from ba.free [OF buddy0_inv(1) this] obtain s1 where
    s1: "pmm_buddy_deallocate 0x3000 buddy0 = Some s1" "bd_inv s1" "\<forall>c. allocd s1 c \<longleftrightarrow> allocd buddy0 c \<and> c \<noteq> (0, 3)"
    by (auto simp: free_block_def bsz_def MIN_SIZE_def)
  have "valid 0 3" "flip 3 = 2" by (simp_all add: valid_def nb_def flip_def)
  moreover have "allocd s1 (0, 2)" "\<not> allocd s1 (0, 3)" using s1(3) buddy0_inv(2) [of 0 2] by (simp_all add: nb_def)
  ultimately have "has_free s1 0" using free_listed [OF s1(2), of 0 3] by (auto simp: allocd_cases)
  from pmm_buddy_allocate_apart [OF s1(2) _ this] obtain i s2 where
    "pmm_buddy_allocate (bsz 0) s1 = Some (i * bsz 0, s2)" "\<forall>c. allocd s2 c \<longleftrightarrow> allocd s1 c \<or> c = (0, i)" by auto
  then show ?thesis using s1(1) by (auto simp: bsz_def MIN_SIZE_def)
qed


text \<open>A state in which the first of the 1 GiB blocks is allocated and all others are free.\<close>

definition buddy_top :: buddy where
  "buddy_top = \<lparr>bd_static = (\<lambda>_. 0)(bm 18 := 1), bd_bitmaps = bm, bd_freelists = (\<lambda>_. [])(18 := [bsz 18]),
     bd_num_allocated = \<lambda>_. 0, bd_inited = True, bd_free_memory = 0, bd_total_memory = 0\<rparr>"

lemma buddy_top_test: "valid k i \<Longrightarrow> bd_test k i buddy_top \<longleftrightarrow> k = 18 \<and> i = 0"
proof -
  assume v: "valid k i"
  have v0: "valid 18 0" by (simp add: valid_def nb_def)
  show ?thesis
  proof (cases "k = 18")
    case True
    then have "i < 8" using v by (simp add: valid_def nb_def)
    then show ?thesis using True by (auto simp: bd_test_def test_bit buddy_top_def bit_1_iff)
  next
    case False
    then show ?thesis using valid_byte_neq [OF v v0] by (simp add: bd_test_def test_bit buddy_top_def)
  qed
qed

lemma buddy_top_inv: "bd_inv buddy_top" "allocd buddy_top (18, 0)" "\<not> bd_test 18 (flip 0) buddy_top"
proof -
  have v: "valid 18 0" "valid 18 1" by (simp_all add: valid_def nb_def)
  have z: "flip j = 0 \<longleftrightarrow> j = 1" for j using flip_flip [of j] by (auto simp: flip_def)
  have f: "free_set buddy_top k = (if k = 18 then {1} else {})" if "k \<le> 18" for k
  proof -
    have "i < nb k \<Longrightarrow> bd_test k i buddy_top \<longleftrightarrow> k = 18 \<and> i = 0" for i
      using buddy_top_test that by (simp add: valid_def)
    then show ?thesis using that flip_less [of k] v z by (auto simp: free_set_def valid_def)
  qed
  have "bm 19 \<noteq> bm 18" using bm_Suc [of 18] by simp
  moreover have "\<not> valid 19 j" for j by (simp add: valid_def)
  ultimately show "bd_inv buddy_top" using f buddy_top_test valid_halves unfolding bd_inv_def
    by (auto simp: buddy_top_def bd_maps_def)
  show "allocd buddy_top (18, 0)"
    using allocd_cases(2) [of buddy_top 17 0] v buddy_top_test [of 18 0] buddy_top_test [of 17 0]
      buddy_top_test [of 17 1] valid_halves [of 17 0] by simp
  show "\<not> bd_test 18 (flip 0) buddy_top" using buddy_top_test [OF v(2)] by (simp add: flip_def)
qed


end
