(* ===== verification/CharBuffer.thy ===== *)
theory CharBuffer
  imports Prelude
begin

text \<open>
  The ring buffer of \<open>kernel/charbuffer.c\<close>, which carries the bytes of pipes, terminals
  and local sockets. \<open>head\<close>, \<open>tail\<close> and \<open>pending\<close> are atomic 64-bit
  counters that wrap; the lock \<open>write\<close> orders the writers and the lock \<open>read\<close> the
  readers, but a writer and a reader run side by side.

  \<open>charbuffer_write\<close> and \<open>charbuffer_read\<close> give a whole call. Where the code releases
  its lock to block, the rest of the system acts: the list \<open>env\<close> holds, for each
  resumption, what the others did to the buffer and whether the blockpoint was
  interrupted. A list that runs out is a caller that has not been resumed.
  The relation \<open>cb_step\<close> then splits both critical sections into their atomic accesses
  and interleaves a writer and a reader freely.
\<close>

section \<open>The structure\<close>

datatype cb_wait = WaitRead | WaitWrite

text \<open>
  \<open>cb_wakes\<close> records the calls of \<open>blocklist_unblock_all\<close>, by the list woken.
\<close>

record charbuffer =
  cb_buffer :: "nat \<Rightarrow> u8"
  cb_capacity :: u64
  cb_head :: u64
  cb_tail :: u64
  cb_pending :: u64
  cb_term :: bool
  cb_eof :: bool
  cb_wakes :: "cb_wait list"

definition CHARBUFFER_DO_ANY :: u32 where "CHARBUFFER_DO_ANY = 1"
definition CHARBUFFER_DO_NONBLOCK :: u32 where "CHARBUFFER_DO_NONBLOCK = 2"

definition charbuffer_pending :: "charbuffer \<Rightarrow> u64" where
  "charbuffer_pending cb = cb_pending cb"

definition charbuffer_avail :: "charbuffer \<Rightarrow> u64" where
  "charbuffer_avail cb = cb_capacity cb - cb_pending cb"

definition unblock_all :: "cb_wait \<Rightarrow> charbuffer \<Rightarrow> charbuffer" where
  "unblock_all w cb = cb\<lparr>cb_wakes := cb_wakes cb @ [w]\<rparr>"

definition charbuffer_create :: "(nat \<Rightarrow> u8) \<Rightarrow> u64 \<Rightarrow> charbuffer option" where
  "charbuffer_create mem cap = do {
     kassert (cap = 0x1000);
     Some \<lparr>cb_buffer = mem, cb_capacity = cap, cb_head = 0, cb_tail = 0, cb_pending = 0,
       cb_term = False, cb_eof = False, cb_wakes = []\<rparr> }"

definition charbuffer_terminate :: "charbuffer \<Rightarrow> charbuffer" where
  "charbuffer_terminate cb =
     unblock_all WaitRead (unblock_all WaitWrite (cb\<lparr>cb_term := True\<rparr>))"

definition charbuffer_reset :: "charbuffer \<Rightarrow> charbuffer" where
  "charbuffer_reset cb = unblock_all WaitRead (unblock_all WaitWrite
     (cb\<lparr>cb_term := False, cb_head := 0, cb_tail := 0, cb_pending := 0, cb_eof := False\<rparr>))"

section \<open>The pieces of a transfer\<close>

text \<open>The loop condition of both transfers.\<close>

definition transfer_more :: "u64 \<Rightarrow> u64 \<Rightarrow> u32 \<Rightarrow> bool" where
  "transfer_more amount len flags \<longleftrightarrow>
     amount \<noteq> len \<and> (flags AND CHARBUFFER_DO_ANY = 0 \<or> amount = 0)"

definition write_amount :: "charbuffer \<Rightarrow> u64 \<Rightarrow> u64" where
  "write_amount cb remaining =
    (let avail = cb_capacity cb - cb_pending cb;
         amount = (if avail > remaining then remaining else avail);
         thiswrite = cb_capacity cb - cb_head cb mod cb_capacity cb
     in if amount > thiswrite then thiswrite else amount)"

definition read_amount :: "charbuffer \<Rightarrow> u64 \<Rightarrow> u64" where
  "read_amount cb remaining =
    (let avail = cb_pending cb;
         amount = (if avail > remaining then remaining else avail);
         thisread = cb_capacity cb - cb_tail cb mod cb_capacity cb
     in if amount > thisread then thisread else amount)"

text \<open>\<open>memcpy\<close> between the ring and the caller's buffer.\<close>

fun copy_in :: "nat \<Rightarrow> u8 list \<Rightarrow> (nat \<Rightarrow> u8) \<Rightarrow> (nat \<Rightarrow> u8)" where
  "copy_in off [] b = b"
| "copy_in off (x # xs) b = copy_in (Suc off) xs (b(off := x))"

definition copy_out :: "nat \<Rightarrow> nat \<Rightarrow> (nat \<Rightarrow> u8) \<Rightarrow> u8 list" where
  "copy_out off n b = map b [off..<off + n]"

definition write_copy :: "charbuffer \<Rightarrow> u8 list \<Rightarrow> charbuffer" where
  "write_copy cb data =
     cb\<lparr>cb_buffer := copy_in (unat (cb_head cb mod cb_capacity cb)) data (cb_buffer cb)\<rparr>"

definition write_commit :: "charbuffer \<Rightarrow> u64 \<Rightarrow> charbuffer" where
  "write_commit cb amount =
     cb\<lparr>cb_pending := cb_pending cb + amount, cb_head := cb_head cb + amount\<rparr>"

definition read_commit :: "charbuffer \<Rightarrow> u64 \<Rightarrow> charbuffer" where
  "read_commit cb amount =
     cb\<lparr>cb_pending := cb_pending cb - amount, cb_tail := cb_tail cb + amount\<rparr>"

section \<open>Whole calls\<close>

text \<open>
  How a call ends: with the return value, or unfinished because the environment list has
  no further resumption; then the flag says whether the caller went to sleep in
  \<open>schedule\<close>.
\<close>

datatype cb_result = Returned int | Suspended bool

type_synonym cb_env = "(charbuffer \<Rightarrow> charbuffer \<times> bool) list"

text \<open>
  When the second test of the loop condition fails, the \<open>else\<close> branch commits and the
  loop ends, since it tests the same local values.
\<close>

fun write_loop :: "cb_env \<Rightarrow> charbuffer \<Rightarrow> u8 list \<Rightarrow> u64 \<Rightarrow> u32 \<Rightarrow> u64 \<Rightarrow> u64
    \<Rightarrow> charbuffer \<times> cb_result" where
  "write_loop env cb buf len flags written remaining =
    (if \<not> transfer_more written len flags
     then (unblock_all WaitRead cb, Returned (sint written))
     else
       let amount = write_amount cb remaining;
           cb1 = write_copy cb (take (unat amount) (drop (unat written) buf));
           written' = written + amount;
           remaining' = remaining - amount;
           cb2 = write_commit cb1 amount
       in if transfer_more written' len flags then
            if flags AND CHARBUFFER_DO_NONBLOCK \<noteq> 0 then (cb2, Returned (sint written'))
            else
              let cb3 = unblock_all WaitRead cb2 in
              (case env of
                 [] \<Rightarrow> (cb3, Suspended (cb_capacity cb3 - cb_pending cb3 = 0))
               | e # env' \<Rightarrow>
                   (let (cb4, interrupted) = e cb3 in
                    if interrupted then
                      (cb4, Returned (if written' = 0 then - EINTR else sint written'))
                    else if cb_term cb4 then (cb4, Returned (sint written'))
                    else write_loop env' cb4 buf len flags written' remaining'))
          else (unblock_all WaitRead (unblock_all WaitRead cb2), Returned (sint written')))"

definition charbuffer_write :: "cb_env \<Rightarrow> charbuffer \<Rightarrow> u8 list \<Rightarrow> u32 \<Rightarrow> charbuffer \<times> cb_result" where
  "charbuffer_write env cb buf flags =
    (if cb_term cb then (cb, Returned 0)
     else write_loop env cb buf (of_nat (length buf)) flags 0 (of_nat (length buf)))"

fun read_loop :: "cb_env \<Rightarrow> charbuffer \<Rightarrow> u8 list \<Rightarrow> u64 \<Rightarrow> u32 \<Rightarrow> u64 \<Rightarrow> u64
    \<Rightarrow> charbuffer \<times> u8 list \<times> cb_result" where
  "read_loop env cb buf len flags got remaining =
    (if \<not> transfer_more got len flags
     then (unblock_all WaitWrite cb, buf, Returned (sint got))
     else
       let amount = read_amount cb remaining;
           buf' = buf @ copy_out (unat (cb_tail cb mod cb_capacity cb)) (unat amount) (cb_buffer cb);
           got' = got + amount;
           remaining' = remaining - amount
       in if transfer_more got' len flags then
            if flags AND CHARBUFFER_DO_NONBLOCK \<noteq> 0 then
              (read_commit cb amount, buf', Returned (if got' > 0 then sint got' else - EAGAIN))
            else if cb_eof cb \<and> got' = 0 then (cb\<lparr>cb_eof := False\<rparr>, buf', Returned 0)
            else
              let cb3 = unblock_all WaitWrite (read_commit cb amount) in
              (case env of
                 [] \<Rightarrow> (cb3, buf', Suspended (cb_pending cb3 = 0 \<and> \<not> cb_term cb3))
               | e # env' \<Rightarrow>
                   (let (cb4, interrupted) = e cb3 in
                    if interrupted then
                      (cb4, buf', Returned (if got' = 0 then - EINTR else sint got'))
                    else if cb_term cb4 \<and> charbuffer_pending cb4 = 0
                    then (cb4, buf', Returned (sint got'))
                    else read_loop env' cb4 buf' len flags got' remaining'))
          else (unblock_all WaitWrite (unblock_all WaitWrite (read_commit cb amount)), buf',
                Returned (sint got')))"

definition charbuffer_read :: "cb_env \<Rightarrow> charbuffer \<Rightarrow> u64 \<Rightarrow> u32
    \<Rightarrow> charbuffer \<times> u8 list \<times> cb_result" where
  "charbuffer_read env cb len flags =
    (if cb_term cb \<and> charbuffer_pending cb = 0 then (cb, [], Returned 0)
     else read_loop env cb [] len flags 0 len)"

declare write_loop.simps [simp del] read_loop.simps [simp del]

section \<open>A writer and a reader side by side\<close>

text \<open>
  Where a writer is within its critical section (and likewise a reader): no transfer; the
  copy, with the offset loaded, the bytes to write and the number already copied; between
  the two atomic additions.
\<close>

datatype writer = WIdle | WCopy nat "u8 list" nat | WPended nat
datatype reader = RIdle | RCopy nat nat "u8 list" | RPended nat

text \<open>
  \<open>s_in\<close> and \<open>s_out\<close> record the bytes committed by writers and taken by readers
  since the last reset.
\<close>

record cb_system =
  s_cb :: charbuffer
  s_writer :: writer
  s_reader :: reader
  s_in :: "u8 list"
  s_out :: "u8 list"

inductive cb_step :: "cb_system \<Rightarrow> cb_system \<Rightarrow> bool" where
  w_load: "\<lbrakk>s_writer s = WIdle; \<not> cb_term (s_cb s); length data < 2 ^ 64;
      amount = write_amount (s_cb s) (of_nat (length data))\<rbrakk> \<Longrightarrow>
    cb_step s (s\<lparr>s_writer := WCopy (unat (cb_head (s_cb s) mod cb_capacity (s_cb s)))
                              (take (unat amount) data) 0\<rparr>)"
| w_byte: "\<lbrakk>s_writer s = WCopy off data k; k < length data\<rbrakk> \<Longrightarrow>
    cb_step s (s\<lparr>s_cb := (s_cb s)\<lparr>cb_buffer := (cb_buffer (s_cb s))(off + k := data ! k)\<rparr>,
                 s_writer := WCopy off data (Suc k)\<rparr>)"
| w_pending: "s_writer s = WCopy off data (length data) \<Longrightarrow>
    cb_step s (s\<lparr>s_cb := (s_cb s)\<lparr>cb_pending := cb_pending (s_cb s) + of_nat (length data)\<rparr>,
                 s_writer := WPended (length data), s_in := s_in s @ data\<rparr>)"
| w_head: "s_writer s = WPended n \<Longrightarrow>
    cb_step s (s\<lparr>s_cb := (s_cb s)\<lparr>cb_head := cb_head (s_cb s) + of_nat n\<rparr>, s_writer := WIdle\<rparr>)"
| r_load: "\<lbrakk>s_reader s = RIdle; amount = read_amount (s_cb s) remaining\<rbrakk> \<Longrightarrow>
    cb_step s (s\<lparr>s_reader := RCopy (unat (cb_tail (s_cb s) mod cb_capacity (s_cb s)))
                              (unat amount) []\<rparr>)"
| r_byte: "\<lbrakk>s_reader s = RCopy off n got; length got < n\<rbrakk> \<Longrightarrow>
    cb_step s (s\<lparr>s_reader := RCopy off n (got @ [cb_buffer (s_cb s) (off + length got)])\<rparr>)"
| r_pending: "\<lbrakk>s_reader s = RCopy off n got; length got = n\<rbrakk> \<Longrightarrow>
    cb_step s (s\<lparr>s_cb := (s_cb s)\<lparr>cb_pending := cb_pending (s_cb s) - of_nat n\<rparr>,
                 s_reader := RPended n, s_out := s_out s @ got\<rparr>)"
| r_tail: "s_reader s = RPended n \<Longrightarrow>
    cb_step s (s\<lparr>s_cb := (s_cb s)\<lparr>cb_tail := cb_tail (s_cb s) + of_nat n\<rparr>, s_reader := RIdle\<rparr>)"
| terminate: "\<lbrakk>s_writer s = WIdle; s_reader s = RIdle\<rbrakk> \<Longrightarrow>
    cb_step s (s\<lparr>s_cb := charbuffer_terminate (s_cb s)\<rparr>)"
| reset: "\<lbrakk>s_writer s = WIdle; s_reader s = RIdle\<rbrakk> \<Longrightarrow>
    cb_step s (s\<lparr>s_cb := charbuffer_reset (s_cb s), s_in := [], s_out := []\<rparr>)"
| eof: "cb_step s (s\<lparr>s_cb := (s_cb s)\<lparr>cb_eof := e\<rparr>\<rparr>)"

definition cb_start :: "charbuffer \<Rightarrow> cb_system" where
  "cb_start cb = \<lparr>s_cb = cb, s_writer = WIdle, s_reader = RIdle, s_in = [], s_out = []\<rparr>"

section \<open>Arithmetic of the ring\<close>

lemma unat_mod_capacity: "unat ((w :: u64) mod 0x1000) = unat w mod 4096"
  by (simp add: unat_mod_distrib)

lemma unat_of_nat_mod: "unat ((of_nat n :: u64) mod 0x1000) = n mod 4096"
proof -
  have "(n mod 2 ^ 64) mod 4096 = n mod (4096 :: nat)"
    by (rule mod_mod_cancel) simp
  then show ?thesis by (simp add: unat_mod_capacity unat_of_nat take_bit_eq_mod)
qed

lemma word_min: "(if (a :: u64) > b then b else a) = min a b"
  by (auto simp: min_def)

lemma unat_min: "unat (min (a :: u64) b) = min (unat a) (unat b)"
  by (simp add: min_def word_le_nat_alt)

lemma unat_sub_capacity: "unat w \<le> 4096 \<Longrightarrow> unat (0x1000 - w :: u64) = 4096 - unat w"
  by (subst unat_sub) (simp_all add: word_le_nat_alt)

lemma write_amount_unat:
  assumes "cb_capacity cb = 0x1000" "unat (cb_pending cb) \<le> 4096"
  shows "unat (write_amount cb rem) =
    min (min (4096 - unat (cb_pending cb)) (unat rem)) (4096 - unat (cb_head cb) mod 4096)"
proof -
  have "unat (cb_head cb) mod 4096 \<le> 4096"
    by (meson less_imp_le mod_less_divisor zero_less_numeral)
  then show ?thesis
    using assms by (simp add: write_amount_def Let_def word_min unat_min unat_sub_capacity
        unat_mod_capacity)
qed

lemma read_amount_unat:
  assumes "cb_capacity cb = 0x1000" "unat (cb_pending cb) \<le> 4096"
  shows "unat (read_amount cb rem) =
    min (min (unat (cb_pending cb)) (unat rem)) (4096 - unat (cb_tail cb) mod 4096)"
proof -
  have "unat (cb_tail cb) mod 4096 \<le> 4096"
    by (meson less_imp_le mod_less_divisor zero_less_numeral)
  then show ?thesis
    using assms by (simp add: read_amount_def Let_def word_min unat_min unat_sub_capacity
        unat_mod_capacity)
qed

lemma copy_in_apply:
  "copy_in off xs b i = (if off \<le> i \<and> i < off + length xs then xs ! (i - off) else b i)"
proof (induction xs arbitrary: off b)
  case (Cons x xs)
  show ?case
    unfolding copy_in.simps Cons.IH by (auto simp: nth_Cons')
qed auto

lemma mod_add_chunk: "n mod 4096 + k < 4096 \<Longrightarrow> (n + k) mod 4096 = n mod 4096 + (k :: nat)"
  by (metis mod_add_left_eq mod_less)

lemma mod_ring_inj:
  assumes "(i :: nat) mod 4096 = j mod 4096" "i \<le> j" "j < i + 4096"
  shows "i = j"
proof -
  have "4096 dvd j - i" using assms(1,2) by (metis mod_eq_dvd_iff_nat)
  then show ?thesis using assms(2,3) by (auto dest!: dvd_imp_le)
qed

section \<open>The invariant of the two sides\<close>

definition writer_ok :: "cb_system \<Rightarrow> bool" where
  "writer_ok s = (case s_writer s of
     WIdle \<Rightarrow> cb_head (s_cb s) = of_nat (length (s_in s))
   | WCopy off data k \<Rightarrow> cb_head (s_cb s) = of_nat (length (s_in s)) \<and>
       off = length (s_in s) mod 4096 \<and> off + length data \<le> 4096 \<and> k \<le> length data \<and>
       length (s_in s) + length data \<le> length (s_out s) + 4096 \<and>
       (\<forall>j < k. cb_buffer (s_cb s) (off + j) = data ! j)
   | WPended n \<Rightarrow> n \<le> length (s_in s) \<and> cb_head (s_cb s) = of_nat (length (s_in s) - n))"

definition reader_ok :: "cb_system \<Rightarrow> bool" where
  "reader_ok s = (case s_reader s of
     RIdle \<Rightarrow> cb_tail (s_cb s) = of_nat (length (s_out s))
   | RCopy off n got \<Rightarrow> cb_tail (s_cb s) = of_nat (length (s_out s)) \<and>
       off = length (s_out s) mod 4096 \<and> off + n \<le> 4096 \<and> length got \<le> n \<and>
       length (s_out s) + n \<le> length (s_in s) \<and>
       got = take (length got) (drop (length (s_out s)) (s_in s))
   | RPended n \<Rightarrow> n \<le> length (s_out s) \<and> cb_tail (s_cb s) = of_nat (length (s_out s) - n))"

definition ring_ok :: "cb_system \<Rightarrow> bool" where
  "ring_ok s \<longleftrightarrow> cb_capacity (s_cb s) = 0x1000 \<and>
     length (s_out s) \<le> length (s_in s) \<and> length (s_in s) \<le> length (s_out s) + 4096 \<and>
     unat (cb_pending (s_cb s)) = length (s_in s) - length (s_out s) \<and>
     s_out s = take (length (s_out s)) (s_in s) \<and>
     (\<forall>i. length (s_out s) \<le> i \<longrightarrow> i < length (s_in s) \<longrightarrow>
       cb_buffer (s_cb s) (i mod 4096) = s_in s ! i)"

definition cb_invariant :: "cb_system \<Rightarrow> bool" where
  "cb_invariant s \<longleftrightarrow> ring_ok s \<and> writer_ok s \<and> reader_ok s"

lemma cb_invariant_start:
  "charbuffer_create mem cap = Some cb \<Longrightarrow> cb_invariant (cb_start cb)"
  by (auto simp: charbuffer_create_def cb_invariant_def cb_start_def ring_ok_def writer_ok_def
      reader_ok_def split: if_splits)

lemma frame_simps [simp]:
  "ring_ok (s\<lparr>s_writer := w\<rparr>) = ring_ok s" "ring_ok (s\<lparr>s_reader := r\<rparr>) = ring_ok s"
  "reader_ok (s\<lparr>s_writer := w\<rparr>) = reader_ok s" "writer_ok (s\<lparr>s_reader := r\<rparr>) = writer_ok s"
  by (simp_all add: ring_ok_def reader_ok_def writer_ok_def split: reader.split writer.split)

lemma of_nat_head_add: "n \<le> m \<Longrightarrow> of_nat (m - n) + of_nat n = (of_nat m :: u64)"
  by (metis le_add_diff_inverse2 of_nat_add)

lemma w_load_ok:
  assumes "cb_invariant s" "s_writer s = WIdle" "length data < 2 ^ 64"
    "amount = write_amount (s_cb s) (of_nat (length data))"
  shows "cb_invariant (s\<lparr>s_writer := WCopy (unat (cb_head (s_cb s) mod cb_capacity (s_cb s)))
                              (take (unat amount) data) 0\<rparr>)"
proof -
  have cap: "cb_capacity (s_cb s) = 0x1000" and p: "unat (cb_pending (s_cb s)) \<le> 4096"
    and pd: "unat (cb_pending (s_cb s)) = length (s_in s) - length (s_out s)"
    and le: "length (s_out s) \<le> length (s_in s)" "length (s_in s) \<le> length (s_out s) + 4096"
    using assms(1) by (auto simp: cb_invariant_def ring_ok_def)
  have hd: "cb_head (s_cb s) = of_nat (length (s_in s))"
    using assms(1,2) by (simp add: cb_invariant_def writer_ok_def)
  have off: "unat (cb_head (s_cb s) mod cb_capacity (s_cb s)) = length (s_in s) mod 4096"
    using cap hd by (simp add: unat_of_nat_mod)
  have off': "unat (cb_head (s_cb s)) mod 4096 = length (s_in s) mod 4096"
    using off cap by (simp add: unat_mod_capacity)
  have lt: "length (s_in s) mod 4096 < 4096" by simp
  have "unat amount \<le> 4096 - length (s_in s) mod 4096"
    "unat amount \<le> 4096 - unat (cb_pending (s_cb s))"
    using write_amount_unat [OF cap p] assms(4) off' by simp_all
  then have a: "length (s_in s) mod 4096 + min (length data) (unat amount) \<le> 4096"
    "length (s_in s) + min (length data) (unat amount) \<le> length (s_out s) + 4096"
    using lt pd le by linarith+
  show ?thesis
    using assms(1) a hd unfolding cb_invariant_def off
    by (simp add: writer_ok_def)
qed


lemma w_byte_ok:
  assumes "cb_invariant s" "s_writer s = WCopy off data k" "k < length data"
  shows "cb_invariant (s\<lparr>s_cb := (s_cb s)\<lparr>cb_buffer := (cb_buffer (s_cb s))(off + k := data ! k)\<rparr>,
                 s_writer := WCopy off data (Suc k)\<rparr>)"
proof -
  let ?W = "length (s_in s)" and ?R = "length (s_out s)"
  have w: "off = ?W mod 4096" "off + length data \<le> 4096" "?W + length data \<le> ?R + 4096"
    "cb_head (s_cb s) = of_nat ?W" "\<forall>j < k. cb_buffer (s_cb s) (off + j) = data ! j"
    using assms(1,2) by (auto simp: cb_invariant_def writer_ok_def)
  have ring: "ring_ok s" using assms(1) by (simp add: cb_invariant_def)
  have cell: "off + k = (?W + k) mod 4096"
    using mod_add_chunk [of ?W k] w assms(3) by simp
  have "i mod 4096 \<noteq> off + k" if "?R \<le> i" "i < ?W" for i
    using mod_ring_inj [of i "?W + k"] that w(3) assms(3) unfolding cell by linarith
  then have "ring_ok (s\<lparr>s_cb := (s_cb s)\<lparr>cb_buffer := (cb_buffer (s_cb s))(off + k := data ! k)\<rparr>\<rparr>)"
    using ring by (simp add: ring_ok_def)
  moreover have "reader_ok (s\<lparr>s_cb := (s_cb s)\<lparr>cb_buffer := (cb_buffer (s_cb s))(off + k := data ! k)\<rparr>\<rparr>)"
    using assms(1) by (simp add: cb_invariant_def reader_ok_def split: reader.splits)
  ultimately show ?thesis
    using w assms(3) by (simp add: cb_invariant_def writer_ok_def less_Suc_eq ring_ok_def
        reader_ok_def split: reader.splits)
qed

lemma w_pending_ok:
  assumes "cb_invariant s" "s_writer s = WCopy off data (length data)"
  shows "cb_invariant (s\<lparr>s_cb := (s_cb s)\<lparr>cb_pending := cb_pending (s_cb s) + of_nat (length data)\<rparr>,
                 s_writer := WPended (length data), s_in := s_in s @ data\<rparr>)"
proof -
  let ?W = "length (s_in s)" and ?R = "length (s_out s)"
  have w: "off = ?W mod 4096" "off + length data \<le> 4096" "?W + length data \<le> ?R + 4096"
    "cb_head (s_cb s) = of_nat ?W" "\<forall>j < length data. cb_buffer (s_cb s) (off + j) = data ! j"
    using assms by (auto simp: cb_invariant_def writer_ok_def)
  have ring: "ring_ok s" and rd: "reader_ok s" using assms(1) by (simp_all add: cb_invariant_def)
  have RW: "?R \<le> ?W" "unat (cb_pending (s_cb s)) = ?W - ?R" "s_out s = take ?R (s_in s)"
    "\<And>i. ?R \<le> i \<Longrightarrow> i < ?W \<Longrightarrow> cb_buffer (s_cb s) (i mod 4096) = s_in s ! i"
    "cb_capacity (s_cb s) = 0x1000"
    using ring by (auto simp: ring_ok_def)
  have lt: "?W - ?R + length data < 2 ^ 64" using w(3) RW(1) by simp
  have pend: "unat (cb_pending (s_cb s) + of_nat (length data)) = ?W - ?R + length data"
  proof -
    have "cb_pending (s_cb s) + of_nat (length data) = of_nat (?W - ?R + length data)"
      unfolding RW(2) [symmetric] by simp
    then show ?thesis using lt RW(1) by (simp only: unat_of_nat64)
  qed
  have cells: "cb_buffer (s_cb s) (i mod 4096) = (s_in s @ data) ! i"
    if "?R \<le> i" "i < ?W + length data" for i
  proof (cases "i < ?W")
    case True then show ?thesis using RW(4) that by (simp add: nth_append)
  next
    case False
    define j where "j = i - ?W"
    then have j: "i = ?W + j" "j < length data" using False that by linarith+
    then show ?thesis using w mod_add_chunk [of ?W j] by (simp add: nth_append)
  qed
  have "reader_ok (s\<lparr>s_cb := (s_cb s)\<lparr>cb_pending := cb_pending (s_cb s) + of_nat (length data)\<rparr>,
                 s_writer := WPended (length data), s_in := s_in s @ data\<rparr>)"
    using rd by (auto simp: reader_ok_def split: reader.splits)
  then show ?thesis
    using w RW pend cells by (simp add: cb_invariant_def ring_ok_def writer_ok_def)
qed

lemma w_head_ok:
  assumes "cb_invariant s" "s_writer s = WPended n"
  shows "cb_invariant (s\<lparr>s_cb := (s_cb s)\<lparr>cb_head := cb_head (s_cb s) + of_nat n\<rparr>, s_writer := WIdle\<rparr>)"
  using assms by (auto simp: cb_invariant_def ring_ok_def writer_ok_def reader_ok_def of_nat_head_add
      split: reader.splits)

lemma r_load_ok:
  assumes "cb_invariant s" "s_reader s = RIdle" "amount = read_amount (s_cb s) remaining"
  shows "cb_invariant (s\<lparr>s_reader := RCopy (unat (cb_tail (s_cb s) mod cb_capacity (s_cb s)))
                              (unat amount) []\<rparr>)"
proof -
  have cap: "cb_capacity (s_cb s) = 0x1000" and p: "unat (cb_pending (s_cb s)) \<le> 4096"
    and pd: "unat (cb_pending (s_cb s)) = length (s_in s) - length (s_out s)"
    and le: "length (s_out s) \<le> length (s_in s)"
    using assms(1) by (auto simp: cb_invariant_def ring_ok_def)
  have tl: "cb_tail (s_cb s) = of_nat (length (s_out s))"
    using assms(1,2) by (simp add: cb_invariant_def reader_ok_def)
  have off: "unat (cb_tail (s_cb s) mod cb_capacity (s_cb s)) = length (s_out s) mod 4096"
    using cap tl by (simp add: unat_of_nat_mod)
  have off': "unat (cb_tail (s_cb s)) mod 4096 = length (s_out s) mod 4096"
    using off cap by (simp add: unat_mod_capacity)
  have lt: "length (s_out s) mod 4096 < 4096" by simp
  have "unat amount \<le> 4096 - length (s_out s) mod 4096" "unat amount \<le> unat (cb_pending (s_cb s))"
    using read_amount_unat [OF cap p] assms(3) off' by simp_all
  then have "length (s_out s) mod 4096 + unat amount \<le> 4096"
    "length (s_out s) + unat amount \<le> length (s_in s)"
    using lt pd le by linarith+
  then show ?thesis
    using assms(1) tl unfolding cb_invariant_def off by (simp add: reader_ok_def)
qed

lemma r_byte_ok:
  assumes "cb_invariant s" "s_reader s = RCopy off n got" "length got < n"
  shows "cb_invariant (s\<lparr>s_reader := RCopy off n (got @ [cb_buffer (s_cb s) (off + length got)])\<rparr>)"
proof -
  let ?R = "length (s_out s)" and ?g = "length got"
  have r: "off = ?R mod 4096" "off + n \<le> 4096" "?R + n \<le> length (s_in s)"
    "got = take ?g (drop ?R (s_in s))"
    using assms(1,2) by (auto simp: cb_invariant_def reader_ok_def)
  have "cb_buffer (s_cb s) ((?R + ?g) mod 4096) = s_in s ! (?R + ?g)"
    using assms(1,3) r(3) by (simp add: cb_invariant_def ring_ok_def)
  then have "cb_buffer (s_cb s) (off + ?g) = drop ?R (s_in s) ! ?g"
    using mod_add_chunk [of ?R ?g] r assms(3) by simp
  then have "got @ [cb_buffer (s_cb s) (off + ?g)] = take (Suc ?g) (drop ?R (s_in s))"
    using r(3,4) assms(3) by (simp add: take_Suc_conv_app_nth)
  then show ?thesis
    using assms r by (simp add: cb_invariant_def reader_ok_def)
qed

lemma r_pending_ok:
  assumes "cb_invariant s" "s_reader s = RCopy off n got" "length got = n"
  shows "cb_invariant (s\<lparr>s_cb := (s_cb s)\<lparr>cb_pending := cb_pending (s_cb s) - of_nat n\<rparr>,
                 s_reader := RPended n, s_out := s_out s @ got\<rparr>)"
proof -
  let ?W = "length (s_in s)" and ?R = "length (s_out s)"
  have r: "?R + n \<le> ?W" "got = take n (drop ?R (s_in s))" "cb_tail (s_cb s) = of_nat ?R"
    using assms by (auto simp: cb_invariant_def reader_ok_def)
  have ring: "ring_ok s" and wr: "writer_ok s" using assms(1) by (simp_all add: cb_invariant_def)
  have out: "s_out s @ got = take (?R + n) (s_in s)"
    using ring r(2) by (metis ring_ok_def take_add)
  have le: "of_nat n \<le> cb_pending (s_cb s)" "?W \<le> ?R + 4096"
    using ring r(1) by (auto simp: ring_ok_def word_le_nat_alt unat_of_nat64)
  have n: "unat (of_nat n :: u64) = n" using r(1) le(2) by (simp add: unat_of_nat64)
  have "unat (cb_pending (s_cb s) - of_nat n) = ?W - (?R + n)"
    using le(1) n ring by (simp add: unat_sub ring_ok_def)
  then have "ring_ok (s\<lparr>s_cb := (s_cb s)\<lparr>cb_pending := cb_pending (s_cb s) - of_nat n\<rparr>,
      s_reader := RPended n, s_out := s_out s @ got\<rparr>)"
    using ring r(1) assms(3) out by (simp add: ring_ok_def)
  moreover have "writer_ok (s\<lparr>s_cb := (s_cb s)\<lparr>cb_pending := cb_pending (s_cb s) - of_nat n\<rparr>,
      s_reader := RPended n, s_out := s_out s @ got\<rparr>)"
    using wr by (auto simp: writer_ok_def split: writer.splits)
  ultimately show ?thesis
    using r assms(3) by (simp add: cb_invariant_def reader_ok_def)
qed

lemma r_tail_ok:
  assumes "cb_invariant s" "s_reader s = RPended n"
  shows "cb_invariant (s\<lparr>s_cb := (s_cb s)\<lparr>cb_tail := cb_tail (s_cb s) + of_nat n\<rparr>, s_reader := RIdle\<rparr>)"
  using assms by (auto simp: cb_invariant_def ring_ok_def writer_ok_def reader_ok_def of_nat_head_add
      split: writer.splits)

lemma cb_step_invariant: "cb_step s t \<Longrightarrow> cb_invariant s \<Longrightarrow> cb_invariant t"
proof (induction rule: cb_step.induct)
  case (terminate s)
  then show ?case by (simp add: cb_invariant_def ring_ok_def writer_ok_def reader_ok_def
        charbuffer_terminate_def unblock_all_def)
next
  case (reset s)
  then show ?case by (simp add: cb_invariant_def ring_ok_def writer_ok_def reader_ok_def
        charbuffer_reset_def unblock_all_def)
next
  case (eof s e)
  then show ?case by (simp add: cb_invariant_def ring_ok_def writer_ok_def reader_ok_def
        split: writer.splits reader.splits)
qed (blast intro: w_load_ok w_byte_ok w_pending_ok w_head_ok r_load_ok r_byte_ok r_pending_ok r_tail_ok)+

lemma cb_reachable_invariant:
  "cb_step\<^sup>*\<^sup>* s t \<Longrightarrow> cb_invariant s \<Longrightarrow> cb_invariant t"
  by (induction rule: rtranclp_induct) (auto intro: cb_step_invariant)

section \<open>Whole calls as operations on a queue\<close>

definition cb_wf :: "charbuffer \<Rightarrow> bool" where
  "cb_wf cb \<longleftrightarrow> cb_capacity cb = 0x1000 \<and> unat (cb_pending cb) \<le> 4096 \<and>
     unat (cb_head cb) mod 4096 = (unat (cb_tail cb) + unat (cb_pending cb)) mod 4096"

definition cb_content :: "charbuffer \<Rightarrow> u8 list" where
  "cb_content cb = map (\<lambda>i. cb_buffer cb ((unat (cb_tail cb) + i) mod 4096)) [0..<unat (cb_pending cb)]"

lemma length_content [simp]: "length (cb_content cb) = unat (cb_pending cb)"
  by (simp add: cb_content_def)

lemma cb_wf_simps [simp]:
  "cb_wf (unblock_all w cb) = cb_wf cb" "cb_content (unblock_all w cb) = cb_content cb"
  "cb_wf (cb\<lparr>cb_eof := e\<rparr>) = cb_wf cb" "cb_content (cb\<lparr>cb_eof := e\<rparr>) = cb_content cb"
  "cb_wf (charbuffer_terminate cb) = cb_wf cb"
  "cb_content (charbuffer_terminate cb) = cb_content cb"
  "cb_content (charbuffer_reset cb) = []"
  by (simp_all add: cb_wf_def cb_content_def unblock_all_def charbuffer_terminate_def
      charbuffer_reset_def)

lemma unblock_all_simps [simp]:
  "cb_term (unblock_all w cb) = cb_term cb" "cb_pending (unblock_all w cb) = cb_pending cb"
  "cb_capacity (unblock_all w cb) = cb_capacity cb" "cb_eof (unblock_all w cb) = cb_eof cb"
  by (simp_all add: unblock_all_def)

lemma unat_add_mod_capacity: "unat (a + b :: u64) mod 4096 = (unat a + unat b) mod 4096"
proof -
  have "((unat a + unat b) mod 2 ^ 64) mod 4096 = (unat a + unat b) mod (4096 :: nat)"
    by (rule mod_mod_cancel) simp
  then show ?thesis by (simp add: unat_word_ariths)
qed

lemma write_chunk:
  assumes "cb_wf cb" "amount = write_amount cb rem" "unat amount = length data"
  shows "cb_wf (write_commit (write_copy cb data) amount)"
    and "cb_content (write_commit (write_copy cb data) amount) = cb_content cb @ data"
proof -
  let ?p = "unat (cb_pending cb)" and ?h = "unat (cb_head cb) mod 4096" and ?n = "length data"
  have cap: "cb_capacity cb = 0x1000" and p: "?p \<le> 4096"
    and ht: "?h = (unat (cb_tail cb) + ?p) mod 4096"
    using assms(1) by (auto simp: cb_wf_def)
  have a: "?n \<le> 4096 - ?p" "?n \<le> 4096 - ?h"
    using write_amount_unat [OF cap p, of rem] assms(2,3) by simp_all
  have "?h < 4096" by simp
  then have fit: "?h + ?n \<le> 4096" "?p + ?n \<le> 4096" using a p by linarith+
  have pend: "unat (cb_pending cb + amount) = ?p + ?n"
    using fit(2) assms(3) by (simp add: unat_word_ariths)
  show "cb_wf (write_commit (write_copy cb data) amount)"
  proof -
    have "unat (cb_head cb + amount) mod 4096 = (unat (cb_tail cb) + (?p + ?n)) mod 4096"
      unfolding unat_add_mod_capacity assms(3) add.assoc [symmetric]
      by (subst (1 2) mod_add_left_eq [symmetric]) (simp only: ht)
    then show ?thesis
      using cap fit(2) pend by (simp add: cb_wf_def write_commit_def write_copy_def)
  qed
  show "cb_content (write_commit (write_copy cb data) amount) = cb_content cb @ data"
  proof (rule nth_equalityI)
    fix i assume "i < length (cb_content (write_commit (write_copy cb data) amount))"
    then have i: "i < ?p + ?n" using pend by (simp add: write_commit_def write_copy_def)
    have v: "cb_content (write_commit (write_copy cb data) amount) ! i =
        copy_in ?h data (cb_buffer cb) ((unat (cb_tail cb) + i) mod 4096)"
      using i pend cap by (simp add: cb_content_def write_commit_def write_copy_def unat_mod_capacity)
    show "cb_content (write_commit (write_copy cb data) amount) ! i = (cb_content cb @ data) ! i"
    proof (cases "i < ?p")
      case True
      have "(unat (cb_tail cb) + i) mod 4096 \<noteq> ?h + j" if "j < ?n" for j
      proof -
        have "?h + j = (unat (cb_tail cb) + (?p + j)) mod 4096"
          using mod_add_chunk [of "unat (cb_tail cb) + ?p" j] ht fit(1) that by (simp add: add.assoc)
        then show ?thesis
          using mod_ring_inj [of "unat (cb_tail cb) + i" "unat (cb_tail cb) + (?p + j)"] True that fit(2)
          by linarith
      qed
      then have "\<not> (?h \<le> (unat (cb_tail cb) + i) mod 4096 \<and> (unat (cb_tail cb) + i) mod 4096 < ?h + ?n)"
        by (metis le_add_diff_inverse nat_add_left_cancel_less)
      then have "copy_in ?h data (cb_buffer cb) ((unat (cb_tail cb) + i) mod 4096) = cb_content cb ! i"
        unfolding copy_in_apply using True by (auto simp: cb_content_def)
      then show ?thesis using v True by (simp add: nth_append)
    next
      case False
      define j where "j = i - ?p"
      then have j: "i = ?p + j" "j < ?n" using False i by linarith+
      have "(unat (cb_tail cb) + i) mod 4096 = ?h + j"
        using mod_add_chunk [of "unat (cb_tail cb) + ?p" j] ht fit(1) j by (simp add: add.assoc)
      then show ?thesis using v j by (simp add: copy_in_apply nth_append)
    qed
  qed (simp add: pend write_commit_def write_copy_def)
qed

lemma read_chunk:
  assumes "cb_wf cb" "amount = read_amount cb rem"
  shows "cb_wf (read_commit cb amount)"
    and "copy_out (unat (cb_tail cb mod cb_capacity cb)) (unat amount) (cb_buffer cb) @
         cb_content (read_commit cb amount) = cb_content cb"
    and "unat amount \<le> unat (cb_pending cb)"
proof -
  let ?p = "unat (cb_pending cb)" and ?t = "unat (cb_tail cb) mod 4096" and ?n = "unat amount"
  have cap: "cb_capacity cb = 0x1000" and p: "?p \<le> 4096"
    and ht: "unat (cb_head cb) mod 4096 = (unat (cb_tail cb) + ?p) mod 4096"
    using assms(1) by (auto simp: cb_wf_def)
  have a: "?n \<le> ?p" "?n \<le> 4096 - ?t"
    using read_amount_unat [OF cap p, of rem] assms(2) by simp_all
  then show "?n \<le> ?p" by simp
  have pend: "unat (cb_pending cb - amount) = ?p - ?n"
    using a(1) by (simp add: unat_sub word_le_nat_alt)
  have tl: "unat (cb_tail cb + amount) mod 4096 = (unat (cb_tail cb) + ?n) mod 4096"
    by (rule unat_add_mod_capacity)
  have "(unat (cb_tail cb + amount) + (?p - ?n)) mod 4096 = (unat (cb_tail cb) + ?p) mod 4096"
    using a(1) by (subst mod_add_left_eq [symmetric]) (simp only: tl mod_add_left_eq, simp)
  then show "cb_wf (read_commit cb amount)"
    using cap p ht pend by (simp add: cb_wf_def read_commit_def)
  have out: "copy_out (unat (cb_tail cb mod cb_capacity cb)) ?n (cb_buffer cb) = take ?n (cb_content cb)"
  proof (rule nth_equalityI)
    fix i assume "i < length (copy_out (unat (cb_tail cb mod cb_capacity cb)) ?n (cb_buffer cb))"
    then have i: "i < ?n" by (simp add: copy_out_def)
    have "(unat (cb_tail cb) + i) mod 4096 = ?t + i"
      by (rule mod_add_chunk) (use a(2) i in linarith)
    then show "copy_out (unat (cb_tail cb mod cb_capacity cb)) ?n (cb_buffer cb) ! i =
        take ?n (cb_content cb) ! i"
      using i a(1) cap by (simp add: copy_out_def cb_content_def unat_mod_capacity)
  qed (use a(1) in \<open>simp add: copy_out_def\<close>)
  have "cb_content (read_commit cb amount) = drop ?n (cb_content cb)"
  proof (rule nth_equalityI)
    fix i assume "i < length (cb_content (read_commit cb amount))"
    then have i: "i < ?p - ?n" using pend by (simp add: read_commit_def)
    have "(unat (cb_tail cb + amount) + i) mod 4096 = (unat (cb_tail cb) + (?n + i)) mod 4096"
      by (subst mod_add_left_eq [symmetric]) (simp only: tl mod_add_left_eq add.assoc)
    moreover have "?n + i < ?p" using i by linarith
    ultimately show "cb_content (read_commit cb amount) ! i = drop ?n (cb_content cb) ! i"
      using i pend by (simp add: cb_content_def read_commit_def)
  qed (simp add: pend read_commit_def)
  then show "copy_out (unat (cb_tail cb mod cb_capacity cb)) ?n (cb_buffer cb) @
         cb_content (read_commit cb amount) = cb_content cb"
    using out by simp
qed

text \<open>
  What the others may do while a writer sleeps: take bytes from the front; while a reader
  sleeps: append bytes.
\<close>

definition env_reads :: "cb_env \<Rightarrow> bool" where
  "env_reads env \<longleftrightarrow> (\<forall>e \<in> set env. \<forall>cb. cb_wf cb \<longrightarrow> cb_wf (fst (e cb)) \<and>
     (\<exists>ys. cb_content cb = ys @ cb_content (fst (e cb))))"

definition env_writes :: "cb_env \<Rightarrow> bool" where
  "env_writes env \<longleftrightarrow> (\<forall>e \<in> set env. \<forall>cb. cb_wf cb \<longrightarrow> cb_wf (fst (e cb)) \<and>
     (\<exists>ys. cb_content (fst (e cb)) = cb_content cb @ ys))"

lemma sint_small:
  assumes "unat (w :: u64) < 2 ^ 63"
  shows "sint w = int (unat w)"
proof -
  have "int (unat w) < int (2 ^ 63)" using assms by (simp only: of_nat_less_iff)
  then have lt: "uint w < 2 ^ 63" by simp
  moreover have "- (2 ^ 63) \<le> uint w" by (rule order_trans [of _ 0]) simp_all
  ultimately show ?thesis using sint_word_of_int64 [of "uint w"] by simp
qed

lemma unat_add_le: "unat a + unat (b :: u64) = n \<Longrightarrow> n < 2 ^ 63 \<Longrightarrow> unat c \<le> unat b \<Longrightarrow>
    unat (a + c) = unat a + unat c \<and> unat (b - c) = unat b - unat c"
  by (auto simp: unat_word_ariths unat_sub word_le_nat_alt)

lemma write_amount_le:
  assumes "cb_wf cb"
  shows "unat (write_amount cb rem) \<le> unat rem"
proof -
  have "cb_capacity cb = 0x1000" "unat (cb_pending cb) \<le> 4096" using assms by (auto simp: cb_wf_def)
  then show ?thesis using write_amount_unat [of cb rem] by linarith
qed

lemma read_amount_le:
  assumes "cb_wf cb"
  shows "unat (read_amount cb rem) \<le> unat rem"
proof -
  have "cb_capacity cb = 0x1000" "unat (cb_pending cb) \<le> 4096" using assms by (auto simp: cb_wf_def)
  then show ?thesis using read_amount_unat [of cb rem] by linarith
qed

text \<open>The effect of one pass of the write loop, with the caller's counters.\<close>

lemma write_pass:
  assumes "cb_wf cb" "length buf < 2 ^ 63" "unat written + unat remaining = length buf"
    "amount = write_amount cb remaining"
  defines "cb2 \<equiv> write_commit (write_copy cb (take (unat amount) (drop (unat written) buf))) amount"
  shows "cb_wf cb2" "unat (written + amount) = unat written + unat amount"
    "unat (written + amount) + unat (remaining - amount) = length buf"
    "cb_content cb2 = cb_content cb @ take (unat (written + amount) - unat written) (drop (unat written) buf)"
proof -
  have le: "unat amount \<le> unat remaining" using write_amount_le [OF assms(1)] assms(4) by simp
  have u: "unat (written + amount) = unat written + unat amount"
    "unat (remaining - amount) = unat remaining - unat amount"
    using unat_add_le [OF assms(3,2) le] by simp_all
  then show "unat (written + amount) = unat written + unat amount"
    "unat (written + amount) + unat (remaining - amount) = length buf"
    using assms(3) le by simp_all
  have len: "unat amount = length (take (unat amount) (drop (unat written) buf))"
    using le assms(3) by simp
  show "cb_wf cb2" unfolding cb2_def by (rule write_chunk(1) [OF assms(1,4) len])
  show "cb_content cb2 = cb_content cb @ take (unat (written + amount) - unat written) (drop (unat written) buf)"
    unfolding cb2_def write_chunk(2) [OF assms(1,4) len] by (simp add: u)
qed

lemma take_drop_join:
  "a \<le> b \<Longrightarrow> b \<le> c \<Longrightarrow> take (b - a) (drop a xs) @ take (c - b) (drop b xs) = take (c - a) (drop a xs)"
  using take_add [of "b - a" "c - b" "drop a xs"] by simp

definition write_post :: "u8 list \<Rightarrow> charbuffer \<Rightarrow> nat \<Rightarrow> charbuffer \<times> cb_result \<Rightarrow> bool" where
  "write_post buf cb start res \<longleftrightarrow> cb_wf (fst res) \<and>
     (\<exists>n ys. start \<le> n \<and> n \<le> length buf \<and>
       ys @ cb_content (fst res) = cb_content cb @ take (n - start) (drop start buf) \<and>
       (case snd res of Returned v \<Rightarrow> v = int n \<or> n = 0 \<and> v = - EINTR | Suspended b \<Rightarrow> True))"

lemma write_post_here:
  assumes "cb_wf c" "ys @ cb_content c = cb_content cb @ take (n - start) (drop start buf)"
    "start \<le> n" "n \<le> length buf"
  shows "v = int n \<or> n = 0 \<and> v = - EINTR \<Longrightarrow> write_post buf cb start (c, Returned v)"
    and "write_post buf cb start (c, Suspended b)"
proof -
  show "write_post buf cb start (c, Returned v)" if "v = int n \<or> n = 0 \<and> v = - EINTR"
    unfolding write_post_def using assms that by (auto intro!: exI [of _ n] exI [of _ ys])
  show "write_post buf cb start (c, Suspended b)"
    unfolding write_post_def using assms by (auto intro!: exI [of _ n] exI [of _ ys])
qed

lemma write_post_trans:
  assumes "ys @ cb_content c = cb_content cb @ take (m - start) (drop start buf)" "start \<le> m"
    "write_post buf c m res"
  shows "write_post buf cb start res"
proof -
  obtain n zs where n: "m \<le> n" "n \<le> length buf"
    "zs @ cb_content (fst res) = cb_content c @ take (n - m) (drop m buf)"
    "case snd res of Returned v \<Rightarrow> v = int n \<or> n = 0 \<and> v = - EINTR | Suspended b \<Rightarrow> True"
    and wf: "cb_wf (fst res)"
    using assms(3) unfolding write_post_def by blast
  have "(ys @ zs) @ cb_content (fst res) = cb_content cb @ take (n - start) (drop start buf)"
    using assms(1) n(3) take_drop_join [OF assms(2) n(1), of buf] by (metis append.assoc)
  then show ?thesis
    unfolding write_post_def using n wf assms(2) by (meson le_trans)
qed

lemma write_loop_step:
  assumes "transfer_more written len flags" "amount = write_amount cb remaining"
    "cb2 = write_commit (write_copy cb (take (unat amount) (drop (unat written) buf))) amount"
  shows "write_loop env cb buf len flags written remaining =
    (if transfer_more (written + amount) len flags then
       if flags AND CHARBUFFER_DO_NONBLOCK \<noteq> 0 then (cb2, Returned (sint (written + amount)))
       else (case env of
           [] \<Rightarrow> (unblock_all WaitRead cb2, Suspended (cb_capacity cb2 - cb_pending cb2 = 0))
         | e # env' \<Rightarrow>
             (let (cb4, interrupted) = e (unblock_all WaitRead cb2) in
              if interrupted then
                (cb4, Returned (if written + amount = 0 then - EINTR else sint (written + amount)))
              else if cb_term cb4 then (cb4, Returned (sint (written + amount)))
              else write_loop env' cb4 buf len flags (written + amount) (remaining - amount)))
     else (unblock_all WaitRead (unblock_all WaitRead cb2), Returned (sint (written + amount))))"
  using assms(1) unfolding assms(3) assms(2)
  by (subst write_loop.simps) (simp add: Let_def split: list.split)

lemma write_loop_post:
  assumes "cb_wf cb" "env_reads env" "length buf < 2 ^ 63" "unat written + unat remaining = length buf"
  shows "write_post buf cb (unat written) (write_loop env cb buf len flags written remaining)"
  using assms
proof (induction env arbitrary: cb written remaining)
  case (Nil cb written remaining)
  define amount where "amount = write_amount cb remaining"
  define cb2 where "cb2 = write_commit (write_copy cb (take (unat amount) (drop (unat written) buf))) amount"
  note pass = write_pass [OF Nil(1,3,4) amount_def, folded cb2_def]
  have n: "unat written \<le> unat (written + amount)" "unat (written + amount) \<le> length buf"
    using pass(2,3) by linarith+
  have s: "sint (written + amount) = int (unat (written + amount))"
    by (rule sint_small) (use n Nil(3) in linarith)
  have s0: "sint written = int (unat written)"
    by (rule sint_small) (use n Nil(3) in linarith)
  note here = write_post_here [of _ "[]" cb "unat (written + amount)" "unat written" buf, OF _ _ n]
  show ?case
  proof (cases "transfer_more written len flags")
    case False
    then show ?thesis
      using  write_post_here(1) [of "unblock_all WaitRead cb" "[]" cb "unat written" "unat written" buf] Nil(1) n s0
      by (simp add: write_loop.simps [of "[]" cb])
  next
    case True
    show ?thesis
      unfolding write_loop_step [OF True amount_def cb2_def]
      using here(1) [of cb2] here(1) [of "unblock_all WaitRead (unblock_all WaitRead cb2)"]
        here(2) [of "unblock_all WaitRead cb2"] pass(1,4) s by simp
  qed
next
  case (Cons e env cb written remaining)
  define amount where "amount = write_amount cb remaining"
  define cb2 where "cb2 = write_commit (write_copy cb (take (unat amount) (drop (unat written) buf))) amount"
  note pass = write_pass [OF Cons(2,4,5) amount_def, folded cb2_def]
  have n: "unat written \<le> unat (written + amount)" "unat (written + amount) \<le> length buf"
    using pass(2,3) by linarith+
  have s: "sint (written + amount) = int (unat (written + amount))"
    by (rule sint_small) (use n Cons(4) in linarith)
  have s0: "sint written = int (unat written)"
    by (rule sint_small) (use n Cons(4) in linarith)
  note here = write_post_here [of _ "[]" cb "unat (written + amount)" "unat written" buf, OF _ _ n]
  obtain cb4 intr where e: "e (unblock_all WaitRead cb2) = (cb4, intr)" by fastforce
  have "cb_wf (unblock_all WaitRead cb2)" using pass(1) by simp
  then obtain ys where wf4: "cb_wf cb4" and ys: "cb_content cb2 = ys @ cb_content cb4"
    using Cons(3) e unfolding env_reads_def by (metis cb_wf_simps(2) fst_conv list.set_intros(1))
  have c4: "ys @ cb_content cb4 = cb_content cb @ take (unat (written + amount) - unat written) (drop (unat written) buf)"
    using ys pass(4) by simp
  note there = write_post_here(1) [OF wf4 c4 n]
  have env': "env_reads env" using Cons(3) by (simp add: env_reads_def)
  note later = write_post_trans [OF c4 n(1) Cons.IH [OF wf4 env' Cons(4) pass(3)]]
  show ?case
  proof (cases "transfer_more written len flags")
    case False
    then show ?thesis
      using  write_post_here(1) [of "unblock_all WaitRead cb" "[]" cb "unat written" "unat written" buf] Cons(2) n s0
      by (simp add: write_loop.simps [of "e # env" cb])
  next
    case True
    show ?thesis
      unfolding write_loop_step [OF True amount_def cb2_def]
      using here(1) [of cb2] here(1) [of "unblock_all WaitRead (unblock_all WaitRead cb2)"]
        there later e pass(1,4) s by simp
  qed
qed

definition read_post :: "u8 list \<Rightarrow> charbuffer \<Rightarrow> charbuffer \<times> u8 list \<times> cb_result \<Rightarrow> bool" where
  "read_post buf cb res \<longleftrightarrow> cb_wf (fst res) \<and>
     (\<exists>out ys. fst (snd res) = buf @ out \<and> out @ cb_content (fst res) = cb_content cb @ ys \<and>
       (case snd (snd res) of
          Returned v \<Rightarrow> v = int (length (buf @ out)) \<or> buf @ out = [] \<and> v \<in> {- EAGAIN, - EINTR}
        | Suspended b \<Rightarrow> True))"

lemma read_post_here:
  assumes "cb_wf c" "out @ cb_content c = cb_content cb @ ys" "buf' = buf @ out"
  shows "v = int (length buf') \<or> buf' = [] \<and> v \<in> {- EAGAIN, - EINTR} \<Longrightarrow>
      read_post buf cb (c, buf', Returned v)"
    and "read_post buf cb (c, buf', Suspended b)"
  unfolding read_post_def using assms by auto

lemma read_post_trans:
  assumes "out @ cb_content c = cb_content cb @ ys" "read_post (buf @ out) c res"
  shows "read_post buf cb res"
proof -
  obtain o2 zs where r: "fst (snd res) = (buf @ out) @ o2" "o2 @ cb_content (fst res) = cb_content c @ zs"
    "case snd (snd res) of
          Returned v \<Rightarrow> v = int (length ((buf @ out) @ o2)) \<or> (buf @ out) @ o2 = [] \<and> v \<in> {- EAGAIN, - EINTR}
        | Suspended b \<Rightarrow> True" and wf: "cb_wf (fst res)"
    using assms(2) unfolding read_post_def by blast
  have "(out @ o2) @ cb_content (fst res) = cb_content cb @ (ys @ zs)"
    using assms(1) r(2) by (metis append.assoc)
  then show ?thesis
    unfolding read_post_def using r(1,3) [unfolded append.assoc] wf
    by (intro conjI, simp) (rule exI [of _ "out @ o2"], rule exI [of _ "ys @ zs"], simp)
qed

lemma read_loop_step:
  assumes "transfer_more got len flags" "amount = read_amount cb remaining"
    "buf' = buf @ copy_out (unat (cb_tail cb mod cb_capacity cb)) (unat amount) (cb_buffer cb)"
    "cb2 = read_commit cb amount"
  shows "read_loop env cb buf len flags got remaining =
    (if transfer_more (got + amount) len flags then
       if flags AND CHARBUFFER_DO_NONBLOCK \<noteq> 0
       then (cb2, buf', Returned (if got + amount > 0 then sint (got + amount) else - EAGAIN))
       else if cb_eof cb \<and> got + amount = 0 then (cb\<lparr>cb_eof := False\<rparr>, buf', Returned 0)
       else (case env of
           [] \<Rightarrow> (unblock_all WaitWrite cb2, buf', Suspended (cb_pending cb2 = 0 \<and> \<not> cb_term cb2))
         | e # env' \<Rightarrow>
             (let (cb4, interrupted) = e (unblock_all WaitWrite cb2) in
              if interrupted then
                (cb4, buf', Returned (if got + amount = 0 then - EINTR else sint (got + amount)))
              else if cb_term cb4 \<and> charbuffer_pending cb4 = 0
              then (cb4, buf', Returned (sint (got + amount)))
              else read_loop env' cb4 buf' len flags (got + amount) (remaining - amount)))
     else (unblock_all WaitWrite (unblock_all WaitWrite cb2), buf', Returned (sint (got + amount))))"
  using assms(1) unfolding assms(3,4) assms(2)
  by (subst read_loop.simps) (simp add: Let_def split: list.split)

text \<open>The effect of one pass of the read loop.\<close>

lemma read_pass:
  assumes "cb_wf cb" "unat len < 2 ^ 63" "unat got + unat remaining = unat len" "length buf = unat got"
    "amount = read_amount cb remaining"
    "out = copy_out (unat (cb_tail cb mod cb_capacity cb)) (unat amount) (cb_buffer cb)"
  shows "cb_wf (read_commit cb amount)" "out @ cb_content (read_commit cb amount) = cb_content cb"
    "unat (got + amount) + unat (remaining - amount) = unat len"
    "length (buf @ out) = unat (got + amount)"
    "sint (got + amount) = int (length (buf @ out))"
proof -
  have le: "unat amount \<le> unat remaining" using read_amount_le [OF assms(1)] assms(5) by simp
  have u: "unat (got + amount) = unat got + unat amount"
    "unat (remaining - amount) = unat remaining - unat amount"
    using unat_add_le [OF assms(3,2) le] by simp_all
  then show eq: "unat (got + amount) + unat (remaining - amount) = unat len"
    using assms(3) le by simp
  show "cb_wf (read_commit cb amount)" "out @ cb_content (read_commit cb amount) = cb_content cb"
    using read_chunk(1,2) [OF assms(1,5)] assms(6) by simp_all
  show l: "length (buf @ out) = unat (got + amount)"
    using u assms(4,6) by (simp add: copy_out_def)
  show "sint (got + amount) = int (length (buf @ out))"
    unfolding l by (rule sint_small) (use eq assms(2) in linarith)
qed

lemma read_here:
  assumes "cb_wf cb" "unat len < 2 ^ 63" "unat got + unat remaining = unat len" "length buf = unat got"
    "amount = read_amount cb remaining"
    "out = copy_out (unat (cb_tail cb mod cb_capacity cb)) (unat amount) (cb_buffer cb)"
    "cb2 = read_commit cb amount"
  shows "read_post buf cb (cb2, buf @ out, Returned (if got + amount > 0 then sint (got + amount) else - EAGAIN))"
    "got + amount = 0 \<Longrightarrow> read_post buf cb (cb\<lparr>cb_eof := False\<rparr>, buf @ out, Returned 0)"
    "read_post buf cb (unblock_all WaitWrite cb2, buf @ out, Suspended b)"
    "read_post buf cb (unblock_all WaitWrite (unblock_all WaitWrite cb2), buf @ out, Returned (sint (got + amount)))"
    "read_post buf cb (unblock_all WaitWrite cb, buf, Returned (sint got))"
proof -
  note pass = read_pass [OF assms(1-6), folded assms(7)]
  have s0: "sint got = int (length buf)"
    unfolding assms(4) by (rule sint_small) (use assms(2,3) in linarith)
  have z: "got + amount = 0 \<longleftrightarrow> buf @ out = []"
    using pass(4) by (metis length_0_conv unat_eq_zero)
  note here = read_post_here [of _ out cb "[]" "buf @ out" buf]
  show "read_post buf cb (cb2, buf @ out, Returned (if got + amount > 0 then sint (got + amount) else - EAGAIN))"
    by (rule here(1)) (use pass z in \<open>simp_all add: word_gt_0\<close>)
  show "read_post buf cb (cb\<lparr>cb_eof := False\<rparr>, buf @ out, Returned 0)" if "got + amount = 0"
    by (rule here(1)) (use assms(1) z that in simp_all)
  show "read_post buf cb (unblock_all WaitWrite cb2, buf @ out, Suspended b)"
    by (rule here(2)) (use pass in simp_all)
  show "read_post buf cb (unblock_all WaitWrite (unblock_all WaitWrite cb2), buf @ out, Returned (sint (got + amount)))"
    by (rule here(1)) (use pass in simp_all)
  show "read_post buf cb (unblock_all WaitWrite cb, buf, Returned (sint got))"
    by (rule read_post_here(1) [of _ "[]" _ "[]"]) (use assms(1) s0 in simp_all)
qed

lemma read_loop_post:
  assumes "cb_wf cb" "env_writes env" "unat len < 2 ^ 63" "unat got + unat remaining = unat len"
    "length buf = unat got"
  shows "read_post buf cb (read_loop env cb buf len flags got remaining)"
  using assms
proof (induction env arbitrary: cb got remaining buf)
  case (Nil cb got remaining buf)
  define amount where "amount = read_amount cb remaining"
  define out where "out = copy_out (unat (cb_tail cb mod cb_capacity cb)) (unat amount) (cb_buffer cb)"
  note here = read_here [OF Nil(1,3,4,5) amount_def out_def refl]
  show ?case
  proof (cases "transfer_more got len flags")
    case False
    then show ?thesis using here(5) by (simp add: read_loop.simps [of "[]" cb])
  next
    case True
    show ?thesis
      unfolding read_loop_step [OF True amount_def refl refl, folded out_def] using here by simp
  qed
next
  case (Cons e env cb got remaining buf)
  define amount where "amount = read_amount cb remaining"
  define out where "out = copy_out (unat (cb_tail cb mod cb_capacity cb)) (unat amount) (cb_buffer cb)"
  define cb2 where "cb2 = read_commit cb amount"
  note here = read_here [OF Cons(2,4,5,6) amount_def out_def cb2_def]
  note pass = read_pass [OF Cons(2,4,5,6) amount_def out_def, folded cb2_def]
  obtain cb4 intr where e: "e (unblock_all WaitWrite cb2) = (cb4, intr)" by fastforce
  have "cb_wf (unblock_all WaitWrite cb2)" using pass(1) by simp
  then obtain ys where wf4: "cb_wf cb4" and ys: "cb_content cb4 = cb_content cb2 @ ys"
    using Cons(3) e unfolding env_writes_def by (metis cb_wf_simps(2) fst_conv list.set_intros(1))
  have c4: "out @ cb_content cb4 = cb_content cb @ ys" using ys pass(2) by simp
  have z: "got + amount = 0 \<longleftrightarrow> buf @ out = []"
    using pass(4) by (metis length_0_conv unat_eq_zero)
  have intr: "read_post buf cb (cb4, buf @ out, Returned (if got + amount = 0 then - EINTR else sint (got + amount)))"
    by (rule read_post_here(1) [OF wf4 c4]) (use pass(5) z in simp_all)
  have ended: "read_post buf cb (cb4, buf @ out, Returned (sint (got + amount)))"
    by (rule read_post_here(1) [OF wf4 c4]) (use pass(5) in simp_all)
  have env': "env_writes env" using Cons(3) by (simp add: env_writes_def)
  note later = read_post_trans [OF c4 Cons.IH [OF wf4 env' Cons(4) pass(3,4)]]
  show ?case
  proof (cases "transfer_more got len flags")
    case False
    then show ?thesis using here(5) by (simp add: read_loop.simps [of "e # env" cb])
  next
    case True
    show ?thesis
      unfolding read_loop_step [OF True amount_def refl cb2_def, folded out_def]
      using here intr ended later e by simp
  qed
qed

section \<open>Progress\<close>

text \<open>
  A sleeping writer that is neither interrupted nor told that the buffer has been
  terminated, and is only resumed when there is room, writes all its bytes.
\<close>

definition env_room :: "cb_env \<Rightarrow> bool" where
  "env_room env \<longleftrightarrow> (\<forall>e \<in> set env. \<forall>cb. cb_wf cb \<longrightarrow>
     cb_wf (fst (e cb)) \<and> \<not> snd (e cb) \<and> \<not> cb_term (fst (e cb)) \<and> unat (cb_pending (fst (e cb))) < 4096)"

lemma write_amount_pos:
  assumes "cb_wf cb" "unat (cb_pending cb) < 4096" "0 < unat rem"
  shows "0 < unat (write_amount cb rem)"
proof -
  have "cb_capacity cb = 0x1000" "unat (cb_pending cb) \<le> 4096" using assms(1) by (auto simp: cb_wf_def)
  moreover have "unat (cb_head cb) mod 4096 < 4096" by simp
  ultimately show ?thesis using write_amount_unat [of cb rem] assms(2,3) by linarith
qed

lemma transfer_more_blocking: "transfer_more w len 0 \<longleftrightarrow> w \<noteq> len"
  by (simp add: transfer_more_def)

lemma write_loop_completes:
  assumes "cb_wf cb" "env_room env" "length buf < 2 ^ 63" "unat written + unat remaining = length buf"
    "unat remaining \<le> length env + (if unat (cb_pending cb) < 4096 then 1 else 0)"
  shows "\<exists>cb'. write_loop env cb buf (of_nat (length buf)) 0 written remaining =
    (cb', Returned (int (length buf)))"
  using assms
proof (induction env arbitrary: cb written remaining)
  case (Nil cb written remaining)
  define amount where "amount = write_amount cb remaining"
  define cb2 where "cb2 = write_commit (write_copy cb (take (unat amount) (drop (unat written) buf))) amount"
  note pass = write_pass [OF Nil(1,3,4) amount_def, folded cb2_def]
  have len: "unat (of_nat (length buf) :: u64) = length buf" using Nil(3) by (simp add: unat_of_nat64)
  have le: "unat amount \<le> unat remaining" using write_amount_le [OF Nil(1)] by (simp add: amount_def)
  have s: "unat w = length buf \<Longrightarrow> sint w = int (length buf)" for w :: u64
    using sint_small [of w] Nil(3) by simp
  show ?case
  proof (cases "written = of_nat (length buf)")
    case True
    then show ?thesis using s [OF len] by (simp add: write_loop.simps [of "[]" cb] transfer_more_blocking)
  next
    case False
    then have "unat remaining > 0" using Nil(4) len by (metis add_cancel_right_right gr0I word_unat_eq_iff)
    then have "unat (cb_pending cb) < 4096" "unat remaining \<le> 1" and pos: "0 < unat remaining"
      using Nil(5) by (auto split: if_splits)
    then have "unat amount = unat remaining"
      using write_amount_pos [OF Nil(1) _ pos, folded amount_def] le by linarith
    then have e: "unat (written + amount) = length buf" using pass(2) Nil(4) by simp
    then have "written + amount = of_nat (length buf)" using len by (simp add: word_unat_eq_iff)
    moreover have more: "transfer_more written (of_nat (length buf)) 0"
      using False by (simp add: transfer_more_blocking)
    ultimately show ?thesis
      unfolding write_loop_step [OF more amount_def cb2_def] using s [OF e]
      by (simp add: transfer_more_blocking)
  qed
next
  case (Cons e env cb written remaining)
  define amount where "amount = write_amount cb remaining"
  define cb2 where "cb2 = write_commit (write_copy cb (take (unat amount) (drop (unat written) buf))) amount"
  note pass = write_pass [OF Cons(2,4,5) amount_def, folded cb2_def]
  have len: "unat (of_nat (length buf) :: u64) = length buf" using Cons(4) by (simp add: unat_of_nat64)
  have s: "unat w = length buf \<Longrightarrow> sint w = int (length buf)" for w :: u64
    using sint_small [of w] Cons(4) by simp
  obtain cb4 intr where e: "e (unblock_all WaitRead cb2) = (cb4, intr)" by fastforce
  have "cb_wf (unblock_all WaitRead cb2)" using pass(1) by simp
  then have c4: "cb_wf cb4" "\<not> intr" "\<not> cb_term cb4" "unat (cb_pending cb4) < 4096"
    using Cons(3) e unfolding env_room_def by (metis fst_conv snd_conv list.set_intros(1))+
  have env': "env_room env" using Cons(3) by (simp add: env_room_def)
  show ?case
  proof (cases "written = of_nat (length buf)")
    case True
    then show ?thesis using s [OF len] by (simp add: write_loop.simps [of "e # env" cb] transfer_more_blocking)
  next
    case False
    have more: "transfer_more written (of_nat (length buf)) 0"
      using False by (simp add: transfer_more_blocking)
    have pos: "unat remaining > 0" using Cons(5) len False by (metis add_cancel_right_right gr0I word_unat_eq_iff)
    have rem: "unat (remaining - amount) \<le> length env + 1"
    proof (cases "unat (cb_pending cb) < 4096")
      case True
      then have "0 < unat amount" using write_amount_pos [OF Cons(2) _ pos] by (simp add: amount_def)
      then show ?thesis using Cons(5,6) True pass(2,3) by simp
    next
      case False
      then show ?thesis using Cons(5,6) pass(2,3) by simp
    qed
    show ?thesis
    proof (cases "written + amount = of_nat (length buf)")
      case True
      then show ?thesis
        unfolding write_loop_step [OF more amount_def cb2_def]
        using s [OF len] by (simp add: transfer_more_blocking)
    next
      case False
      then show ?thesis
        unfolding write_loop_step [OF more amount_def cb2_def]
        using Cons.IH [OF c4(1) env' Cons(4) pass(3)] rem c4 e by (simp add: transfer_more_blocking)
    qed
  qed
qed

text \<open>Both calls keep the ring well formed.\<close>

lemma charbuffer_write_wf:
  assumes "cb_wf cb" "env_reads env" "length buf < 2 ^ 63"
  shows "cb_wf (fst (charbuffer_write env cb buf flags))"
proof -
  have "unat (0 :: u64) + unat (of_nat (length buf) :: u64) = length buf"
    using assms(3) by (simp add: unat_of_nat64)
  from write_loop_post [OF assms(1,2,3) this, of "of_nat (length buf)" flags]
  show ?thesis using assms(1) by (simp add: charbuffer_write_def write_post_def)
qed

lemma charbuffer_read_wf:
  assumes "cb_wf cb" "env_writes env" "unat len < 2 ^ 63"
  shows "cb_wf (fst (charbuffer_read env cb len flags))"
proof -
  have "unat (0 :: u64) + unat len = unat len" "length ([] :: u8 list) = unat (0 :: u64)" by simp_all
  from read_loop_post [OF assms(1,2,3) this, of flags]
  show ?thesis using assms(1) by (auto simp: charbuffer_read_def read_post_def)
qed

section \<open>Results\<close>

text \<open>
  C14: With a writer and a reader interleaved at every atomic access, the bytes readers have
  taken are a prefix of the bytes writers have committed; the rest, exactly \<open>pending\<close>
  bytes and never more than the capacity, is stored in the ring in order. No byte is
  lost, repeated or overwritten before it is read, also when the 64-bit counters wrap.
\<close>

theorem charbuffer_fifo:
  assumes "charbuffer_create mem cap = Some cb" "cb_step\<^sup>*\<^sup>* (cb_start cb) s"
  shows "\<exists>rest. s_in s = s_out s @ rest \<and> length rest = unat (cb_pending (s_cb s)) \<and>
    length rest \<le> 0x1000 \<and>
    (\<forall>i < length rest. cb_buffer (s_cb s) ((length (s_out s) + i) mod 0x1000) = rest ! i)"
proof -
  have "ring_ok s"
    using cb_reachable_invariant [OF assms(2) cb_invariant_start [OF assms(1)]]
    by (simp add: cb_invariant_def)
  then show ?thesis
    by (intro exI [of _ "drop (length (s_out s)) (s_in s)"])
      (auto simp: ring_ok_def, metis append_take_drop_id)
qed

lemma cb_trace:
  assumes "charbuffer_create (\<lambda>_. 0) 0x1000 = Some cb"
  shows "\<exists>s. cb_step\<^sup>*\<^sup>* (cb_start cb) s \<and> s_in s = [7]"
proof -
  have "write_amount cb 1 = 1"
    using assms by (auto simp: charbuffer_create_def write_amount_def)
  then have "cb_step (cb_start cb) ((cb_start cb)\<lparr>s_writer := WCopy 0 [7] 0\<rparr>)"
    using w_load [of "cb_start cb" "[7]" 1] assms by (auto simp: cb_start_def charbuffer_create_def)
  then obtain s1 where s1: "cb_step (cb_start cb) s1" "s_writer s1 = WCopy 0 [7] 0" "s_in s1 = []"
    by (auto simp: cb_start_def)
  obtain s2 where s2: "cb_step s1 s2" "s_writer s2 = WCopy 0 [7] (length [7 :: u8])" "s_in s2 = []"
    using w_byte [OF s1(2)] s1(3) by fastforce
  obtain s3 where s3: "cb_step s2 s3" "s_in s3 = [7]"
    using w_pending [OF s2(2)] s2(3) by fastforce
  show ?thesis using s1(1) s2(1) s3 by (meson converse_rtranclp_into_rtranclp rtranclp.rtrancl_refl)
qed

theorem charbuffer_fifo_witness:
  "\<exists>cb s rest. charbuffer_create (\<lambda>_. 0) 0x1000 = Some cb \<and> cb_step\<^sup>*\<^sup>* (cb_start cb) s \<and>
     s_in s = [7] \<and> s_in s = s_out s @ rest \<and> length rest = unat (cb_pending (s_cb s))"
proof -
  obtain cb where cb: "charbuffer_create (\<lambda>_. 0) 0x1000 = Some cb"
    by (simp add: charbuffer_create_def)
  obtain s where s: "cb_step\<^sup>*\<^sup>* (cb_start cb) s" "s_in s = [7]" using cb_trace [OF cb] by blast
  show ?thesis using charbuffer_fifo [OF cb s(1)] cb s by blast
qed

text \<open>
  C7: Whatever readers do while it sleeps, a write appends a prefix of the caller's bytes, in
  order and nothing else, to what the buffer holds, and returns the length of that prefix;
  it returns \<open>-EINTR\<close> only when it has written nothing.
\<close>

theorem charbuffer_write_appends:
  assumes "cb_wf cb" "\<not> cb_term cb" "env_reads env" "length buf < 2 ^ 63"
    "charbuffer_write env cb buf flags = (cb', r)"
  shows "cb_wf cb' \<and> (\<exists>n taken. n \<le> length buf \<and>
    taken @ cb_content cb' = cb_content cb @ take n buf \<and>
    (\<forall>v. r = Returned v \<longrightarrow> v = int n \<or> n = 0 \<and> v = - EINTR))"
proof -
  have "unat (0 :: u64) + unat (of_nat (length buf) :: u64) = length buf"
    using assms(4) by (simp add: unat_of_nat64)
  from write_loop_post [OF assms(1,3,4) this, of "of_nat (length buf)" flags] assms(2,5)
  have "write_post buf cb 0 (cb', r)" by (simp add: charbuffer_write_def)
  then obtain n ys where "cb_wf cb'" "n \<le> length buf" "ys @ cb_content cb' = cb_content cb @ take n buf"
    "case r of Returned v \<Rightarrow> v = int n \<or> n = 0 \<and> v = - EINTR | Suspended b \<Rightarrow> True"
    unfolding write_post_def by auto
  then show ?thesis by (auto intro!: exI [of _ n] exI [of _ ys])
qed

text \<open>
  C27: Whatever writers append while it sleeps, a read takes bytes from the front of the buffer
  in order, leaves the rest, and returns their number; it returns \<open>-EAGAIN\<close> or
  \<open>-EINTR\<close> only when it took nothing.
\<close>

theorem charbuffer_read_takes:
  assumes "cb_wf cb" "env_writes env" "unat len < 2 ^ 63"
    "charbuffer_read env cb len flags = (cb', out, r)"
  shows "cb_wf cb' \<and> (\<exists>added. out @ cb_content cb' = cb_content cb @ added) \<and>
    (\<forall>v. r = Returned v \<longrightarrow> v = int (length out) \<or> out = [] \<and> v \<in> {- EAGAIN, - EINTR})"
proof (cases "cb_term cb \<and> charbuffer_pending cb = 0")
  case True
  then show ?thesis using assms by (auto simp: charbuffer_read_def)
next
  case False
  have "unat (0 :: u64) + unat len = unat len" "length ([] :: u8 list) = unat (0 :: u64)" by simp_all
  from read_loop_post [OF assms(1,2,3) this, of flags] assms(4) False
  have "read_post [] cb (cb', out, r)" by (auto simp: charbuffer_read_def)
  then show ?thesis unfolding read_post_def by auto
qed


section \<open>Instances\<close>

definition full_buffer :: charbuffer where
  "full_buffer = \<lparr>cb_buffer = (\<lambda>i. of_nat i), cb_capacity = 0x1000, cb_head = 0x1000, cb_tail = 0,
     cb_pending = 0x1000, cb_term = False, cb_eof = False, cb_wakes = []\<rparr>"

definition drain :: "charbuffer \<Rightarrow> charbuffer \<times> bool" where
  "drain cb = ((read_commit cb (cb_pending cb))\<lparr>cb_term := False\<rparr>, False)"

lemma drain_wf: "cb_wf cb \<Longrightarrow> cb_wf (fst (drain cb)) \<and> cb_content (fst (drain cb)) = []"
  by (simp add: cb_wf_def drain_def read_commit_def cb_content_def unat_add_mod_capacity)

lemma full_wf: "cb_wf full_buffer"
  by (simp add: cb_wf_def full_buffer_def)


theorem charbuffer_write_appends_witness:
  "\<exists>cb' r n taken. charbuffer_write [drain] full_buffer [1, 2, 3] 0 = (cb', r) \<and>
     taken @ cb_content cb' = cb_content full_buffer @ take n [1, 2, 3]"
proof -
  have env: "env_reads [drain]" using drain_wf by (auto simp: env_reads_def)
  obtain cb' r where w: "charbuffer_write [drain] full_buffer [1, 2, 3] 0 = (cb', r)" by fastforce
  have "\<not> cb_term full_buffer" "length [1, 2, 3 :: u8] < 2 ^ 63" by (simp_all add: full_buffer_def)
  from charbuffer_write_appends [OF full_wf this(1) env this(2) w] w show ?thesis by blast
qed

theorem charbuffer_read_takes_witness:
  "\<exists>cb' out r added. charbuffer_read [] full_buffer 16 2 = (cb', out, r) \<and>
     out @ cb_content cb' = cb_content full_buffer @ added"
proof -
  obtain cb' out r where w: "charbuffer_read [] full_buffer 16 2 = (cb', out, r)"
    by (metis prod_cases3)
  have "env_writes []" "unat (16 :: u64) < 2 ^ 63" by (simp_all add: env_writes_def)
  from charbuffer_read_takes [OF full_wf this w] w show ?thesis by blast
qed

end
