(* ===== verification/Pipe.thy ===== *)
theory Pipe
  imports CharBuffer
begin

text \<open>
  The pipes of \<open>kernel/fs/pipe.c\<close> on top of the character buffer: the counts of open read
  and write ends, end of file, the broken-pipe error, and polling. A file is seen through
  its flag word; how files reach a pipe is the subject of theory \<open>Files\<close>.
\<close>

section \<open>Flags of files\<close>

definition F_READ :: u32 where "F_READ = 1"
definition F_WRITE :: u32 where "F_WRITE = 2"
definition O_NONBLOCK :: u32 where "O_NONBLOCK = 0x800"
definition O_APPEND :: u32 where "O_APPEND = 0x400"

definition POLLIN :: u16 where "POLLIN = 1"
definition POLLOUT :: u16 where "POLLOUT = 4"
definition POLLHUP :: u16 where "POLLHUP = 0x10"

section \<open>The structure\<close>

text \<open>\<open>p_status_wakes\<close> counts the wake-ups of the list \<open>statusbl\<close>.\<close>

record pipe =
  p_refs :: int
  p_buf :: charbuffer
  p_readers :: int
  p_writers :: int
  p_named :: bool
  p_status_wakes :: nat

definition pipe_init :: "pipe \<Rightarrow> pipe" where
  "pipe_init pipe = pipe\<lparr>p_buf := charbuffer_reset (p_buf pipe), p_readers := 0, p_writers := 0,
     p_named := False\<rparr>"

definition pipe_create :: "(nat \<Rightarrow> u8) \<Rightarrow> pipe option" where
  "pipe_create mem = do {
     cb \<leftarrow> charbuffer_create mem 0x1000;
     Some \<lparr>p_refs = 1, p_buf = cb, p_readers = 0, p_writers = 0, p_named = False, p_status_wakes = 0\<rparr> }"

definition pipe_destroy :: "pipe \<Rightarrow> unit option" where
  "pipe_destroy pipe = do {
     kassert (p_readers pipe = 0);
     kassert (p_writers pipe = 0) }"

section \<open>Transfers\<close>

definition transfer_flags :: "u32 \<Rightarrow> u32" where
  "transfer_flags fflags = (if fflags AND O_NONBLOCK \<noteq> 0
     then CHARBUFFER_DO_ANY OR CHARBUFFER_DO_NONBLOCK else CHARBUFFER_DO_ANY)"

definition pipe_read :: "cb_env \<Rightarrow> u32 \<Rightarrow> u64 \<Rightarrow> pipe \<Rightarrow> pipe \<times> u8 list \<times> cb_result" where
  "pipe_read env fflags len pipe =
    (if p_writers pipe = 0 \<and> charbuffer_pending (p_buf pipe) = 0 \<and> \<not> p_named pipe
     then (pipe, [], Returned 0)
     else let (cb, out, r) = charbuffer_read env (p_buf pipe) len (transfer_flags fflags)
          in (pipe\<lparr>p_buf := cb\<rparr>, out, r))"

text \<open>The last component says whether \<open>SIGPIPE\<close> is sent to the caller.\<close>

definition pipe_write :: "cb_env \<Rightarrow> u32 \<Rightarrow> u8 list \<Rightarrow> pipe \<Rightarrow> pipe \<times> cb_result \<times> bool" where
  "pipe_write env fflags buf pipe =
    (if p_readers pipe = 0 \<and> \<not> p_named pipe then (pipe, Returned (- EPIPE), True)
     else let (cb, r) = charbuffer_write env (p_buf pipe) buf (transfer_flags fflags)
          in (pipe\<lparr>p_buf := cb\<rparr>, r, False))"

section \<open>Ends\<close>

definition pipe_open :: "u32 \<Rightarrow> pipe \<Rightarrow> pipe option" where
  "pipe_open fflags pipe = do {
     pipe \<leftarrow>
       (if fflags AND F_WRITE \<noteq> 0 then do {
          kassert (fflags AND F_READ = 0);
          Some (pipe\<lparr>p_writers := p_writers pipe + 1\<rparr>) }
        else if fflags AND F_READ \<noteq> 0 then do {
          kassert (fflags AND F_WRITE = 0);
          Some (pipe\<lparr>p_readers := p_readers pipe + 1\<rparr>) }
        else Some pipe);
     Some (pipe\<lparr>p_buf := (p_buf pipe)\<lparr>cb_eof := False\<rparr>\<rparr>) }"

definition pipe_close :: "u32 \<Rightarrow> pipe \<Rightarrow> pipe option" where
  "pipe_close fflags pipe = do {
     pipe \<leftarrow>
       (if fflags AND F_WRITE \<noteq> 0 then do {
          kassert (fflags AND F_READ = 0);
          Some (pipe\<lparr>p_writers := p_writers pipe - 1\<rparr>) }
        else if fflags AND F_READ \<noteq> 0 then do {
          kassert (fflags AND F_WRITE = 0);
          Some (pipe\<lparr>p_readers := p_readers pipe - 1\<rparr>) }
        else Some pipe);
     kassert (p_writers pipe \<ge> 0);
     kassert (p_readers pipe \<ge> 0);
     Some (if (p_writers pipe = 0 \<or> p_readers pipe = 0) \<and> \<not> p_named pipe
           then pipe\<lparr>p_buf := charbuffer_terminate (p_buf pipe),
                     p_status_wakes := p_status_wakes pipe + 1\<rparr>
           else if p_writers pipe = 0
           then pipe\<lparr>p_buf := unblock_all WaitRead ((p_buf pipe)\<lparr>cb_eof := True\<rparr>),
                     p_status_wakes := p_status_wakes pipe + 1\<rparr>
           else pipe) }"

text \<open>The blocklists a poll waits on, by the slot of the poll point that is used.\<close>

datatype poll_block = POLL_BLOCK_READ | POLL_BLOCK_PRIR | POLL_BLOCK_WRITE | POLL_BLOCK_ERROR | POLL_BLOCK_STATUS

definition pipe_poll :: "u16 \<Rightarrow> u16 \<Rightarrow> pipe \<Rightarrow> bool \<times> u16 \<times> u16 \<times> poll_block list" where
  "pipe_poll events revents pipe =
    (let events = (events AND (POLLIN OR POLLOUT)) OR push_bit 4 1;
         (ready, revents, blocks) =
           (if events AND POLLIN \<noteq> 0 then
              if charbuffer_pending (p_buf pipe) > 0 \<or> cb_eof (p_buf pipe)
              then (True, revents OR POLLIN, [POLL_BLOCK_READ]) else (False, revents, [POLL_BLOCK_READ])
            else (False, revents, []));
         (ready, revents, blocks) =
           (if events AND POLLOUT \<noteq> 0 then
              if charbuffer_avail (p_buf pipe) > 0
              then (True, revents OR POLLOUT, blocks @ [POLL_BLOCK_WRITE])
              else (ready, revents, blocks @ [POLL_BLOCK_WRITE])
            else (ready, revents, blocks));
         (ready, revents) =
           (if (p_writers pipe = 0 \<or> p_readers pipe = 0) \<and> \<not> p_named pipe
            then (True, revents OR POLLHUP) else (ready, revents))
     in (ready, events, revents, blocks @ [POLL_BLOCK_STATUS]))"

text \<open>The effect of the two hooks on the counts.\<close>

lemma pipe_open_effect:
  assumes "\<not> (fl AND F_READ \<noteq> 0 \<and> fl AND F_WRITE \<noteq> 0)"
  shows "\<exists>p'. pipe_open fl p = Some p' \<and> p_refs p' = p_refs p \<and> cb_wf (p_buf p') = cb_wf (p_buf p) \<and>
    p_readers p' = p_readers p + of_bool (fl AND F_WRITE = 0 \<and> fl AND F_READ \<noteq> 0) \<and>
    p_writers p' = p_writers p + of_bool (fl AND F_WRITE \<noteq> 0)"
  using assms
  by (cases "fl AND F_WRITE = 0"; cases "fl AND F_READ = 0") (simp_all add: pipe_open_def)

lemma pipe_close_effect:
  assumes "\<not> (fl AND F_READ \<noteq> 0 \<and> fl AND F_WRITE \<noteq> 0)"
    "0 \<le> p_readers p - of_bool (fl AND F_WRITE = 0 \<and> fl AND F_READ \<noteq> 0)"
    "0 \<le> p_writers p - of_bool (fl AND F_WRITE \<noteq> 0)"
  shows "\<exists>p'. pipe_close fl p = Some p' \<and> p_refs p' = p_refs p \<and> cb_wf (p_buf p') = cb_wf (p_buf p) \<and>
    p_readers p' = p_readers p + - of_bool (fl AND F_WRITE = 0 \<and> fl AND F_READ \<noteq> 0) \<and>
    p_writers p' = p_writers p + - of_bool (fl AND F_WRITE \<noteq> 0)"
  using assms
  by (cases "fl AND F_WRITE = 0"; cases "fl AND F_READ = 0") (simp_all add: pipe_close_def)

section \<open>Single transfers\<close>

lemma transfer_flags_any [simp]: "transfer_flags f AND CHARBUFFER_DO_ANY = 1"
  by (simp add: transfer_flags_def CHARBUFFER_DO_ANY_def CHARBUFFER_DO_NONBLOCK_def)

lemma transfer_flags_nonblock:
  "transfer_flags f AND CHARBUFFER_DO_NONBLOCK \<noteq> 0 \<longleftrightarrow> f AND O_NONBLOCK \<noteq> 0"
  by (simp add: transfer_flags_def CHARBUFFER_DO_ANY_def CHARBUFFER_DO_NONBLOCK_def)

lemma more_any: "transfer_more w len (transfer_flags f) \<longleftrightarrow> w \<noteq> len \<and> w = 0"
  by (simp add: transfer_more_def)

text \<open>
  With room in the ring and bytes to write, a write to a pipe returns at once; so does a
  read when bytes are pending.
\<close>

lemma write_any:
  assumes "cb_wf cb" "\<not> cb_term cb" "unat (cb_pending cb) < 4096" "0 < length buf" "length buf < 2 ^ 63"
  shows "\<exists>cb' n. charbuffer_write env cb buf (transfer_flags f) = (cb', Returned (int n)) \<and>
    n = min (min (4096 - unat (cb_pending cb)) (length buf)) (4096 - unat (cb_head cb) mod 4096) \<and>
    0 < n \<and> cb_wf cb' \<and> cb_content cb' = cb_content cb @ take n buf \<and> cb_term cb' = cb_term cb \<and>
    cb_tail cb' = cb_tail cb"
proof -
  let ?len = "of_nat (length buf) :: u64"
  have len: "unat ?len = length buf" using assms(5) by (simp add: unat_of_nat64)
  define amount where "amount = write_amount cb ?len"
  define cb2 where "cb2 = write_commit (write_copy cb (take (unat amount) (drop (unat (0 :: u64)) buf))) amount"
  have "unat (0 :: u64) + unat ?len = length buf" using len by simp
  note pass = write_pass [OF assms(1,5) this amount_def, folded cb2_def]
  have pos: "0 < unat amount"
    unfolding amount_def using write_amount_pos [OF assms(1,3)] len assms(4) by simp
  have n: "unat amount = min (min (4096 - unat (cb_pending cb)) (length buf)) (4096 - unat (cb_head cb) mod 4096)"
    using write_amount_unat [of cb ?len] assms(1) len by (simp add: amount_def cb_wf_def)
  have ne: "0 \<noteq> ?len" using len assms(4) by (metis less_not_refl unat_0)
  then have more: "transfer_more 0 ?len (transfer_flags f)" by (simp add: more_any)
  have a: "amount \<noteq> 0" using pos by (metis less_not_refl unat_0)
  have "unat amount \<le> length buf" using n by linarith
  then have s: "sint amount = int (unat amount)" using assms(5) by (intro sint_small) linarith
  have "charbuffer_write env cb buf (transfer_flags f) =
      (unblock_all WaitRead (unblock_all WaitRead cb2), Returned (int (unat amount)))"
    unfolding charbuffer_write_def write_loop_step [OF more amount_def cb2_def]
    using assms(2) a s by (simp add: more_any)
  moreover have "cb_term (unblock_all WaitRead (unblock_all WaitRead cb2)) = cb_term cb"
    "cb_tail (unblock_all WaitRead (unblock_all WaitRead cb2)) = cb_tail cb"
    by (simp_all add: cb2_def write_commit_def write_copy_def unblock_all_def)
  moreover have "cb_content (unblock_all WaitRead (unblock_all WaitRead cb2)) = cb_content cb @ take (unat amount) buf"
    using pass(4) by simp
  moreover have "cb_wf (unblock_all WaitRead (unblock_all WaitRead cb2))" using pass(1) by simp
  ultimately show ?thesis using n pos by blast
qed

lemma read_any:
  assumes "cb_wf cb" "0 < unat (cb_pending cb)" "0 < unat len" "unat len < 2 ^ 63"
  shows "\<exists>cb' out. charbuffer_read env cb len (transfer_flags f) = (cb', out, Returned (int (length out))) \<and>
    length out = min (min (unat (cb_pending cb)) (unat len)) (4096 - unat (cb_tail cb) mod 4096) \<and>
    0 < length out \<and> cb_wf cb' \<and> out @ cb_content cb' = cb_content cb \<and> cb_term cb' = cb_term cb"
proof -
  define amount where "amount = read_amount cb len"
  define out where "out = copy_out (unat (cb_tail cb mod cb_capacity cb)) (unat amount) (cb_buffer cb)"
  have "unat (0 :: u64) + unat len = unat len" "length ([] :: u8 list) = unat (0 :: u64)" by simp_all
  note pass = read_pass [OF assms(1,4) this amount_def out_def]
  have cap: "cb_capacity cb = 0x1000" "unat (cb_pending cb) \<le> 4096" using assms(1) by (auto simp: cb_wf_def)
  have n: "unat amount = min (min (unat (cb_pending cb)) (unat len)) (4096 - unat (cb_tail cb) mod 4096)"
    using read_amount_unat [OF cap] by (simp add: amount_def)
  have "unat (cb_tail cb) mod 4096 < 4096" by simp
  then have pos: "0 < unat amount" using n assms(2,3) by linarith
  have a: "amount \<noteq> 0" using pos by (metis less_not_refl unat_0)
  have "0 \<noteq> len" using assms(3) by (metis less_not_refl unat_0)
  then have more: "transfer_more 0 len (transfer_flags f)" by (simp add: more_any)
  have ne: "\<not> (cb_term cb \<and> charbuffer_pending cb = 0)"
    using assms(2) by (auto simp: charbuffer_pending_def)
  have lo: "length out = unat amount" using pass(4) by simp
  have "charbuffer_read env cb len (transfer_flags f) =
      (unblock_all WaitWrite (unblock_all WaitWrite (read_commit cb amount)), out, Returned (int (length out)))"
    unfolding charbuffer_read_def if_not_P [OF ne] using a pass(5) read_loop_step [OF more amount_def refl refl, where buf = "[]" and env = env]
    by (simp add: more_any out_def [symmetric])
  moreover have "cb_term (unblock_all WaitWrite (unblock_all WaitWrite (read_commit cb amount))) = cb_term cb"
    by (simp add: read_commit_def)
  moreover have "cb_wf (unblock_all WaitWrite (unblock_all WaitWrite (read_commit cb amount)))"
    "out @ cb_content (unblock_all WaitWrite (unblock_all WaitWrite (read_commit cb amount))) = cb_content cb"
    using pass(1,2) by simp_all
  moreover have "0 < length out" using lo pos by simp
  ultimately show ?thesis using n lo by metis
qed

text \<open>A read without writers returns at once.\<close>

lemma hangup_read:
  assumes "cb_wf (p_buf pipe)" "p_writers pipe = 0" "\<not> p_named pipe" "0 < unat len" "unat len < 2 ^ 63"
  shows "\<exists>pipe' out. pipe_read env fflags len pipe = (pipe', out, Returned (int (length out))) \<and>
    out @ cb_content (p_buf pipe') = cb_content (p_buf pipe) \<and>
    (out = [] \<longleftrightarrow> cb_content (p_buf pipe) = []) \<and> cb_wf (p_buf pipe')"
proof (cases "unat (cb_pending (p_buf pipe)) = 0")
  case True
  then have "cb_content (p_buf pipe) = []" by (metis length_0_conv length_content)
  then show ?thesis
    using assms True by (simp add: pipe_read_def charbuffer_pending_def unat_eq_zero)
next
  case False
  then have "0 < unat (cb_pending (p_buf pipe))" by simp
  from read_any [OF assms(1) this assms(4,5), of env fflags]
  obtain cb' out where r: "charbuffer_read env (p_buf pipe) len (transfer_flags fflags) =
      (cb', out, Returned (int (length out)))" "0 < length out" "cb_wf cb'"
    "out @ cb_content cb' = cb_content (p_buf pipe)" by blast
  have "cb_content (p_buf pipe) \<noteq> []" using False by (metis length_content list.size(3))
  then show ?thesis
    using r False by (auto simp: pipe_read_def charbuffer_pending_def)
qed

section \<open>Results\<close>


definition drained_pipe :: pipe where
  "drained_pipe = \<lparr>p_refs = 1, p_buf = full_buffer, p_readers = 1, p_writers = 0, p_named = False,
     p_status_wakes = 0\<rparr>"






text \<open>Opening a named pipe for reading and writing stops the kernel.\<close>

lemma pipe_open_rdwr: "pipe_open (F_READ OR F_WRITE) pipe = None"
  by (simp add: pipe_open_def F_READ_def F_WRITE_def)

end
