(* ===== verification/Files.thy ===== *)
theory Files
  imports Pipe
begin

text \<open>
  Open files and file descriptors: \<open>kernel/fs/file.c\<close>, the descriptor calls of
  \<open>kernel/sys/open.c\<close> and \<open>kernel/sys/ctl.c\<close>, and \<open>sys_pipe\<close> with the
  file operations of pipes.

  The state holds the live file and pipe objects by address, with their reference counts,
  the descriptor tables of the processes, and the links of the \<open>/proc/<pid>/fd\<close>
  directories. Touching an object that is not live, as well as a failing assertion, is
  \<open>None\<close>. The operation tables of file systems, sockets and device drivers are the
  argument \<open>C\<close>; they act on a state of their own.
\<close>

section \<open>State\<close>

datatype file_device_type = FDT_UNKNOWN | FDT_CHAR | FDT_BLOCK | FDT_SOCK | FDT_REG | FDT_FIFO

text \<open>The table a file points to; \<open>OtherOps 0\<close> is \<open>fs_fops\<close>, \<open>OtherOps 1\<close> is \<open>socket_fops\<close>.\<close>

datatype file_ops = NoOps | PipeOps | OtherOps nat

record kfile =
  f_refs :: int
  f_dirent :: ptr
  f_pos :: u64
  f_flags :: u32
  f_ops :: file_ops
  f_devdata :: ptr
  f_devtype :: file_device_type

record fildes =
  fd_file :: ptr
  fd_flags :: int

record inode_info =
  i_mode :: u32
  i_length :: u64
  i_pipe :: ptr
  i_dirty :: bool
  i_refs :: int

text \<open>The entries of an operation table that files use; \<open>None\<close> is a null entry.\<close>

record 'w file_calls =
  fc_create :: "kfile \<Rightarrow> 'w \<Rightarrow> ptr \<times> 'w"
  fc_destroy :: "kfile \<Rightarrow> 'w \<Rightarrow> 'w"
  fc_open :: "kfile \<Rightarrow> 'w \<Rightarrow> 'w"
  fc_close :: "kfile \<Rightarrow> 'w \<Rightarrow> 'w"
  fc_read :: "(kfile \<Rightarrow> u64 \<Rightarrow> u64 \<Rightarrow> 'w \<Rightarrow> 'w \<times> u8 list \<times> int) option"
  fc_write :: "(kfile \<Rightarrow> u64 \<Rightarrow> u8 list \<Rightarrow> 'w \<Rightarrow> 'w \<times> int) option"

type_synonym slot = "nat \<times> nat"

record 'w system =
  sy_files :: "ptr \<rightharpoonup> kfile"
  sy_pipes :: "ptr \<rightharpoonup> pipe"
  sy_table :: "slot \<Rightarrow> fildes"
  sy_links :: "slot \<rightharpoonup> string"
  sy_dirent_inode :: "ptr \<Rightarrow> ptr"
  sy_dirent_refs :: "ptr \<Rightarrow> int"
  sy_inodes :: "ptr \<Rightarrow> inode_info"
  sy_next :: ptr
  sy_sigpipe :: "nat list"
  sy_world :: 'w

type_synonym 'w calls = "nat \<Rightarrow> 'w file_calls"

definition MAX_FD :: nat where "MAX_FD = 256"
definition FD_CLOEXEC :: int where "FD_CLOEXEC = 1"

definition S_IFMT :: u32 where "S_IFMT = 0xF000"
definition S_ISCHR :: "u32 \<Rightarrow> bool" where "S_ISCHR m \<longleftrightarrow> m AND S_IFMT = 0x2000"
definition S_ISBLK :: "u32 \<Rightarrow> bool" where "S_ISBLK m \<longleftrightarrow> m AND S_IFMT = 0x6000"
definition S_ISFIFO :: "u32 \<Rightarrow> bool" where "S_ISFIFO m \<longleftrightarrow> m AND S_IFMT = 0x1000"
definition S_ISSOCK :: "u32 \<Rightarrow> bool" where "S_ISSOCK m \<longleftrightarrow> m AND S_IFMT = 0xC000"

section \<open>References\<close>

definition set_file :: "ptr \<Rightarrow> kfile \<Rightarrow> 'w system \<Rightarrow> 'w system" where
  "set_file f r st = st\<lparr>sy_files := (sy_files st)(f \<mapsto> r)\<rparr>"

definition set_pipe :: "ptr \<Rightarrow> pipe \<Rightarrow> 'w system \<Rightarrow> 'w system" where
  "set_pipe q p st = st\<lparr>sy_pipes := (sy_pipes st)(q \<mapsto> p)\<rparr>"

definition set_slot :: "nat \<Rightarrow> nat \<Rightarrow> fildes \<Rightarrow> 'w system \<Rightarrow> 'w system" where
  "set_slot p i d st = st\<lparr>sy_table := (sy_table st)((p, i) := d)\<rparr>"

definition getref_file :: "ptr \<Rightarrow> 'w system \<Rightarrow> 'w system option" where
  "getref_file f st = do {
     r \<leftarrow> sy_files st f;
     kassert (f_refs r \<noteq> 0);
     Some (set_file f (r\<lparr>f_refs := f_refs r + 1\<rparr>) st) }"

definition getref_pipe :: "ptr \<Rightarrow> 'w system \<Rightarrow> 'w system option" where
  "getref_pipe q st = do {
     p \<leftarrow> sy_pipes st q;
     kassert (p_refs p \<noteq> 0);
     Some (set_pipe q (p\<lparr>p_refs := p_refs p + 1\<rparr>) st) }"

definition putref_pipe :: "ptr \<Rightarrow> 'w system \<Rightarrow> 'w system option" where
  "putref_pipe q st = do {
     p \<leftarrow> sy_pipes st q;
     kassert (p_refs p > 0);
     Some (if p_refs p = 1 then st\<lparr>sy_pipes := (sy_pipes st)(q := None)\<rparr>
           else set_pipe q (p\<lparr>p_refs := p_refs p - 1\<rparr>) st) }"

definition dirent_put :: "ptr \<Rightarrow> 'w system \<Rightarrow> 'w system" where
  "dirent_put d st = st\<lparr>sy_dirent_refs := (sy_dirent_refs st)(d := sy_dirent_refs st d - 1)\<rparr>"

definition inode_add :: "ptr \<Rightarrow> int \<Rightarrow> 'w system \<Rightarrow> 'w system" where
  "inode_add n k st =
     st\<lparr>sy_inodes := (sy_inodes st)(n := (sy_inodes st n)\<lparr>i_refs := i_refs (sy_inodes st n) + k\<rparr>)\<rparr>"

definition inode_put :: "ptr \<Rightarrow> 'w system \<Rightarrow> 'w system" where
  "inode_put n st = inode_add n (- 1) st"

text \<open>\<open>file_get_inode\<close>: the inode, with a reference, or null.\<close>

definition file_get_inode :: "kfile \<Rightarrow> 'w system \<Rightarrow> ptr \<times> 'w system" where
  "file_get_inode r st =
    (if f_dirent r \<noteq> NULL \<and> sy_dirent_inode st (f_dirent r) \<noteq> NULL
     then (sy_dirent_inode st (f_dirent r), inode_add (sy_dirent_inode st (f_dirent r)) 1 st)
     else (NULL, st))"

section \<open>File operations of pipes\<close>

definition pipe_file_create :: "kfile \<Rightarrow> 'w system \<Rightarrow> (ptr \<times> 'w system) option" where
  "pipe_file_create file st = do {
     p \<leftarrow> pipe_create (\<lambda>_. 0);
     let q = sy_next st;
     let st = set_pipe q (p\<lparr>p_named := (f_dirent file \<noteq> NULL)\<rparr>) (st\<lparr>sy_next := Suc q\<rparr>);
     if f_dirent file \<noteq> NULL then do {
       let (node, st) = file_get_inode file st;
       kassert (node \<noteq> NULL);
       st \<leftarrow> getref_pipe q st;
       if i_pipe (sy_inodes st node) = NULL
       then Some (q, st\<lparr>sy_inodes := (sy_inodes st)(node := (sy_inodes st node)\<lparr>i_pipe := q\<rparr>)\<rparr>)
       else do {
         st \<leftarrow> putref_pipe q st;
         st \<leftarrow> putref_pipe q st;
         st \<leftarrow> getref_pipe (i_pipe (sy_inodes st node)) st;
         Some (i_pipe (sy_inodes st node), st) } }
     else Some (q, st) }"

definition fops_create :: "'w calls \<Rightarrow> kfile \<Rightarrow> 'w system \<Rightarrow> (ptr \<times> 'w system) option" where
  "fops_create C r st = (case f_ops r of
      NoOps \<Rightarrow> Some (f_devdata r, st)
    | PipeOps \<Rightarrow> pipe_file_create r st
    | OtherOps n \<Rightarrow> (let (d, w) = fc_create (C n) r (sy_world st) in Some (d, st\<lparr>sy_world := w\<rparr>)))"

definition fops_destroy :: "'w calls \<Rightarrow> kfile \<Rightarrow> 'w system \<Rightarrow> 'w system option" where
  "fops_destroy C r st = (case f_ops r of
      NoOps \<Rightarrow> Some st
    | PipeOps \<Rightarrow> putref_pipe (f_devdata r) st
    | OtherOps n \<Rightarrow> Some (st\<lparr>sy_world := fc_destroy (C n) r (sy_world st)\<rparr>))"

definition fops_open :: "'w calls \<Rightarrow> kfile \<Rightarrow> 'w system \<Rightarrow> 'w system option" where
  "fops_open C r st = (case f_ops r of
      NoOps \<Rightarrow> Some st
    | PipeOps \<Rightarrow> do {
        p \<leftarrow> sy_pipes st (f_devdata r);
        p \<leftarrow> pipe_open (f_flags r) p;
        Some (set_pipe (f_devdata r) p st) }
    | OtherOps n \<Rightarrow> Some (st\<lparr>sy_world := fc_open (C n) r (sy_world st)\<rparr>))"

definition fops_close :: "'w calls \<Rightarrow> kfile \<Rightarrow> 'w system \<Rightarrow> 'w system option" where
  "fops_close C r st = (case f_ops r of
      NoOps \<Rightarrow> Some st
    | PipeOps \<Rightarrow> do {
        p \<leftarrow> sy_pipes st (f_devdata r);
        p \<leftarrow> pipe_close (f_flags r) p;
        Some (set_pipe (f_devdata r) p st) }
    | OtherOps n \<Rightarrow> Some (st\<lparr>sy_world := fc_close (C n) r (sy_world st)\<rparr>))"

section \<open>File objects (kernel/fs/file.c)\<close>

definition file_init :: kfile where
  "file_init = \<lparr>f_refs = 1, f_dirent = NULL, f_pos = 0, f_flags = 0, f_ops = NoOps, f_devdata = NULL,
     f_devtype = FDT_UNKNOWN\<rparr>"

definition file_put :: "'w calls \<Rightarrow> kfile \<Rightarrow> 'w system \<Rightarrow> 'w system option" where
  "file_put C r st = do {
     st \<leftarrow> fops_destroy C r st;
     Some (if f_dirent r \<noteq> NULL then dirent_put (f_dirent r) st else st) }"

definition putref_file :: "'w calls \<Rightarrow> ptr \<Rightarrow> 'w system \<Rightarrow> 'w system option" where
  "putref_file C f st = do {
     r \<leftarrow> sy_files st f;
     kassert (f_refs r > 0);
     if f_refs r = 1 then do {
       st \<leftarrow> file_put C r (st\<lparr>sy_files := (sy_files st)(f := None)\<rparr>);
       Some st }
     else Some (set_file f (r\<lparr>f_refs := f_refs r - 1\<rparr>) st) }"

definition file_get_ops :: "(inode_info \<Rightarrow> file_ops) \<Rightarrow> inode_info \<Rightarrow> kfile \<Rightarrow> kfile" where
  "file_get_ops dev_get_fops node f =
    (if S_ISBLK (i_mode node) then f\<lparr>f_devtype := FDT_BLOCK, f_ops := dev_get_fops node\<rparr>
     else if S_ISCHR (i_mode node) then f\<lparr>f_devtype := FDT_CHAR, f_ops := dev_get_fops node\<rparr>
     else if S_ISFIFO (i_mode node) then f\<lparr>f_devtype := FDT_FIFO, f_ops := PipeOps\<rparr>
     else if S_ISSOCK (i_mode node) then f\<lparr>f_devtype := FDT_SOCK, f_ops := OtherOps 1\<rparr>
     else f\<lparr>f_devtype := FDT_REG, f_ops := OtherOps 0\<rparr>)"

text \<open>A null result is the address zero.\<close>

definition file_create :: "'w calls \<Rightarrow> (inode_info \<Rightarrow> file_ops) \<Rightarrow> ptr \<Rightarrow> file_device_type
    \<Rightarrow> 'w system \<Rightarrow> (ptr \<times> 'w system) option" where
  "file_create C dev_get_fops dir type st = do {
     let f = sy_next st;
     let st = st\<lparr>sy_next := Suc f\<rparr>;
     if dir \<noteq> NULL \<and> sy_dirent_inode st dir = NULL then do {
       st \<leftarrow> putref_file C f (set_file f file_init st);
       Some (NULL, st) }
     else do {
       let r = (if dir = NULL then file_init
                else (if type = FDT_UNKNOWN
                      then file_get_ops dev_get_fops (sy_inodes st (sy_dirent_inode st dir)) file_init
                      else file_init)\<lparr>f_dirent := dir\<rparr>);
       r \<leftarrow> (case type of
               FDT_UNKNOWN \<Rightarrow> Some r
             | FDT_REG \<Rightarrow> Some (r\<lparr>f_devtype := type, f_ops := OtherOps 0\<rparr>)
             | FDT_FIFO \<Rightarrow> Some (r\<lparr>f_devtype := type, f_ops := PipeOps\<rparr>)
             | FDT_SOCK \<Rightarrow> Some (r\<lparr>f_devtype := type, f_ops := OtherOps 1\<rparr>)
             | FDT_CHAR \<Rightarrow> None
             | FDT_BLOCK \<Rightarrow> None);
       let r = r\<lparr>f_flags := 0, f_pos := 0\<rparr>;
       (d, st) \<leftarrow> fops_create C r st;
       Some (f, set_file f (r\<lparr>f_devdata := d\<rparr>) st) } }"

definition file_close :: "'w calls \<Rightarrow> ptr \<Rightarrow> 'w system \<Rightarrow> 'w system option" where
  "file_close C f st = do {
     r \<leftarrow> sy_files st f;
     st \<leftarrow> fops_close C r st;
     putref_file C f st }"

section \<open>The links of \<open>/proc/<pid>/fd\<close>\<close>

text \<open>Process \<open>0\<close> is \<open>kernel_process\<close>, which has no such directory.\<close>

definition process_remove_proc_fd :: "nat \<Rightarrow> nat \<Rightarrow> 'w system \<Rightarrow> 'w system option" where
  "process_remove_proc_fd p i st =
    (if p = 0 then Some st else do {
       kassert (sy_links st (p, i) \<noteq> None);
       Some (st\<lparr>sy_links := (sy_links st)((p, i) := None)\<rparr>) })"

definition process_create_proc_fd :: "nat \<Rightarrow> nat \<Rightarrow> string \<Rightarrow> 'w system \<Rightarrow> 'w system option" where
  "process_create_proc_fd p i path st =
    (if p = 0 then Some st else do {
       kassert (sy_links st (p, i) = None);
       Some (st\<lparr>sy_links := (sy_links st)((p, i) \<mapsto> path)\<rparr>) })"

definition process_copy_proc_fd :: "nat \<Rightarrow> nat \<Rightarrow> nat \<Rightarrow> nat \<Rightarrow> 'w system \<Rightarrow> 'w system option" where
  "process_copy_proc_fd p q i j st =
    (if p = 0 \<or> q = 0 then Some st else do {
       link \<leftarrow> sy_links st (p, i);
       kassert (sy_links st (q, j) = None);
       Some (st\<lparr>sy_links := (sy_links st)((q, j) \<mapsto> link)\<rparr>) })"

section \<open>Descriptors\<close>

text \<open>The process that calls is the argument \<open>p\<close>.\<close>

definition process_exchange_fd :: "'w calls \<Rightarrow> nat \<Rightarrow> ptr \<Rightarrow> int \<Rightarrow> 'w system \<Rightarrow> (ptr \<times> 'w system) option" where
  "process_exchange_fd C p f i st =
    (if i \<ge> int MAX_FD \<or> i < 0 then Some (NULL, st)
     else do {
       let old = fd_file (sy_table st (p, nat i));
       st \<leftarrow> getref_file f st;
       let st = set_slot p (nat i) ((sy_table st (p, nat i))\<lparr>fd_file := f\<rparr>) st;
       r \<leftarrow> sy_files st f;
       st \<leftarrow> fops_open C r st;
       Some (old, st) })"

text \<open>The search of \<open>process_allocate_fd\<close>, from index \<open>i\<close>.\<close>

definition free_fd :: "nat \<Rightarrow> nat \<Rightarrow> 'w system \<Rightarrow> nat option" where
  "free_fd p start st = find (\<lambda>i. fd_file (sy_table st (p, i)) = NULL) [start..<MAX_FD]"

definition process_allocate_fd :: "'w calls \<Rightarrow> nat \<Rightarrow> ptr \<Rightarrow> int \<Rightarrow> 'w system \<Rightarrow> (int \<times> 'w system) option" where
  "process_allocate_fd C p f start st =
    (if start < 0 then Some (- EINVAL, st)
     else case free_fd p (nat start) st of
       None \<Rightarrow> Some (- EMFILE, st)
     | Some i \<Rightarrow> do {
         st \<leftarrow> getref_file f st;
         let st = set_slot p i \<lparr>fd_file = f, fd_flags = 0\<rparr> st;
         r \<leftarrow> sy_files st f;
         st \<leftarrow> fops_open C r st;
         Some (int i, st) })"

definition process_release_fd :: "'w calls \<Rightarrow> nat \<Rightarrow> nat \<Rightarrow> 'w system \<Rightarrow> 'w system option" where
  "process_release_fd C p i st = do {
     let f = fd_file (sy_table st (p, i));
     let st = set_slot p i ((sy_table st (p, i))\<lparr>fd_file := NULL\<rparr>) st;
     st \<leftarrow> putref_file C f st;
     process_remove_proc_fd p i st }"

definition process_get_file :: "nat \<Rightarrow> int \<Rightarrow> 'w system \<Rightarrow> (ptr \<times> 'w system) option" where
  "process_get_file p fd st =
    (if fd \<ge> int MAX_FD \<or> fd < 0 then Some (NULL, st)
     else let f = fd_file (sy_table st (p, nat fd)) in
       if f = NULL then Some (NULL, st)
       else do { st \<leftarrow> getref_file f st; Some (f, st) })"

fun copy_files_loop :: "'w calls \<Rightarrow> nat \<Rightarrow> nat \<Rightarrow> nat list \<Rightarrow> 'w system \<Rightarrow> 'w system option" where
  "copy_files_loop C p q [] st = Some st"
| "copy_files_loop C p q (i # is) st = do {
     st \<leftarrow> (let f = fd_file (sy_table st (p, i)) in
       if f \<noteq> NULL then do {
         st \<leftarrow> getref_file f st;
         let st = set_slot q i \<lparr>fd_file = f, fd_flags = fd_flags (sy_table st (p, i))\<rparr> st;
         st \<leftarrow> process_copy_proc_fd p q i i st;
         r \<leftarrow> sy_files st f;
         fops_open C r st }
       else Some st);
     copy_files_loop C p q is st }"

definition process_copy_files :: "'w calls \<Rightarrow> nat \<Rightarrow> nat \<Rightarrow> 'w system \<Rightarrow> 'w system option" where
  "process_copy_files C p q st = copy_files_loop C p q [0..<MAX_FD] st"

fun close_files_loop :: "'w calls \<Rightarrow> nat \<Rightarrow> bool \<Rightarrow> nat list \<Rightarrow> 'w system \<Rightarrow> 'w system option" where
  "close_files_loop C p all [] st = Some st"
| "close_files_loop C p all (i # is) st = do {
     st \<leftarrow> (let f = fd_file (sy_table st (p, i)) in
       if f \<noteq> NULL \<and> (and (fd_flags (sy_table st (p, i))) FD_CLOEXEC \<noteq> 0 \<or> all) then do {
         st \<leftarrow> file_close C f st;
         st \<leftarrow> process_remove_proc_fd p i st;
         Some (set_slot p i \<lparr>fd_file = NULL, fd_flags = 0\<rparr> st) }
       else Some st);
     close_files_loop C p all is st }"

definition process_close_files :: "'w calls \<Rightarrow> nat \<Rightarrow> bool \<Rightarrow> 'w system \<Rightarrow> 'w system option" where
  "process_close_files C p all st = close_files_loop C p all [0..<MAX_FD] st"

section \<open>Transfers\<close>

definition file_read :: "'w calls \<Rightarrow> cb_env \<Rightarrow> ptr \<Rightarrow> u64 \<Rightarrow> u64 \<Rightarrow> 'w system
    \<Rightarrow> ('w system \<times> u8 list \<times> cb_result) option" where
  "file_read C env f off len st = do {
     r \<leftarrow> sy_files st f;
     case f_ops r of
       NoOps \<Rightarrow> Some (st, [], Returned (- EIO))
     | PipeOps \<Rightarrow> do {
         p \<leftarrow> sy_pipes st (f_devdata r);
         let (p, out, res) = pipe_read env (f_flags r) len p;
         Some (set_pipe (f_devdata r) p st, out, res) }
     | OtherOps n \<Rightarrow> (case fc_read (C n) of
           None \<Rightarrow> Some (st, [], Returned (- EIO))
         | Some rd \<Rightarrow> (let (w, out, v) = rd r off len (sy_world st)
                       in Some (st\<lparr>sy_world := w\<rparr>, out, Returned v))) }"

text \<open>\<open>p\<close> is the calling process, which receives \<open>SIGPIPE\<close>.\<close>

definition file_write :: "'w calls \<Rightarrow> cb_env \<Rightarrow> nat \<Rightarrow> ptr \<Rightarrow> u64 \<Rightarrow> u8 list \<Rightarrow> 'w system
    \<Rightarrow> ('w system \<times> cb_result) option" where
  "file_write C env p f off buf st = do {
     r \<leftarrow> sy_files st f;
     case f_ops r of
       NoOps \<Rightarrow> Some (st, Returned (- EIO))
     | PipeOps \<Rightarrow> do {
         q \<leftarrow> sy_pipes st (f_devdata r);
         let (q, res, sig) = pipe_write env (f_flags r) buf q;
         let st = set_pipe (f_devdata r) q st;
         Some (if sig then st\<lparr>sy_sigpipe := sy_sigpipe st @ [p]\<rparr> else st, res) }
     | OtherOps n \<Rightarrow> (case fc_write (C n) of
           None \<Rightarrow> Some (st, Returned (- EIO))
         | Some wr \<Rightarrow> (let (w, v) = wr r off buf (sy_world st)
                       in Some (st\<lparr>sy_world := w\<rparr>, Returned v))) }"

definition file_get_len :: "ptr \<Rightarrow> 'w system \<Rightarrow> (u64 \<times> 'w system) option" where
  "file_get_len f st = do {
     r \<leftarrow> sy_files st f;
     let (node, st) = file_get_inode r st;
     if node = NULL then Some (0, st) else Some (i_length (sy_inodes st node), inode_put node st) }"

definition file_truncate :: "ptr \<Rightarrow> u64 \<Rightarrow> 'w system \<Rightarrow> (int \<times> 'w system) option" where
  "file_truncate f len st = do {
     r \<leftarrow> sy_files st f;
     let (node, st) = file_get_inode r st;
     if node = NULL then Some (- EINVAL, st)
     else do {
       let st = st\<lparr>sy_inodes := (sy_inodes st)(node := (sy_inodes st node)\<lparr>i_length := len, i_dirty := True\<rparr>)\<rparr>;
       let st = (if f_pos r > len then set_file f (r\<lparr>f_pos := len\<rparr>) st else st);
       Some (0, inode_put node st) } }"

definition add_pos :: "ptr \<Rightarrow> int \<Rightarrow> 'w system \<Rightarrow> 'w system option" where
  "add_pos f v st = do {
     r \<leftarrow> sy_files st f;
     Some (if v > 0 then set_file f (r\<lparr>f_pos := f_pos r + word_of_int v\<rparr>) st else st) }"

section \<open>System calls on descriptors (kernel/sys/open.c, kernel/sys/ctl.c)\<close>

definition sys_dup :: "'w calls \<Rightarrow> nat \<Rightarrow> int \<Rightarrow> 'w system \<Rightarrow> (int \<times> 'w system) option" where
  "sys_dup C p old st = do {
     (f, st) \<leftarrow> process_get_file p old st;
     if f = NULL then Some (- EBADF, st) else do {
       (nf, st) \<leftarrow> process_allocate_fd C p f 0 st;
       st \<leftarrow> (if nf \<ge> 0 then process_copy_proc_fd p p (nat old) (nat nf) st else Some st);
       st \<leftarrow> putref_file C f st;
       Some (nf, st) } }"

definition sys_dup2 :: "'w calls \<Rightarrow> nat \<Rightarrow> int \<Rightarrow> int \<Rightarrow> 'w system \<Rightarrow> (int \<times> 'w system) option" where
  "sys_dup2 C p old new st = do {
     (f, st) \<leftarrow> process_get_file p old st;
     if f = NULL then Some (- EBADF, st)
     else if new \<ge> int MAX_FD \<or> new < 0 then Some (- ERANGE, st)
     else do {
       (prev, st) \<leftarrow> process_exchange_fd C p f new st;
       st \<leftarrow> putref_file C f st;
       st \<leftarrow> (if prev \<noteq> NULL then do {
                st \<leftarrow> process_remove_proc_fd p (nat new) st;
                file_close C prev st }
              else Some st);
       st \<leftarrow> process_copy_proc_fd p p (nat old) (nat new) st;
       Some (new, st) } }"

definition sys_close :: "'w calls \<Rightarrow> nat \<Rightarrow> int \<Rightarrow> 'w system \<Rightarrow> (int \<times> 'w system) option" where
  "sys_close C p fd st = do {
     (f, st) \<leftarrow> process_get_file p fd st;
     if f = NULL then Some (- EBADF, st) else do {
       st \<leftarrow> process_release_fd C p (nat fd) st;
       st \<leftarrow> file_close C f st;
       Some (0, st) } }"

definition SEEK_SET :: int where "SEEK_SET = 0"
definition SEEK_CUR :: int where "SEEK_CUR = 1"
definition SEEK_END :: int where "SEEK_END = 2"

definition sys_lseek :: "'w calls \<Rightarrow> nat \<Rightarrow> int \<Rightarrow> int \<Rightarrow> int \<Rightarrow> 'w system \<Rightarrow> (int \<times> 'w system) option" where
  "sys_lseek C p fd off whence st = do {
     (f, st) \<leftarrow> process_get_file p fd st;
     if f = NULL then Some (- EBADF, st) else do {
       r \<leftarrow> sy_files st f;
       if f_devtype r = FDT_FIFO \<or> f_devtype r = FDT_SOCK then do {
         st \<leftarrow> putref_file C f st;
         Some (- ESPIPE, st) }
       else do {
         let (ret, r', st) =
          (if whence = SEEK_SET then
             if off < 0 then (- EINVAL, r, st) else (0, r\<lparr>f_pos := word_of_int off\<rparr>, st)
           else if whence = SEEK_CUR then
             if sint (f_pos r) + off < 0 then (- EINVAL, r, st)
             else (0, r\<lparr>f_pos := word_of_int (off + sint (f_pos r))\<rparr>, st)
           else if whence = SEEK_END then
             (let (node, st) = file_get_inode r st in
              if node = NULL then (- EIO, r, st)
              else let pos = sint (i_length (sy_inodes st node)) in
                if pos + off < 0 then (- EINVAL, r, inode_put node st)
                else (0, r\<lparr>f_pos := word_of_int (pos + off)\<rparr>, inode_put node st))
           else (0, r, st));
         st \<leftarrow> putref_file C f (set_file f r' st);
         Some (if ret \<noteq> 0 then ret else sint (f_pos r'), st) } } }"

text \<open>A call that is still inside a sleeping transfer keeps its reference.\<close>

definition finish_read :: "'w calls \<Rightarrow> bool \<Rightarrow> ptr \<Rightarrow> 'w system \<times> u8 list \<times> cb_result
    \<Rightarrow> ('w system \<times> u8 list \<times> cb_result) option" where
  "finish_read C advance f res = (case res of (st, out, r) \<Rightarrow>
     (case r of Suspended b \<Rightarrow> Some (st, out, r)
      | Returned v \<Rightarrow> do {
          st \<leftarrow> (if advance then add_pos f v st else Some st);
          st \<leftarrow> putref_file C f st;
          Some (st, out, r) }))"

definition sys_read :: "'w calls \<Rightarrow> cb_env \<Rightarrow> nat \<Rightarrow> int \<Rightarrow> u64 \<Rightarrow> 'w system
    \<Rightarrow> ('w system \<times> u8 list \<times> cb_result) option" where
  "sys_read C env p fd count st = do {
     (f, st) \<leftarrow> process_get_file p fd st;
     if f = NULL then Some (st, [], Returned (- EBADF)) else do {
       r \<leftarrow> sy_files st f;
       if f_flags r AND F_READ = 0 then do {
         st \<leftarrow> putref_file C f st;
         Some (st, [], Returned (- EACCES)) }
       else do {
         res \<leftarrow> file_read C env f (f_pos r) count st;
         finish_read C True f res } } }"

definition sys_pread :: "'w calls \<Rightarrow> cb_env \<Rightarrow> nat \<Rightarrow> int \<Rightarrow> u64 \<Rightarrow> u64 \<Rightarrow> 'w system
    \<Rightarrow> ('w system \<times> u8 list \<times> cb_result) option" where
  "sys_pread C env p fd count off st = do {
     (f, st) \<leftarrow> process_get_file p fd st;
     if f = NULL then Some (st, [], Returned (- EBADF)) else do {
       r \<leftarrow> sy_files st f;
       if f_flags r AND F_READ = 0 then do {
         st \<leftarrow> putref_file C f st;
         Some (st, [], Returned (- EACCES)) }
       else do {
         res \<leftarrow> file_read C env f off count st;
         finish_read C False f res } } }"

definition finish_write :: "'w calls \<Rightarrow> bool \<Rightarrow> ptr \<Rightarrow> 'w system \<times> cb_result
    \<Rightarrow> ('w system \<times> cb_result) option" where
  "finish_write C advance f res = (case res of (st, r) \<Rightarrow>
     (case r of Suspended b \<Rightarrow> Some (st, r)
      | Returned v \<Rightarrow> do {
          st \<leftarrow> (if advance then add_pos f v st else Some st);
          st \<leftarrow> putref_file C f st;
          Some (st, r) }))"

text \<open>The offset of a write: the end of the file under \<open>O_APPEND\<close>.\<close>

definition write_offset :: "ptr \<Rightarrow> 'w system \<Rightarrow> (u64 \<times> 'w system) option" where
  "write_offset f st = do {
     r \<leftarrow> sy_files st f;
     (off, st) \<leftarrow> (if f_flags r AND O_APPEND \<noteq> 0 then file_get_len f st else Some (f_pos r, st));
     Some (off, set_file f (r\<lparr>f_pos := off\<rparr>) st) }"

definition sys_write :: "'w calls \<Rightarrow> cb_env \<Rightarrow> nat \<Rightarrow> int \<Rightarrow> u8 list \<Rightarrow> 'w system
    \<Rightarrow> ('w system \<times> cb_result) option" where
  "sys_write C env p fd buf st = do {
     (f, st) \<leftarrow> process_get_file p fd st;
     if f = NULL then Some (st, Returned (- EBADF)) else do {
       r \<leftarrow> sy_files st f;
       if f_flags r AND F_WRITE = 0 then do {
         st \<leftarrow> putref_file C f st;
         Some (st, Returned (- EACCES)) }
       else do {
         (off, st) \<leftarrow> write_offset f st;
         res \<leftarrow> file_write C env p f off buf st;
         finish_write C True f res } } }"

definition sys_pwrite :: "'w calls \<Rightarrow> cb_env \<Rightarrow> nat \<Rightarrow> int \<Rightarrow> u8 list \<Rightarrow> u64 \<Rightarrow> 'w system
    \<Rightarrow> ('w system \<times> cb_result) option" where
  "sys_pwrite C env p fd buf off st = do {
     (f, st) \<leftarrow> process_get_file p fd st;
     if f = NULL then Some (st, Returned (- EBADF)) else do {
       r \<leftarrow> sy_files st f;
       if f_flags r AND F_WRITE = 0 then do {
         st \<leftarrow> putref_file C f st;
         Some (st, Returned (- EACCES)) }
       else do {
         res \<leftarrow> file_write C env p f off buf st;
         finish_write C False f res } } }"

text \<open>
  The loops of \<open>sys_pwritev\<close>. The value \<open>None\<close> is also a loop that never ends. The
  transfers of the vectors do not wait here: each uses the empty list of resumptions, and
  one that would sleep leaves the call suspended.
\<close>

partial_function (option) pwritev_loop :: "'w calls \<Rightarrow> nat \<Rightarrow> ptr \<Rightarrow> u64 \<Rightarrow> u8 list list \<Rightarrow> int
    \<Rightarrow> 'w system \<Rightarrow> ('w system \<times> cb_result) option" where
  "pwritev_loop C p f off iov amount st =
    (case iov of
       [] \<Rightarrow> Some (st, Returned amount)
     | v # iov' \<Rightarrow>
         if v = [] then pwritev_loop C p f off iov' amount st
         else do {
           res \<leftarrow> file_write C [] p f off v st;
           (case snd res of
              Suspended b \<Rightarrow> Some (fst res, Suspended b)
            | Returned n \<Rightarrow>
                if n < 0 then Some (fst res, Returned (if amount = 0 then n else amount))
                else pwritev_loop C p f (off + word_of_int n) (drop (nat n) v # iov') (amount + n) (fst res)) })"

definition sys_pwritev :: "'w calls \<Rightarrow> nat \<Rightarrow> int \<Rightarrow> u8 list list \<Rightarrow> u64 \<Rightarrow> 'w system
    \<Rightarrow> ('w system \<times> cb_result) option" where
  "sys_pwritev C p fd iov off st = do {
     (f, st) \<leftarrow> process_get_file p fd st;
     if f = NULL then Some (st, Returned (- EBADF)) else do {
       r \<leftarrow> sy_files st f;
       if f_flags r AND F_WRITE = 0 then do {
         st \<leftarrow> putref_file C f st;
         Some (st, Returned (- EACCES)) }
       else do {
         res \<leftarrow> pwritev_loop C p f off iov 0 st;
         finish_write C False f res } } }"

definition sys_writev :: "'w calls \<Rightarrow> nat \<Rightarrow> int \<Rightarrow> u8 list list \<Rightarrow> 'w system
    \<Rightarrow> ('w system \<times> cb_result) option" where
  "sys_writev C p fd iov st = do {
     (f, st) \<leftarrow> process_get_file p fd st;
     if f = NULL then Some (st, Returned (- EBADF)) else do {
       r \<leftarrow> sy_files st f;
       if f_flags r AND F_WRITE = 0 then do {
         st \<leftarrow> putref_file C f st;
         Some (st, Returned (- EACCES)) }
       else do {
         (off, st) \<leftarrow> write_offset f st;
         res \<leftarrow> sys_pwritev C p fd iov off st;
         finish_write C True f res } } }"

text \<open>The vectors of a read are given by their lengths; the result is the bytes read in order.\<close>

partial_function (option) preadv_loop :: "'w calls \<Rightarrow> ptr \<Rightarrow> u64 \<Rightarrow> nat list \<Rightarrow> u8 list
    \<Rightarrow> 'w system \<Rightarrow> ('w system \<times> u8 list \<times> cb_result) option" where
  "preadv_loop C f off iov data st =
    (case iov of
       [] \<Rightarrow> Some (st, data, Returned (int (length data)))
     | n # iov' \<Rightarrow>
         if n = 0 then preadv_loop C f off iov' data st
         else do {
           res \<leftarrow> file_read C [] f off (of_nat n) st;
           (case snd (snd res) of
              Suspended b \<Rightarrow> Some (fst res, data, Suspended b)
            | Returned v \<Rightarrow>
                if v \<le> 0 then Some (fst res, data, Returned (if data = [] then v else int (length data)))
                else preadv_loop C f (off + word_of_int v) ((n - nat v) # iov')
                       (data @ fst (snd res)) (fst res)) })"

definition sys_preadv :: "'w calls \<Rightarrow> nat \<Rightarrow> int \<Rightarrow> nat list \<Rightarrow> u64 \<Rightarrow> 'w system
    \<Rightarrow> ('w system \<times> u8 list \<times> cb_result) option" where
  "sys_preadv C p fd iov off st = do {
     (f, st) \<leftarrow> process_get_file p fd st;
     if f = NULL then Some (st, [], Returned (- EBADF)) else do {
       r \<leftarrow> sy_files st f;
       if f_flags r AND F_READ = 0 then do {
         st \<leftarrow> putref_file C f st;
         Some (st, [], Returned (- EACCES)) }
       else do {
         res \<leftarrow> preadv_loop C f off iov [] st;
         finish_read C False f res } } }"

definition sys_readv :: "'w calls \<Rightarrow> nat \<Rightarrow> int \<Rightarrow> nat list \<Rightarrow> 'w system
    \<Rightarrow> ('w system \<times> u8 list \<times> cb_result) option" where
  "sys_readv C p fd iov st = do {
     (f, st) \<leftarrow> process_get_file p fd st;
     if f = NULL then Some (st, [], Returned (- EBADF)) else do {
       r \<leftarrow> sy_files st f;
       if f_flags r AND F_READ = 0 then do {
         st \<leftarrow> putref_file C f st;
         Some (st, [], Returned (- EACCES)) }
       else do {
         res \<leftarrow> sys_preadv C p fd iov (f_pos r) st;
         finish_read C True f res } } }"

datatype fcntl_cmd = F_DUPFD | F_GETFD | F_SETFD | F_GETFL | F_SETFL | F_GETLK | F_SETLK | F_SETLKW
  | F_SETOWN | F_GETOWN | F_OTHER

text \<open>\<open>F_GETLK\<close> only writes \<open>F_UNLCK\<close> into the caller's structure.\<close>

definition sys_fcntl :: "'w calls \<Rightarrow> nat \<Rightarrow> int \<Rightarrow> fcntl_cmd \<Rightarrow> int \<Rightarrow> 'w system \<Rightarrow> (int \<times> 'w system) option" where
  "sys_fcntl C p fd cmd arg st = do {
     (f, st) \<leftarrow> process_get_file p fd st;
     if f = NULL then Some (- EBADF, st) else do {
       r \<leftarrow> sy_files st f;
       (ret, st) \<leftarrow> (case cmd of
           F_GETFD \<Rightarrow> Some (fd_flags (sy_table st (p, nat fd)), st)
         | F_SETFD \<Rightarrow> Some (0, set_slot p (nat fd) ((sy_table st (p, nat fd))\<lparr>fd_flags := arg\<rparr>) st)
         | F_SETFL \<Rightarrow> Some (0, set_file f (r\<lparr>f_flags := (word_of_int arg AND NOT (F_READ OR F_WRITE)) OR
                                     (f_flags r AND (F_READ OR F_WRITE))\<rparr>) st)
         | F_GETFL \<Rightarrow> Some (sint (f_flags r), st)
         | F_DUPFD \<Rightarrow> do {
             (nf, st) \<leftarrow> process_allocate_fd C p f arg st;
             st \<leftarrow> (if nf \<ge> 0 then process_copy_proc_fd p p (nat fd) (nat nf) st else Some st);
             Some (nf, st) }
         | F_OTHER \<Rightarrow> Some (- EINVAL, st)
         | _ \<Rightarrow> Some (0, st));
       st \<leftarrow> putref_file C f st;
       Some (ret, st) } }"

definition sys_pipe :: "'w calls \<Rightarrow> (inode_info \<Rightarrow> file_ops) \<Rightarrow> nat \<Rightarrow> 'w system
    \<Rightarrow> (int \<times> nat list \<times> 'w system) option" where
  "sys_pipe C D p st = do {
     (rf, st) \<leftarrow> file_create C D NULL FDT_FIFO st;
     (wf, st) \<leftarrow> file_create C D NULL FDT_UNKNOWN st;
     r \<leftarrow> sy_files st rf;
     w \<leftarrow> sy_files st wf;
     st \<leftarrow> getref_pipe (f_devdata r) st;
     let st = set_file wf (w\<lparr>f_ops := f_ops r, f_devdata := f_devdata r, f_flags := F_WRITE\<rparr>) st;
     let st = set_file rf (r\<lparr>f_flags := F_READ\<rparr>) st;
     (wfd, st) \<leftarrow> process_allocate_fd C p wf 0 st;
     st \<leftarrow> putref_file C wf st;
     if wfd < 0 then do {
       st \<leftarrow> putref_file C rf st;
       Some (- EMFILE, [], st) }
     else do {
       st \<leftarrow> process_create_proc_fd p (nat wfd) ''[pipe:write]'' st;
       (rfd, st) \<leftarrow> process_allocate_fd C p rf 0 st;
       st \<leftarrow> putref_file C rf st;
       if rfd < 0 then do {
         st \<leftarrow> process_release_fd C p (nat wfd) st;
         Some (- EMFILE, [], st) }
       else do {
         st \<leftarrow> process_create_proc_fd p (nat rfd) ''[pipe:read]'' st;
         q \<leftarrow> sy_pipes st (f_devdata r);
         kassert (p_readers q = 1);
         kassert (p_writers q = 1);
         Some (0, [nat rfd, nat wfd], st) } } }"

section \<open>Counting descriptors\<close>

definition used :: "'w system \<Rightarrow> slot set" where
  "used st = {s. fd_file (sy_table st s) \<noteq> NULL}"

definition slots :: "(ptr \<Rightarrow> bool) \<Rightarrow> 'w system \<Rightarrow> int" where
  "slots P st = int (card {s. P (fd_file (sy_table st s))})"

lemma slots_nonneg [simp]: "0 \<le> slots P st"
  by (simp add: slots_def)

lemma slots_table: "sy_table st' = sy_table st \<Longrightarrow> slots P st' = slots P st"
  by (simp add: slots_def)

lemma slots_cong:
  "(\<And>s. P (fd_file (sy_table st s)) = Q (fd_file (sy_table st s))) \<Longrightarrow> slots P st = slots Q st"
  by (simp add: slots_def)

lemma slots_finite:
  assumes "finite (used st)" "\<not> P NULL"
  shows "finite {s. P (fd_file (sy_table st s))}"
proof (rule finite_subset [OF _ assms(1)])
  show "{s. P (fd_file (sy_table st s))} \<subseteq> used st"
  proof
    fix s assume "s \<in> {s. P (fd_file (sy_table st s))}"
    then have "fd_file (sy_table st s) \<noteq> NULL" using assms(2) by (metis mem_Collect_eq)
    then show "s \<in> used st" by (simp add: used_def)
  qed
qed

lemma slots_pos:
  assumes "finite (used st)" "\<not> P NULL" "P (fd_file (sy_table st s))"
  shows "1 \<le> slots P st"
proof -
  have "card {s. P (fd_file (sy_table st s))} \<noteq> 0"
    using slots_finite [of st P, OF assms(1,2)] assms(3)
    by (metis (mono_tags, lifting) card_0_eq empty_iff mem_Collect_eq)
  then show ?thesis by (simp add: slots_def)
qed

lemma slots_zero:
  assumes "finite (used st)" "\<not> P NULL" "slots P st = 0"
  shows "\<not> P (fd_file (sy_table st s))"
  using slots_pos [of st P, OF assms(1,2)] assms(3) by fastforce

lemma slots_set_slot:
  assumes "finite (used st)" "\<not> P NULL"
  shows "slots P (set_slot p i d st) =
    slots P st + of_bool (P (fd_file d)) - of_bool (P (fd_file (sy_table st (p, i))))"
proof -
  let ?A = "{s. P (fd_file (sy_table st s))}"
  have fin: "finite ?A" by (rule slots_finite [of st P, OF assms])
  have "{s. P (fd_file (sy_table (set_slot p i d st) s))} =
      (if P (fd_file d) then insert (p, i) (?A - {(p, i)}) else ?A - {(p, i)})"
    by (auto simp: set_slot_def)
  moreover have "int (card (?A - {(p, i)})) = int (card ?A) - of_bool (P (fd_file (sy_table st (p, i))))"
    using fin card_Suc_Diff1 [of ?A "(p, i)"] by (auto simp: of_bool_def)
  moreover have "card (insert (p, i) (?A - {(p, i)})) = Suc (card (?A - {(p, i)}))"
    using fin by (intro card_insert_disjoint) auto
  ultimately show ?thesis
    unfolding slots_def by (simp del: insert_Diff_single)
qed

section \<open>The invariant of descriptors, files and pipes\<close>

definition pipe_file :: "ptr \<Rightarrow> 'w system \<Rightarrow> ptr \<Rightarrow> bool" where
  "pipe_file q st f \<longleftrightarrow> (\<exists>r. sy_files st f = Some r \<and> f_ops r = PipeOps \<and> f_devdata r = q)"

definition rd_flags :: "u32 \<Rightarrow> bool" where
  "rd_flags fl \<longleftrightarrow> fl AND F_WRITE = 0 \<and> fl AND F_READ \<noteq> 0"

definition wr_flags :: "u32 \<Rightarrow> bool" where
  "wr_flags fl \<longleftrightarrow> fl AND F_WRITE \<noteq> 0"

definition rd_end :: "ptr \<Rightarrow> 'w system \<Rightarrow> ptr \<Rightarrow> bool" where
  "rd_end q st f \<longleftrightarrow> (\<exists>r. sy_files st f = Some r \<and> f_ops r = PipeOps \<and> f_devdata r = q \<and> rd_flags (f_flags r))"

definition wr_end :: "ptr \<Rightarrow> 'w system \<Rightarrow> ptr \<Rightarrow> bool" where
  "wr_end q st f \<longleftrightarrow> (\<exists>r. sy_files st f = Some r \<and> f_ops r = PipeOps \<and> f_devdata r = q \<and> wr_flags (f_flags r))"

text \<open>
  \<open>X\<close> counts the references to files held by code that runs, \<open>R\<close> and \<open>W\<close> the
  calls of \<open>close\<close> owed to the read and write ends of pipes, and \<open>Z\<close> the references
  to pipes from elsewhere (from the inodes of named pipes).
\<close>

definition files_ok :: "(ptr \<Rightarrow> int) \<Rightarrow> 'w system \<Rightarrow> bool" where
  "files_ok X st \<longleftrightarrow> finite (used st) \<and> finite (dom (sy_files st)) \<and>
     (\<forall>s \<in> used st. sy_files st (fd_file (sy_table st s)) \<noteq> None) \<and>
     (\<forall>f r. sy_files st f = Some r \<longrightarrow> 0 < f \<and> f < sy_next st \<and>
        f_refs r = slots (\<lambda>g. g = f) st + X f \<and> 0 < slots (\<lambda>g. g = f) st + X f)"

definition pipes_ok :: "(ptr \<Rightarrow> int) \<Rightarrow> (ptr \<Rightarrow> int) \<Rightarrow> (ptr \<Rightarrow> int) \<Rightarrow> 'w system \<Rightarrow> bool" where
  "pipes_ok R W Z st \<longleftrightarrow>
     (\<forall>f r. sy_files st f = Some r \<longrightarrow> f_ops r = PipeOps \<longrightarrow> sy_pipes st (f_devdata r) \<noteq> None \<and>
        \<not> (f_flags r AND F_READ \<noteq> 0 \<and> f_flags r AND F_WRITE \<noteq> 0)) \<and>
     (\<forall>q p. sy_pipes st q = Some p \<longrightarrow> q < sy_next st \<and>
        p_refs p = int (card {f. pipe_file q st f}) + Z q \<and> 0 < int (card {f. pipe_file q st f}) + Z q \<and>
        p_readers p = slots (rd_end q st) st + R q \<and> p_writers p = slots (wr_end q st) st + W q \<and>
        cb_wf (p_buf p)) \<and>
     (\<forall>q. 0 \<le> Z q) \<and> (\<forall>q \<ge> sy_next st. Z q = 0)"

definition fd_inv :: "(ptr \<Rightarrow> int) \<Rightarrow> (ptr \<Rightarrow> int) \<Rightarrow> (ptr \<Rightarrow> int) \<Rightarrow> (ptr \<Rightarrow> int) \<Rightarrow> 'w system \<Rightarrow> bool" where
  "fd_inv X R W Z st \<longleftrightarrow> files_ok X st \<and> pipes_ok R W Z st"

lemma files_okD:
  assumes "files_ok X st"
  shows "finite (used st)" "finite (dom (sy_files st))"
    "s \<in> used st \<Longrightarrow> sy_files st (fd_file (sy_table st s)) \<noteq> None"
    "sy_files st f = Some r \<Longrightarrow> 0 < f \<and> f < sy_next st"
    "sy_files st f = Some r \<Longrightarrow> f_refs r = slots (\<lambda>g. g = f) st + X f"
    "sy_files st f = Some r \<Longrightarrow> 0 < f_refs r"
  using assms unfolding files_ok_def by - (blast | fastforce)+

lemma files_null: "files_ok X st \<Longrightarrow> sy_files st NULL = None"
  using files_okD(4) [of X st NULL] by (cases "sy_files st NULL") auto

lemma ends_null: "files_ok X st \<Longrightarrow> \<not> rd_end q st NULL" "files_ok X st \<Longrightarrow> \<not> wr_end q st NULL"
  by (simp_all add: rd_end_def wr_end_def files_null)

lemma pipes_okD:
  assumes "pipes_ok R W Z st"
  shows "sy_files st f = Some r \<Longrightarrow> f_ops r = PipeOps \<Longrightarrow> \<exists>p. sy_pipes st (f_devdata r) = Some p"
    "sy_files st f = Some r \<Longrightarrow> f_ops r = PipeOps \<Longrightarrow> \<not> (f_flags r AND F_READ \<noteq> 0 \<and> f_flags r AND F_WRITE \<noteq> 0)"
    "sy_pipes st q = Some p \<Longrightarrow> q < sy_next st"
    "sy_pipes st q = Some p \<Longrightarrow> p_refs p = int (card {f. pipe_file q st f}) + Z q"
    "sy_pipes st q = Some p \<Longrightarrow> 0 < p_refs p"
    "sy_pipes st q = Some p \<Longrightarrow> p_readers p = slots (rd_end q st) st + R q"
    "sy_pipes st q = Some p \<Longrightarrow> p_writers p = slots (wr_end q st) st + W q"
    "sy_pipes st q = Some p \<Longrightarrow> cb_wf (p_buf p)"
    "0 \<le> Z q" "sy_next st \<le> q \<Longrightarrow> Z q = 0"
  using assms unfolding pipes_ok_def by - (blast | fastforce)+

text \<open>Changing a slot moves a reference to the code that runs, and a \<open>close\<close> that is owed.\<close>

lemma set_slot_inv:
  assumes "fd_inv X R W Z st" "fd_file d \<noteq> NULL \<longrightarrow> sy_files st (fd_file d) \<noteq> None"
  shows "fd_inv (\<lambda>g. X g + of_bool (g = fd_file (sy_table st (p, i))) - of_bool (g = fd_file d))
    (\<lambda>q. R q + of_bool (rd_end q st (fd_file (sy_table st (p, i)))) - of_bool (rd_end q st (fd_file d)))
    (\<lambda>q. W q + of_bool (wr_end q st (fd_file (sy_table st (p, i)))) - of_bool (wr_end q st (fd_file d)))
    Z (set_slot p i d st)"
proof -
  have f: "files_ok X st" and pp: "pipes_ok R W Z st" using assms(1) by (auto simp: fd_inv_def)
  note fo = files_okD [OF f] and po = pipes_okD [OF pp]
  have same: "rd_end q (set_slot p i d st) = rd_end q st" "wr_end q (set_slot p i d st) = wr_end q st"
    "pipe_file q (set_slot p i d st) = pipe_file q st" for q
    by (auto simp: rd_end_def wr_end_def pipe_file_def set_slot_def fun_eq_iff)
  have "used (set_slot p i d st) \<subseteq> insert (p, i) (used st)"
    by (auto simp: used_def set_slot_def)
  then have fin: "finite (used (set_slot p i d st))" using fo(1) by (meson finite_insert finite_subset)
  have live: "sy_files (set_slot p i d st) (fd_file (sy_table (set_slot p i d st) s)) \<noteq> None"
    if "s \<in> used (set_slot p i d st)" for s
    using that fo(3) [of s] assms(2) by (auto simp: used_def set_slot_def split: if_splits)
  have refs: "f_refs r = slots (\<lambda>g. g = f) (set_slot p i d st) + (X f + of_bool (f = fd_file (sy_table st (p, i))) - of_bool (f = fd_file d))"
    if "sy_files st f = Some r" for f r
  proof -
    have "f \<noteq> NULL" using fo(4) [OF that] by simp
    then have "slots (\<lambda>g. g = f) (set_slot p i d st) = slots (\<lambda>g. g = f) st +
        of_bool (fd_file d = f) - of_bool (fd_file (sy_table st (p, i)) = f)"
      using slots_set_slot [OF fo(1), of "\<lambda>g. g = f" p i d] by blast
    moreover have "(of_bool (fd_file d = f) :: int) = of_bool (f = fd_file d)"
      "(of_bool (fd_file (sy_table st (p, i)) = f) :: int) = of_bool (f = fd_file (sy_table st (p, i)))"
      by auto
    ultimately show ?thesis using fo(5) [OF that] by linarith
  qed
  have "files_ok (\<lambda>g. X g + of_bool (g = fd_file (sy_table st (p, i))) - of_bool (g = fd_file d)) (set_slot p i d st)"
    unfolding files_ok_def using fin live refs fo(2,4,6) by (simp add: set_slot_def)
  moreover have "pipes_ok
    (\<lambda>q. R q + of_bool (rd_end q st (fd_file (sy_table st (p, i)))) - of_bool (rd_end q st (fd_file d)))
    (\<lambda>q. W q + of_bool (wr_end q st (fd_file (sy_table st (p, i)))) - of_bool (wr_end q st (fd_file d)))
    Z (set_slot p i d st)"
  proof -
    have "slots (rd_end q st) (set_slot p i d st) = slots (rd_end q st) st +
        of_bool (rd_end q st (fd_file d)) - of_bool (rd_end q st (fd_file (sy_table st (p, i))))"
      "slots (wr_end q st) (set_slot p i d st) = slots (wr_end q st) st +
        of_bool (wr_end q st (fd_file d)) - of_bool (wr_end q st (fd_file (sy_table st (p, i))))" for q
      using slots_set_slot [of st "rd_end q st", OF fo(1) ends_null(1) [OF f]]
        slots_set_slot [of st "wr_end q st", OF fo(1) ends_null(2) [OF f]] by blast+
    moreover have "sy_files (set_slot p i d st) = sy_files st" "sy_pipes (set_slot p i d st) = sy_pipes st"
      "sy_next (set_slot p i d st) = sy_next st" by (simp_all add: set_slot_def)
    ultimately show ?thesis
      using pp unfolding pipes_ok_def same by simp
  qed
  ultimately show ?thesis by (simp add: fd_inv_def)
qed

text \<open>References to a file, and the two hooks of its operation table.\<close>

lemma same_ends:
  assumes "sy_files st f = Some r" "f_ops r' = f_ops r" "f_devdata r' = f_devdata r"
    "f_flags r' AND F_READ = f_flags r AND F_READ" "f_flags r' AND F_WRITE = f_flags r AND F_WRITE"
  shows "rd_end q (set_file f r' st) = rd_end q st" "wr_end q (set_file f r' st) = wr_end q st"
    "pipe_file q (set_file f r' st) = pipe_file q st"
  using assms by (auto simp: rd_end_def wr_end_def pipe_file_def set_file_def fun_eq_iff rd_flags_def wr_flags_def)

lemma set_file_inv:
  assumes "fd_inv X R W Z st" "sy_files st f = Some r" "f_ops r' = f_ops r" "f_devdata r' = f_devdata r"
    "f_flags r' AND F_READ = f_flags r AND F_READ" "f_flags r' AND F_WRITE = f_flags r AND F_WRITE"
    "f_refs r' = f_refs r + k" "0 < f_refs r'"
  shows "fd_inv (\<lambda>g. X g + (if g = f then k else 0)) R W Z (set_file f r' st)"
proof -
  have f: "files_ok X st" and pp: "pipes_ok R W Z st" using assms(1) by (auto simp: fd_inv_def)
  note same = same_ends [OF assms(2-6)]
  have sl: "slots P (set_file f r' st) = slots P st" for P by (simp add: slots_def set_file_def)
  have us: "used (set_file f r' st) = used st" by (simp add: used_def set_file_def)
  have "files_ok (\<lambda>g. X g + (if g = f then k else 0)) (set_file f r' st)"
    using f assms(2,7,8) unfolding files_ok_def sl us by (auto simp: set_file_def)
  moreover have "pipes_ok R W Z (set_file f r' st)"
    using pp assms(2-6) unfolding pipes_ok_def sl same by (auto simp: set_file_def)
  ultimately show ?thesis by (simp add: fd_inv_def)
qed

lemma getref_file_inv:
  assumes "fd_inv X R W Z st" "sy_files st f = Some r"
  shows "\<exists>st'. getref_file f st = Some st' \<and> st' = set_file f (r\<lparr>f_refs := f_refs r + 1\<rparr>) st \<and>
    fd_inv (\<lambda>g. X g + (if g = f then 1 else 0)) R W Z st'"
proof -
  have "0 < f_refs r" using assms files_okD(6) by (auto simp: fd_inv_def)
  then show ?thesis
    using assms set_file_inv [OF assms, of "r\<lparr>f_refs := f_refs r + 1\<rparr>" 1] by (simp add: getref_file_def)
qed

lemma set_pipe_inv:
  assumes "fd_inv X R W Z st" "sy_pipes st q = Some p" "p_refs p' = p_refs p" "cb_wf (p_buf p')"
    "p_readers p' = p_readers p + a" "p_writers p' = p_writers p + b"
  shows "fd_inv X (\<lambda>k. R k + (if k = q then a else 0)) (\<lambda>k. W k + (if k = q then b else 0)) Z (set_pipe q p' st)"
proof -
  have same: "rd_end k (set_pipe q p' st) = rd_end k st" "wr_end k (set_pipe q p' st) = wr_end k st"
    "pipe_file k (set_pipe q p' st) = pipe_file k st" for k
    by (auto simp: rd_end_def wr_end_def pipe_file_def set_pipe_def fun_eq_iff)
  have sl: "slots P (set_pipe q p' st) = slots P st" for P by (simp add: slots_def set_pipe_def)
  have us: "used (set_pipe q p' st) = used st" by (simp add: used_def set_pipe_def)
  have "files_ok X (set_pipe q p' st)"
    using assms(1) unfolding fd_inv_def files_ok_def sl us by (simp add: set_pipe_def)
  moreover have "pipes_ok (\<lambda>k. R k + (if k = q then a else 0)) (\<lambda>k. W k + (if k = q then b else 0)) Z (set_pipe q p' st)"
    using assms unfolding fd_inv_def pipes_ok_def sl same by (auto simp: set_pipe_def)
  ultimately show ?thesis by (simp add: fd_inv_def)
qed

lemma fd_inv_cong:
  assumes "sy_files st' = sy_files st" "sy_pipes st' = sy_pipes st" "sy_table st' = sy_table st"
    "sy_next st' = sy_next st"
  shows "fd_inv X R W Z st' = fd_inv X R W Z st"
proof -
  have "rd_end q st' = rd_end q st" "wr_end q st' = wr_end q st" "pipe_file q st' = pipe_file q st"
    "slots P st' = slots P st" "used st' = used st" for q P
    using assms by (auto simp: rd_end_def wr_end_def pipe_file_def slots_def used_def)
  then show ?thesis using assms by (simp add: fd_inv_def files_ok_def pipes_ok_def)
qed

lemma fd_inv_fields [simp]:
  "fd_inv X R W Z (st\<lparr>sy_world := w\<rparr>) = fd_inv X R W Z st"
  "fd_inv X R W Z (st\<lparr>sy_links := l\<rparr>) = fd_inv X R W Z st"
  "fd_inv X R W Z (st\<lparr>sy_dirent_refs := d\<rparr>) = fd_inv X R W Z st"
  "fd_inv X R W Z (st\<lparr>sy_inodes := n\<rparr>) = fd_inv X R W Z st"
  "fd_inv X R W Z (st\<lparr>sy_sigpipe := g\<rparr>) = fd_inv X R W Z st"
  by (rule fd_inv_cong; simp)+

lemma of_bool_pipe_end:
  assumes "sy_files st f = Some r" "f_ops r = PipeOps"
  shows "of_bool (rd_end k st f) = (if k = f_devdata r then of_bool (rd_flags (f_flags r)) else (0 :: int))"
    "of_bool (wr_end k st f) = (if k = f_devdata r then of_bool (wr_flags (f_flags r)) else (0 :: int))"
  using assms by (auto simp: rd_end_def wr_end_def)

lemma fops_open_inv:
  assumes "fd_inv X R W Z st" "sy_files st f = Some r"
  shows "\<exists>st'. fops_open C r st = Some st' \<and>
    fd_inv X (\<lambda>q. R q + of_bool (rd_end q st f)) (\<lambda>q. W q + of_bool (wr_end q st f)) Z st' \<and>
    sy_files st' = sy_files st \<and> sy_table st' = sy_table st \<and> sy_links st' = sy_links st"
proof (cases "f_ops r")
  case PipeOps
  have pp: "pipes_ok R W Z st" using assms(1) by (simp add: fd_inv_def)
  obtain p where p: "sy_pipes st (f_devdata r) = Some p"
    using pipes_okD(1) [OF pp assms(2) PipeOps] by blast
  have fl: "\<not> (f_flags r AND F_READ \<noteq> 0 \<and> f_flags r AND F_WRITE \<noteq> 0)"
    by (rule pipes_okD(2) [OF pp assms(2) PipeOps])
  obtain p' where p': "pipe_open (f_flags r) p = Some p'" "p_refs p' = p_refs p" "cb_wf (p_buf p')"
    "p_readers p' = p_readers p + of_bool (rd_flags (f_flags r))"
    "p_writers p' = p_writers p + of_bool (wr_flags (f_flags r))"
    using pipe_open_effect [OF fl, of p] pipes_okD(8) [OF pp p] unfolding rd_flags_def wr_flags_def by blast
  have "fops_open C r st = Some (set_pipe (f_devdata r) p' st)"
    using p p'(1) PipeOps by (simp add: fops_open_def)
  then show ?thesis
    using set_pipe_inv [OF assms(1) p p'(2,3,4,5)] unfolding of_bool_pipe_end [OF assms(2) PipeOps]
    by (simp add: set_pipe_def)
qed (use assms in \<open>simp_all add: fops_open_def rd_end_def wr_end_def\<close>)

lemma fops_close_inv:
  assumes "fd_inv X R W Z st" "sy_files st f = Some r"
    "\<And>q. 0 \<le> slots (rd_end q st) st + R q - of_bool (rd_end q st f)"
    "\<And>q. 0 \<le> slots (wr_end q st) st + W q - of_bool (wr_end q st f)"
  shows "\<exists>st'. fops_close C r st = Some st' \<and>
    fd_inv X (\<lambda>q. R q - of_bool (rd_end q st f)) (\<lambda>q. W q - of_bool (wr_end q st f)) Z st' \<and>
    sy_files st' = sy_files st \<and> sy_table st' = sy_table st \<and> sy_links st' = sy_links st"
proof (cases "f_ops r")
  case PipeOps
  have pp: "pipes_ok R W Z st" using assms(1) by (simp add: fd_inv_def)
  obtain p where p: "sy_pipes st (f_devdata r) = Some p"
    using pipes_okD(1) [OF pp assms(2) PipeOps] by blast
  have fl: "\<not> (f_flags r AND F_READ \<noteq> 0 \<and> f_flags r AND F_WRITE \<noteq> 0)"
    by (rule pipes_okD(2) [OF pp assms(2) PipeOps])
  have "0 \<le> p_readers p - of_bool (rd_flags (f_flags r))" "0 \<le> p_writers p - of_bool (wr_flags (f_flags r))"
    using assms(3,4) [of "f_devdata r"] pipes_okD(6,7) [OF pp p] of_bool_pipe_end [OF assms(2) PipeOps, of "f_devdata r"]
    by simp_all
  then obtain p' where p': "pipe_close (f_flags r) p = Some p'" "p_refs p' = p_refs p" "cb_wf (p_buf p')"
    "p_readers p' = p_readers p + - of_bool (rd_flags (f_flags r))"
    "p_writers p' = p_writers p + - of_bool (wr_flags (f_flags r))"
    using pipe_close_effect [OF fl, of p] pipes_okD(8) [OF pp p] unfolding rd_flags_def wr_flags_def by blast
  have eq: "fops_close C r st = Some (set_pipe (f_devdata r) p' st)"
    using p p'(1) PipeOps by (simp add: fops_close_def)
  have "(\<lambda>k. R k + (if k = f_devdata r then - of_bool (rd_flags (f_flags r)) else 0)) = (\<lambda>q. R q - of_bool (rd_end q st f))"
    "(\<lambda>k. W k + (if k = f_devdata r then - of_bool (wr_flags (f_flags r)) else 0)) = (\<lambda>q. W q - of_bool (wr_end q st f))"
    unfolding of_bool_pipe_end [OF assms(2) PipeOps] by auto
  from set_pipe_inv [OF assms(1) p p'(2,3,4,5), unfolded this] eq show ?thesis
    by (simp add: set_pipe_def)
qed (use assms in \<open>simp_all add: fops_close_def rd_end_def wr_end_def\<close>)

text \<open>Dropping the last reference to a file drops its reference to the pipe.\<close>

lemma drop_file_inv:
  assumes "fd_inv X R W Z st" "sy_files st f = Some r" "slots (\<lambda>g. g = f) st = 0" "X f = 1"
  shows "\<exists>st'. fops_destroy C r (st\<lparr>sy_files := (sy_files st)(f := None)\<rparr>) = Some st' \<and>
    fd_inv (\<lambda>g. X g - (if g = f then 1 else 0)) R W Z st' \<and> sy_table st' = sy_table st \<and>
    sy_links st' = sy_links st \<and> sy_files st' = (sy_files st)(f := None)"
proof -
  let ?st = "st\<lparr>sy_files := (sy_files st)(f := None)\<rparr>"
  have fo: "files_ok X st" and pp: "pipes_ok R W Z st" using assms(1) by (auto simp: fd_inv_def)
  have f0: "f \<noteq> NULL" using files_okD(4) [OF fo assms(2)] by simp
  have noslot: "fd_file (sy_table st s) \<noteq> f" for s
    using slots_zero [of st "\<lambda>g. g = f", OF files_okD(1) [OF fo] _ assms(3)] f0 by auto
  have sl: "slots P ?st = slots P st" for P by (simp add: slots_def)
  have ends: "slots (rd_end q ?st) st = slots (rd_end q st) st" "slots (wr_end q ?st) st = slots (wr_end q st) st" for q
    by (rule slots_cong; use noslot in \<open>simp add: rd_end_def wr_end_def\<close>)+
  have us: "used ?st = used st" by (simp add: used_def)
  have files: "files_ok (\<lambda>g. X g - (if g = f then 1 else 0)) ?st"
    using fo noslot unfolding files_ok_def sl us by (auto simp: used_def)
  have pf: "{g. pipe_file q ?st g} = {g. pipe_file q st g} - {f}" for q
    by (auto simp: pipe_file_def)
  show ?thesis
  proof (cases "f_ops r = PipeOps")
    case False
    then have "{g. pipe_file q ?st g} = {g. pipe_file q st g}" for q
      using assms(2) unfolding pf by (auto simp: pipe_file_def)
    then have "pipes_ok R W Z ?st"
      using pp unfolding pipes_ok_def sl ends by simp
    then have "fd_inv (\<lambda>g. X g - (if g = f then 1 else 0)) R W Z ?st" using files by (simp add: fd_inv_def)
    then show ?thesis using False by (cases "f_ops r") (simp_all add: fops_destroy_def)
  next
    case True
    let ?q = "f_devdata r"
    obtain p where p: "sy_pipes st ?q = Some p" using pipes_okD(1) [OF pp assms(2) True] by blast
    have fin: "finite {g. pipe_file ?q st g}"
      by (rule finite_subset [OF _ files_okD(2) [OF fo]]) (auto simp: pipe_file_def)
    have mem: "f \<in> {g. pipe_file ?q st g}" using assms(2) True by (simp add: pipe_file_def)
    have card: "int (card ({g. pipe_file ?q st g} - {f})) = int (card {g. pipe_file ?q st g}) - 1"
      using card_Suc_Diff1 [OF fin mem] by simp
    have other: "{g. pipe_file k st g} - {f} = {g. pipe_file k st g}" if "k \<noteq> ?q" for k
      using that assms(2) by (auto simp: pipe_file_def)
    have refs: "p_refs p = int (card {g. pipe_file ?q st g}) + Z ?q" "0 < p_refs p"
      using pipes_okD(4,5) [OF pp p] by simp_all
    have gen: "pipes_ok R W Z (?st\<lparr>sy_pipes := m\<rparr>)"
      if A: "\<And>g r'. sy_files st g = Some r' \<Longrightarrow> g \<noteq> f \<Longrightarrow> f_ops r' = PipeOps \<Longrightarrow> m (f_devdata r') \<noteq> None"
      and B: "\<And>k p'. m k = Some p' \<Longrightarrow> \<exists>p0. sy_pipes st k = Some p0 \<and> p_readers p' = p_readers p0 \<and>
        p_writers p' = p_writers p0 \<and> p_buf p' = p_buf p0 \<and> p_refs p' = p_refs p0 - (if k = ?q then 1 else 0) \<and> 0 < p_refs p'"
      for m
    proof -
      have fr: "rd_end k (?st\<lparr>sy_pipes := m\<rparr>) = rd_end k ?st" "wr_end k (?st\<lparr>sy_pipes := m\<rparr>) = wr_end k ?st"
        "{g. pipe_file k (?st\<lparr>sy_pipes := m\<rparr>) g} = {g. pipe_file k st g} - {f}"
        "slots P (?st\<lparr>sy_pipes := m\<rparr>) = slots P st" for k P
        by (auto simp: rd_end_def wr_end_def pipe_file_def slots_def fun_eq_iff)
      have each: "k < sy_next st \<and> p_refs p' = int (card ({g. pipe_file k st g} - {f})) + Z k \<and>
          0 < int (card ({g. pipe_file k st g} - {f})) + Z k \<and>
          p_readers p' = slots (rd_end k st) st + R k \<and> p_writers p' = slots (wr_end k st) st + W k \<and> cb_wf (p_buf p')"
        if "m k = Some p'" for k p'
      proof -
        obtain p0 where p0: "sy_pipes st k = Some p0" "p_readers p' = p_readers p0"
          "p_writers p' = p_writers p0" "p_buf p' = p_buf p0" "p_refs p' = p_refs p0 - (if k = ?q then 1 else 0)" "0 < p_refs p'"
          using B [OF \<open>m k = Some p'\<close>] by blast
        have r: "p_refs p' = int (card ({g. pipe_file k st g} - {f})) + Z k"
          using pipes_okD(4) [OF pp p0(1)] p0(5) card other [of k] by (cases "k = ?q") simp_all
        show ?thesis using pipes_okD(3,6,7,8) [OF pp p0(1)] p0 r by simp
      qed
      show ?thesis
        using A pipes_okD(2,9,10) [OF pp] each unfolding pipes_ok_def fr ends by auto
    qed
    show ?thesis
    proof (cases "p_refs p = 1")
      case one: True
      have "card ({g. pipe_file ?q st g} - {f}) = 0"
        using refs one card pipes_okD(9) [OF pp, of ?q] by linarith
      then have none: "{g. pipe_file ?q st g} - {f} = {}" using fin by simp
      have ne: "f_devdata r' \<noteq> ?q" if "sy_files st g = Some r'" "f_ops r' = PipeOps" "g \<noteq> f" for g r'
        using none that by (auto simp: pipe_file_def)
      have "pipes_ok R W Z (?st\<lparr>sy_pipes := (sy_pipes st)(?q := None)\<rparr>)"
        by (rule gen) (use pipes_okD(1,5) [OF pp] ne in \<open>auto split: if_splits\<close>)
      moreover have "files_ok (\<lambda>g. X g - (if g = f then 1 else 0)) (?st\<lparr>sy_pipes := (sy_pipes st)(?q := None)\<rparr>)"
        using files by (simp add: files_ok_def used_def slots_def)
      ultimately show ?thesis
        using True p one by (simp add: fops_destroy_def putref_pipe_def fd_inv_def)
    next
      case False
      then have more: "1 < p_refs p" using refs(2) by simp
      have "pipes_ok R W Z (?st\<lparr>sy_pipes := (sy_pipes st)(?q \<mapsto> p\<lparr>p_refs := p_refs p - 1\<rparr>)\<rparr>)"
        by (rule gen) (use pipes_okD(1,5) [OF pp] p more in \<open>auto split: if_splits\<close>)
      moreover have "files_ok (\<lambda>g. X g - (if g = f then 1 else 0)) (?st\<lparr>sy_pipes := (sy_pipes st)(?q \<mapsto> p\<lparr>p_refs := p_refs p - 1\<rparr>)\<rparr>)"
        using files by (simp add: files_ok_def used_def slots_def)
      ultimately show ?thesis
        using True p False refs(2) by (simp add: fops_destroy_def putref_pipe_def fd_inv_def set_pipe_def)
    qed
  qed
qed

lemma putref_file_inv:
  assumes "fd_inv X R W Z st" "sy_files st f = Some r" "0 < X f"
  shows "\<exists>st'. putref_file C f st = Some st' \<and>
    fd_inv (\<lambda>g. X g - (if g = f then 1 else 0)) R W Z st' \<and> sy_table st' = sy_table st \<and>
    sy_links st' = sy_links st \<and> (\<forall>g. g \<noteq> f \<longrightarrow> sy_files st' g = sy_files st g) \<and>
    (f_refs r \<noteq> 1 \<longrightarrow> sy_files st' f = Some (r\<lparr>f_refs := f_refs r - 1\<rparr>)) \<and>
    (f_refs r = 1 \<longrightarrow> sy_files st' f = None)"
proof -
  have fo: "files_ok X st" using assms(1) by (auto simp: fd_inv_def)
  have refs: "f_refs r = slots (\<lambda>g. g = f) st + X f" "0 < f_refs r"
    using files_okD(5,6) [OF fo assms(2)] by simp_all
  show ?thesis
  proof (cases "f_refs r = 1")
    case True
    then have s: "slots (\<lambda>g. g = f) st = 0" "X f = 1"
      using refs(1) assms(3) slots_nonneg [of "\<lambda>g. g = f" st] by linarith+
    show ?thesis
      using drop_file_inv [OF assms(1,2) s, of C] True assms(2)
      by (auto simp: putref_file_def file_put_def dirent_put_def)
  next
    case False
    have "fd_inv (\<lambda>g. X g + (if g = f then - 1 else 0)) R W Z (set_file f (r\<lparr>f_refs := f_refs r - 1\<rparr>) st)"
      by (rule set_file_inv [OF assms(1,2)]) (use False refs in simp_all)
    moreover have "(\<lambda>g. X g + (if g = f then - 1 else 0)) = (\<lambda>g. X g - (if g = f then 1 else 0))" by auto
    ultimately show ?thesis
      using False refs(2) assms(2) by (simp add: putref_file_def) (simp add: set_file_def)
  qed
qed

lemma file_close_inv:
  assumes "fd_inv X R W Z st" "sy_files st f = Some r" "0 < X f"
    "\<And>q. 0 \<le> R q - of_bool (rd_end q st f)" "\<And>q. 0 \<le> W q - of_bool (wr_end q st f)"
  shows "\<exists>st'. file_close C f st = Some st' \<and>
    fd_inv (\<lambda>g. X g - (if g = f then 1 else 0)) (\<lambda>q. R q - of_bool (rd_end q st f))
      (\<lambda>q. W q - of_bool (wr_end q st f)) Z st' \<and>
    sy_table st' = sy_table st \<and> sy_links st' = sy_links st \<and> (\<forall>g. g \<noteq> f \<longrightarrow> sy_files st' g = sy_files st g) \<and>
    (sy_files st' f = None \<or> (\<exists>k. sy_files st' f = Some (r\<lparr>f_refs := k\<rparr>)))"
proof -
  have "0 \<le> slots (rd_end q st) st + R q - of_bool (rd_end q st f)"
    "0 \<le> slots (wr_end q st) st + W q - of_bool (wr_end q st f)" for q
    using assms(4,5) [of q] slots_nonneg [of "rd_end q st" st] slots_nonneg [of "wr_end q st" st] by linarith+
  from fops_close_inv [OF assms(1,2) this, of C]
  obtain s1 where s1: "fops_close C r st = Some s1"
    "fd_inv X (\<lambda>q. R q - of_bool (rd_end q st f)) (\<lambda>q. W q - of_bool (wr_end q st f)) Z s1"
    "sy_files s1 = sy_files st" "sy_table s1 = sy_table st" "sy_links s1 = sy_links st" by blast
  from putref_file_inv [OF s1(2), of f r C] s1(3) assms(2,3)
  obtain s2 where "putref_file C f s1 = Some s2"
    "fd_inv (\<lambda>g. X g - (if g = f then 1 else 0)) (\<lambda>q. R q - of_bool (rd_end q st f))
      (\<lambda>q. W q - of_bool (wr_end q st f)) Z s2"
    "sy_table s2 = sy_table s1" "sy_links s2 = sy_links s1" "\<forall>g. g \<noteq> f \<longrightarrow> sy_files s2 g = sy_files s1 g"
    "sy_files s2 f = None \<or> (\<exists>k. sy_files s2 f = Some (r\<lparr>f_refs := k\<rparr>))" by (cases "f_refs r = 1") auto
  then show ?thesis using s1 assms(2) by (simp add: file_close_def)
qed

text \<open>Entering a file into a slot.\<close>

lemma fd_inv_X:
  assumes "fd_inv X R W Z st" "\<And>g. 0 < g \<Longrightarrow> X' g = X g" "\<And>q. R' q = R q" "\<And>q. W' q = W q"
  shows "fd_inv X' R' W' Z st"
proof -
  have "R' = R" "W' = W" using assms(3,4) by auto
  moreover have "files_ok X' st"
    using assms(1,2) files_okD(4) [of X st] unfolding fd_inv_def files_ok_def by metis
  ultimately show ?thesis using assms(1) by (simp add: fd_inv_def)
qed

lemma end_cong:
  assumes "sy_files st f = Some r" "sy_files st' f = Some r'" "f_ops r' = f_ops r" "f_devdata r' = f_devdata r"
    "f_flags r' = f_flags r"
  shows "rd_end q st' f = rd_end q st f" "wr_end q st' f = wr_end q st f"
  using assms by (simp_all add: rd_end_def wr_end_def)

lemma install_inv:
  fixes p i :: nat
  assumes "fd_inv X R W Z st" "sy_files st f = Some r" "fd_file d = f"
  defines "old \<equiv> fd_file (sy_table st (p, i))"
  shows "\<exists>s1 r1 s3. getref_file f st = Some s1 \<and> sy_table s1 = sy_table st \<and> sy_links s1 = sy_links st \<and>
    sy_files (set_slot p i d s1) f = Some r1 \<and> fops_open C r1 (set_slot p i d s1) = Some s3 \<and>
    fd_inv (\<lambda>g. X g + of_bool (g = old)) (\<lambda>q. R q + of_bool (rd_end q st old)) (\<lambda>q. W q + of_bool (wr_end q st old)) Z s3 \<and>
    sy_table s3 = (sy_table st)((p, i) := d) \<and> sy_links s3 = sy_links st \<and>
    sy_files s3 = (sy_files st)(f \<mapsto> r\<lparr>f_refs := f_refs r + 1\<rparr>)"
proof -
  obtain s1 where s1: "getref_file f st = Some s1" "s1 = set_file f (r\<lparr>f_refs := f_refs r + 1\<rparr>) st"
    "fd_inv (\<lambda>g. X g + (if g = f then 1 else 0)) R W Z s1"
    using getref_file_inv [OF assms(1,2)] by blast
  let ?s2 = "set_slot p i d s1"
  have t1: "sy_table s1 = sy_table st" "sy_links s1 = sy_links st"
    "sy_files s1 = (sy_files st)(f \<mapsto> r\<lparr>f_refs := f_refs r + 1\<rparr>)"
    using s1(2) by (simp_all add: set_file_def)
  have ends: "rd_end q s1 = rd_end q st" "wr_end q s1 = wr_end q st" for q
    using same_ends(1,2) [OF assms(2), of "r\<lparr>f_refs := f_refs r + 1\<rparr>"] s1(2) by simp_all
  have "fd_file d \<noteq> NULL \<longrightarrow> sy_files s1 (fd_file d) \<noteq> None" using assms(3) t1(3) by simp
  from set_slot_inv [OF s1(3) this, of p i]
  have s2: "fd_inv (\<lambda>g. X g + (if g = f then 1 else 0) + of_bool (g = old) - of_bool (g = f))
      (\<lambda>q. R q + of_bool (rd_end q st old) - of_bool (rd_end q st f))
      (\<lambda>q. W q + of_bool (wr_end q st old) - of_bool (wr_end q st f)) Z ?s2"
    unfolding t1 ends old_def assms(3) .
  have f2: "sy_files ?s2 f = Some (r\<lparr>f_refs := f_refs r + 1\<rparr>)" "sy_files ?s2 = sy_files s1"
    using t1(3) by (simp_all add: set_slot_def)
  have ends2: "rd_end q ?s2 f = rd_end q st f" "wr_end q ?s2 f = wr_end q st f" for q
    by (rule end_cong [OF assms(2) f2(1)]; simp)+
  from fops_open_inv [OF s2 f2(1), of C, unfolded ends2] obtain s3 where
    s3: "fops_open C (r\<lparr>f_refs := f_refs r + 1\<rparr>) ?s2 = Some s3"
    "fd_inv (\<lambda>g. X g + (if g = f then 1 else 0) + of_bool (g = old) - of_bool (g = f))
      (\<lambda>q. R q + of_bool (rd_end q st old) - of_bool (rd_end q st f) + of_bool (rd_end q st f))
      (\<lambda>q. W q + of_bool (wr_end q st old) - of_bool (wr_end q st f) + of_bool (wr_end q st f)) Z s3"
    "sy_files s3 = sy_files ?s2" "sy_table s3 = sy_table ?s2" "sy_links s3 = sy_links ?s2" by blast
  have inv3: "fd_inv (\<lambda>g. X g + of_bool (g = old)) (\<lambda>q. R q + of_bool (rd_end q st old))
      (\<lambda>q. W q + of_bool (wr_end q st old)) Z s3"
    by (rule fd_inv_X [OF s3(2)]) auto
  have "sy_table s3 = (sy_table st)((p, i) := d)" "sy_links s3 = sy_links st"
    using s3(4,5) t1 by (simp_all add: set_slot_def)
  moreover have "sy_files s3 = (sy_files st)(f \<mapsto> r\<lparr>f_refs := f_refs r + 1\<rparr>)"
    using s3(3) f2(2) t1(3) by simp
  ultimately show ?thesis using s1(1) t1(1,2) f2(1) s3(1) inv3 by blast
qed

section \<open>The calls keep the invariant\<close>

definition links_ok :: "'w system \<Rightarrow> bool" where
  "links_ok st \<longleftrightarrow> (\<forall>p i. sy_links st (p, i) \<noteq> None \<longleftrightarrow> p \<noteq> 0 \<and> fd_file (sy_table st (p, i)) \<noteq> NULL)"

definition fd_ok :: "(ptr \<Rightarrow> int) \<Rightarrow> 'w system \<Rightarrow> bool" where
  "fd_ok Z st \<longleftrightarrow> fd_inv (\<lambda>_. 0) (\<lambda>_. 0) (\<lambda>_. 0) Z st \<and> links_ok st"

lemma process_get_file_cases:
  assumes "fd_inv X R W Z st"
  obtains (none) "process_get_file p fd st = Some (NULL, st)"
  | (live) f r st1 where "process_get_file p fd st = Some (f, st1)" "f \<noteq> NULL" "0 \<le> fd" "fd < int MAX_FD"
      "f = fd_file (sy_table st (p, nat fd))" "sy_files st f = Some r"
      "st1 = set_file f (r\<lparr>f_refs := f_refs r + 1\<rparr>) st"
      "fd_inv (\<lambda>g. X g + (if g = f then 1 else 0)) R W Z st1"
proof (cases "fd \<ge> int MAX_FD \<or> fd < 0 \<or> fd_file (sy_table st (p, nat fd)) = NULL")
  case True
  then show ?thesis using none by (auto simp: process_get_file_def Let_def)
next
  case False
  let ?f = "fd_file (sy_table st (p, nat fd))"
  have "files_ok X st" using assms by (simp add: fd_inv_def)
  from files_okD(3) [OF this, of "(p, nat fd)"] False
  obtain r where r: "sy_files st ?f = Some r" by (auto simp: used_def)
  obtain s1 where s1: "getref_file ?f st = Some s1" "s1 = set_file ?f (r\<lparr>f_refs := f_refs r + 1\<rparr>) st"
    "fd_inv (\<lambda>g. X g + (if g = ?f then 1 else 0)) R W Z s1"
    using getref_file_inv [OF assms r] by blast
  show ?thesis
    by (rule live [OF _ _ _ _ refl r s1(2,3)]) (use False s1(1) in \<open>auto simp: process_get_file_def Let_def\<close>)
qed

lemma process_allocate_fd_cases:
  assumes "fd_inv X R W Z st" "sy_files st f = Some r"
  obtains (full) e where "process_allocate_fd C p f start st = Some (e, st)" "e < 0"
  | (slot) i st1 where "process_allocate_fd C p f start st = Some (int i, st1)" "i < MAX_FD"
      "fd_file (sy_table st (p, i)) = NULL" "fd_inv X R W Z st1"
      "sy_table st1 = (sy_table st)((p, i) := \<lparr>fd_file = f, fd_flags = 0\<rparr>)" "sy_links st1 = sy_links st"
      "sy_files st1 = (sy_files st)(f \<mapsto> r\<lparr>f_refs := f_refs r + 1\<rparr>)"
proof (cases "start < 0 \<or> free_fd p (nat start) st = None")
  case True
  show ?thesis
  proof (cases "start < 0")
    case True then show ?thesis using full [of "- EINVAL"] by (simp add: process_allocate_fd_def EINVAL_def)
  next
    case False
    with True show ?thesis using full [of "- EMFILE"] by (simp add: process_allocate_fd_def EMFILE_def)
  qed
next
  case False
  then obtain i where i: "free_fd p (nat start) st = Some i" by auto
  then have empty: "fd_file (sy_table st (p, i)) = NULL" and lt: "i < MAX_FD"
    by (auto simp: free_fd_def find_Some_iff)
  have fo: "files_ok X st" using assms(1) by (simp add: fd_inv_def)
  let ?d = "\<lparr>fd_file = f, fd_flags = 0\<rparr>"
  have d: "fd_file ?d = f" by simp
  from install_inv [OF assms d, of p i C] obtain s1 r1 s3 where
    s: "getref_file f st = Some s1" "sy_files (set_slot p i ?d s1) f = Some r1"
    "fops_open C r1 (set_slot p i ?d s1) = Some s3"
    "fd_inv (\<lambda>g. X g + of_bool (g = NULL)) (\<lambda>q. R q + of_bool (rd_end q st NULL)) (\<lambda>q. W q + of_bool (wr_end q st NULL)) Z s3"
    "sy_table s3 = (sy_table st)((p, i) := ?d)" "sy_links s3 = sy_links st"
    "sy_files s3 = (sy_files st)(f \<mapsto> r\<lparr>f_refs := f_refs r + 1\<rparr>)"
    unfolding empty by blast
  have "fd_inv X R W Z s3"
    by (rule fd_inv_X [OF s(4)]) (use ends_null [OF fo] in auto)
  moreover have "process_allocate_fd C p f start st = Some (int i, s3)"
    using False i s(1,2,3) by (simp add: process_allocate_fd_def)
  ultimately show ?thesis using slot lt empty s(5,6,7) by blast
qed

lemma links_copy:
  assumes "links_ok st" "sy_table s1 = (sy_table st)((p, j) := d)" "sy_links s1 = sy_links st"
    "fd_file d \<noteq> NULL" "fd_file (sy_table st (p, i)) \<noteq> NULL" "fd_file (sy_table st (p, j)) = NULL"
  shows "\<exists>s2. process_copy_proc_fd p p i j s1 = Some s2 \<and> sy_table s2 = sy_table s1 \<and> sy_files s2 = sy_files s1 \<and>
    links_ok s2 \<and> (\<forall>X R W Z. fd_inv X R W Z s2 = fd_inv X R W Z s1)"
proof (cases "p = 0")
  case True
  have "links_ok s1" using assms True by (auto simp: links_ok_def)
  then show ?thesis using True by (simp add: process_copy_proc_fd_def)
next
  case False
  obtain l where l: "sy_links st (p, i) = Some l" using assms(1,5) False unfolding links_ok_def by blast
  have n: "sy_links st (p, j) = None" using assms(1,6) unfolding links_ok_def by blast
  have "links_ok (s1\<lparr>sy_links := (sy_links s1)((p, j) \<mapsto> l)\<rparr>)"
    using assms False unfolding links_ok_def by auto
  then show ?thesis using False l n assms(3) by (simp add: process_copy_proc_fd_def)
qed

lemma sys_dup_ok:
  assumes "fd_ok Z st"
  shows "\<exists>n st'. sys_dup C p old st = Some (n, st') \<and> fd_ok Z st'"
proof -
  have inv: "fd_inv (\<lambda>_. 0) (\<lambda>_. 0) (\<lambda>_. 0) Z st" and lk: "links_ok st" using assms by (auto simp: fd_ok_def)
  from inv show ?thesis
  proof (cases rule: process_get_file_cases [of _ _ _ _ _ p old])
    case none then show ?thesis using assms by (simp add: sys_dup_def)
  next
    case (live f r s1)
    have f1: "sy_files s1 f = Some (r\<lparr>f_refs := f_refs r + 1\<rparr>)" "sy_table s1 = sy_table st" "sy_links s1 = sy_links st"
      using live(7) by (simp_all add: set_file_def)
    have lk1: "links_ok s1" using lk f1 by (simp add: links_ok_def)
    from live(8) f1(1) show ?thesis
    proof (cases rule: process_allocate_fd_cases [of _ _ _ _ _ _ _ C p 0])
      case (full e)
      obtain s2 where s2: "putref_file C f s1 = Some s2" "sy_table s2 = sy_table s1" "sy_links s2 = sy_links s1"
        "fd_inv (\<lambda>g. 0 + (if g = f then 1 else 0) - (if g = f then 1 else 0)) (\<lambda>_. 0) (\<lambda>_. 0) Z s2"
        using putref_file_inv [OF live(8) f1(1), of C] by auto
      have "fd_ok Z s2"
        using fd_inv_X [OF s2(4)] lk1 s2(2,3) by (simp add: fd_ok_def links_ok_def)
      then show ?thesis using live(1,2) full s2(1) by (simp add: sys_dup_def)
    next
      case (slot i s2)
      obtain s3 where s3: "process_copy_proc_fd p p (nat old) i s2 = Some s3" "sy_table s3 = sy_table s2"
        "sy_files s3 = sy_files s2" "links_ok s3" "\<And>X R W Z. fd_inv X R W Z s3 = fd_inv X R W Z s2"
        using links_copy [OF lk1 slot(5,6), of "nat old"] live(2,5) f1(2) slot(3) by auto
      have inv3: "fd_inv (\<lambda>g. 0 + (if g = f then 1 else 0)) (\<lambda>_. 0) (\<lambda>_. 0) Z s3" using slot(4) s3(5) by simp
      obtain r3 where r3: "sy_files s3 f = Some r3" using s3(3) slot(7) by simp
      obtain s4 where s4: "putref_file C f s3 = Some s4" "sy_table s4 = sy_table s3" "sy_links s4 = sy_links s3"
        "fd_inv (\<lambda>g. 0 + (if g = f then 1 else 0) - (if g = f then 1 else 0)) (\<lambda>_. 0) (\<lambda>_. 0) Z s4"
        using putref_file_inv [OF inv3 r3, of C] by auto
      have "fd_ok Z s4" using fd_inv_X [OF s4(4)] s3(4) s4(2,3) by (simp add: fd_ok_def links_ok_def)
      then show ?thesis using live(1,2) slot(1) s3(1) s4(1) by (simp add: sys_dup_def)
    qed
  qed
qed

text \<open>Clearing a slot: its reference and its \<open>close\<close> are then owed.\<close>

lemma clear_slot_inv:
  assumes "fd_inv X R W Z st" "fd_file d = NULL"
  shows "fd_inv (\<lambda>g. X g + of_bool (g = fd_file (sy_table st (p, i))))
    (\<lambda>q. R q + of_bool (rd_end q st (fd_file (sy_table st (p, i)))))
    (\<lambda>q. W q + of_bool (wr_end q st (fd_file (sy_table st (p, i))))) Z (set_slot p i d st)"
proof -
  have "files_ok X st" using assms(1) by (simp add: fd_inv_def)
  note n = ends_null [OF this]
  have "fd_file d \<noteq> NULL \<longrightarrow> sy_files st (fd_file d) \<noteq> None" using assms(2) by simp
  from set_slot_inv [OF assms(1) this, of p i] show ?thesis
    by (rule fd_inv_X) (use assms(2) n in auto)
qed

lemma links_remove:
  assumes "links_ok st" "sy_table s1 = (sy_table st)((p, i) := d)" "sy_links s1 = sy_links st"
    "fd_file d = NULL" "fd_file (sy_table st (p, i)) \<noteq> NULL"
  shows "\<exists>s2. process_remove_proc_fd p i s1 = Some s2 \<and> sy_table s2 = sy_table s1 \<and> sy_files s2 = sy_files s1 \<and>
    links_ok s2 \<and> (\<forall>X R W Z. fd_inv X R W Z s2 = fd_inv X R W Z s1) \<and>
    (\<forall>q. rd_end q s2 = rd_end q s1 \<and> wr_end q s2 = wr_end q s1)"
proof (cases "p = 0")
  case True
  have "links_ok s1" using assms True by (auto simp: links_ok_def)
  then show ?thesis using True by (simp add: process_remove_proc_fd_def)
next
  case False
  obtain l where l: "sy_links st (p, i) = Some l" using assms(1,5) False unfolding links_ok_def by blast
  have "links_ok (s1\<lparr>sy_links := (sy_links s1)((p, i) := None)\<rparr>)"
    using assms False unfolding links_ok_def by auto
  moreover have "rd_end q (s1\<lparr>sy_links := (sy_links s1)((p, i) := None)\<rparr>) = rd_end q s1"
    "wr_end q (s1\<lparr>sy_links := (sy_links s1)((p, i) := None)\<rparr>) = wr_end q s1" for q
    by (rule ext, simp add: rd_end_def wr_end_def)+
  ultimately show ?thesis
    using False l assms(3) by (simp add: process_remove_proc_fd_def)
qed

lemma sys_close_ok:
  assumes "fd_ok Z st"
  shows "\<exists>n st'. sys_close C p fd st = Some (n, st') \<and> fd_ok Z st'"
proof -
  have inv: "fd_inv (\<lambda>_. 0) (\<lambda>_. 0) (\<lambda>_. 0) Z st" and lk: "links_ok st" using assms by (auto simp: fd_ok_def)
  from inv show ?thesis
  proof (cases rule: process_get_file_cases [of _ _ _ _ _ p fd])
    case none then show ?thesis using assms by (simp add: sys_close_def)
  next
    case (live f r s1)
    let ?i = "nat fd"
    let ?d = "(sy_table s1 (p, ?i))\<lparr>fd_file := NULL\<rparr>"
    have f1: "sy_files s1 f = Some (r\<lparr>f_refs := f_refs r + 1\<rparr>)" "sy_table s1 = sy_table st" "sy_links s1 = sy_links st"
      using live(7) by (simp_all add: set_file_def)
    have lk1: "links_ok s1" using lk f1 by (simp add: links_ok_def)
    have d: "fd_file ?d = NULL" by simp
    have at: "fd_file (sy_table s1 (p, ?i)) = f" using f1(2) live(5) by simp
    note i2 = clear_slot_inv [OF live(8) d, of p ?i, unfolded at]
    let ?s2 = "set_slot p ?i ?d s1"
    have f2: "sy_files ?s2 f = Some (r\<lparr>f_refs := f_refs r + 1\<rparr>)" "sy_table ?s2 = (sy_table s1)((p, ?i) := ?d)"
      "sy_links ?s2 = sy_links s1" using f1(1) by (simp_all add: set_slot_def)
    have refs: "f_refs r + 1 = slots (\<lambda>g. g = f) ?s2 + 2"
      using files_okD(5) [of _ ?s2 f "r\<lparr>f_refs := f_refs r + 1\<rparr>"] i2 f2(1) by (fastforce simp: fd_inv_def)
    then have "f_refs r + 1 \<noteq> 1" using slots_nonneg [of "\<lambda>g. g = f" ?s2] by linarith
    then have r1: "f_refs (r\<lparr>f_refs := f_refs r + 1\<rparr>) \<noteq> 1" by simp
    from putref_file_inv [OF i2 f2(1), of C] r1 obtain s3 where s3: "putref_file C f ?s2 = Some s3"
      "sy_table s3 = sy_table ?s2" "sy_links s3 = sy_links ?s2" "sy_files s3 f = Some (r\<lparr>f_refs := f_refs r\<rparr>)"
      "fd_inv (\<lambda>g. 0 + (if g = f then 1 else 0) + of_bool (g = f) - (if g = f then 1 else 0))
        (\<lambda>q. 0 + of_bool (rd_end q s1 f)) (\<lambda>q. 0 + of_bool (wr_end q s1 f)) Z s3"
      by auto
    have t3: "sy_table s3 = (sy_table s1)((p, ?i) := ?d)" "sy_links s3 = sy_links s1" using s3(2,3) f2 by simp_all
    from links_remove [OF lk1 t3 d] at live(2) obtain s4 where s4: "process_remove_proc_fd p ?i s3 = Some s4"
      "sy_table s4 = sy_table s3" "sy_files s4 = sy_files s3" "links_ok s4"
      "\<And>X R W Z. fd_inv X R W Z s4 = fd_inv X R W Z s3" by auto
    have f4: "sy_files s4 f = Some (r\<lparr>f_refs := f_refs r\<rparr>)" using s4(3) s3(4) by simp
    have e4: "rd_end q s4 f = rd_end q s1 f" "wr_end q s4 f = wr_end q s1 f" for q
      by (rule end_cong [OF f1(1) f4]; simp)+
    note i4 = s3(5) [folded s4(5)]
    have "0 \<le> 0 + of_bool (rd_end q s1 f) - (of_bool (rd_end q s4 f) :: int)"
      "0 \<le> 0 + of_bool (wr_end q s1 f) - (of_bool (wr_end q s4 f) :: int)" for q by (simp_all add: e4)
    from file_close_inv [OF i4 f4 _ this, of C] obtain s5 where s5: "file_close C f s4 = Some s5"
      "sy_table s5 = sy_table s4" "sy_links s5 = sy_links s4"
      "fd_inv (\<lambda>g. 0 + (if g = f then 1 else 0) + of_bool (g = f) - (if g = f then 1 else 0) - (if g = f then 1 else 0))
        (\<lambda>q. 0 + of_bool (rd_end q s1 f) - of_bool (rd_end q s4 f)) (\<lambda>q. 0 + of_bool (wr_end q s1 f) - of_bool (wr_end q s4 f)) Z s5"
      by auto
    have "fd_ok Z s5"
      using fd_inv_X [OF s5(4), of "\<lambda>_. 0" "\<lambda>_. 0" "\<lambda>_. 0"] e4 s4(4) s5(2,3) by (simp add: fd_ok_def links_ok_def)
    moreover have "process_release_fd C p ?i s1 = Some s4"
      using at s3(1) s4(1) by (simp add: process_release_fd_def)
    ultimately show ?thesis using live(1,2) s5(1) by (simp add: sys_close_def)
  qed
qed

lemma sys_dup2_ok:
  assumes "fd_ok Z st" "old \<noteq> new" "0 \<le> new" "new < int MAX_FD"
  shows "\<exists>n st'. sys_dup2 C p old new st = Some (n, st') \<and> fd_ok Z st'"
proof -
  have inv: "fd_inv (\<lambda>_. 0) (\<lambda>_. 0) (\<lambda>_. 0) Z st" and lk: "links_ok st" using assms by (auto simp: fd_ok_def)
  from inv show ?thesis
  proof (cases rule: process_get_file_cases [of _ _ _ _ _ p old])
    case none then show ?thesis using assms by (simp add: sys_dup2_def)
  next
    case (live f r s1)
    let ?i = "nat new"
    let ?r1 = "r\<lparr>f_refs := f_refs r + 1\<rparr>"
    have f1: "sy_files s1 f = Some ?r1" "sy_table s1 = sy_table st" "sy_links s1 = sy_links st"
      using live(7) by (simp_all add: set_file_def)
    have lk1: "links_ok s1" using lk f1 by (simp add: links_ok_def)
    define prev where "prev = fd_file (sy_table s1 (p, ?i))"
    let ?d = "(sy_table s1 (p, ?i))\<lparr>fd_file := f\<rparr>"
    have d: "fd_file ?d = f" by simp
    from install_inv [OF live(8) f1(1) d, of p ?i C] obtain t1 r2 s2 where
      i: "getref_file f s1 = Some t1" "sy_table t1 = sy_table s1" "sy_files (set_slot p ?i ?d t1) f = Some r2"
      "fops_open C r2 (set_slot p ?i ?d t1) = Some s2"
      "fd_inv (\<lambda>g. 0 + (if g = f then 1 else 0) + of_bool (g = prev)) (\<lambda>q. 0 + of_bool (rd_end q s1 prev))
        (\<lambda>q. 0 + of_bool (wr_end q s1 prev)) Z s2"
      "sy_table s2 = (sy_table s1)((p, ?i) := ?d)" "sy_links s2 = sy_links s1"
      "sy_files s2 = (sy_files s1)(f \<mapsto> ?r1\<lparr>f_refs := f_refs ?r1 + 1\<rparr>)"
      unfolding prev_def by blast
    have ex: "process_exchange_fd C p f new s1 = Some (prev, s2)"
      using assms(3,4) i(1,2,3,4) by (simp add: process_exchange_fd_def prev_def)
    have f2: "sy_files s2 f = Some (?r1\<lparr>f_refs := f_refs ?r1 + 1\<rparr>)" using i(8) by simp
    have pos: "0 < f_refs r" using files_okD(6) [of "\<lambda>_. 0" st f r] inv live(6) by (simp add: fd_inv_def)
    have xp: "0 < 0 + (if f = f then 1 else (0 :: int)) + of_bool (f = prev)" by simp
    have "f_refs (?r1\<lparr>f_refs := f_refs ?r1 + 1\<rparr>) \<noteq> 1" using pos by simp
    with putref_file_inv [OF i(5) f2 xp, of C] obtain s3 where s3: "putref_file C f s2 = Some s3"
      "sy_table s3 = sy_table s2" "sy_links s3 = sy_links s2"
      "\<exists>k. sy_files s3 f = Some (?r1\<lparr>f_refs := k\<rparr>)" "\<And>g. g \<noteq> f \<Longrightarrow> sy_files s3 g = sy_files s2 g"
      "fd_inv (\<lambda>g. 0 + (if g = f then 1 else 0) + of_bool (g = prev) - (if g = f then 1 else 0))
        (\<lambda>q. 0 + of_bool (rd_end q s1 prev)) (\<lambda>q. 0 + of_bool (wr_end q s1 prev)) Z s3" by auto
    obtain k where k: "sy_files s3 f = Some (?r1\<lparr>f_refs := k\<rparr>)" using s3(4) by blast
    have t3: "sy_table s3 = (sy_table s1)((p, ?i) := ?d)" "sy_links s3 = sy_links s1"
      using s3(2,3) i(6,7) by simp_all
    have src: "fd_file (sy_table s1 (p, nat old)) = f" "nat old \<noteq> ?i"
      using live(3,5) f1(2) assms(2,3) by auto
    have fo1: "files_ok (\<lambda>g. 0 + (if g = f then 1 else 0)) s1" using live(8) by (simp add: fd_inv_def)
    show ?thesis
    proof (cases "prev = NULL")
      case True
      obtain s4 where s4: "process_copy_proc_fd p p (nat old) ?i s3 = Some s4" "links_ok s4"
        "\<And>X R W Z. fd_inv X R W Z s4 = fd_inv X R W Z s3"
        using links_copy [OF lk1 t3, of "nat old"] live(2) src True prev_def by auto
      have "fd_inv (\<lambda>_. 0) (\<lambda>_. 0) (\<lambda>_. 0) Z s3"
        by (rule fd_inv_X [OF s3(6)]) (use True ends_null [OF fo1] in auto)
      then have "fd_ok Z s4" using s4(2,3) by (simp add: fd_ok_def)
      then show ?thesis
        using live(1,2) assms(3,4) ex s3(1) s4(1) True by (simp add: sys_dup2_def)
    next
      case False
      have "(p, ?i) \<in> used s1" using False by (simp add: used_def prev_def)
      then obtain rp where rp: "sy_files s1 prev = Some rp" using files_okD(3) [OF fo1] prev_def by blast
      obtain rp3 where rp3: "sy_files s3 prev = Some rp3" "f_ops rp3 = f_ops rp" "f_devdata rp3 = f_devdata rp"
        "f_flags rp3 = f_flags rp"
      proof (cases "prev = f")
        case True then show ?thesis using that k rp f1(1) by auto
      next
        case False
        then have "sy_files s3 prev = Some rp" using s3(5) i(8) rp by simp
        then show ?thesis using that by simp
      qed
      obtain s4 where s4: "process_remove_proc_fd p ?i s3 = Some s4" "sy_table s4 = sy_table s3"
        "sy_files s4 = sy_files s3" "\<And>X R W Z. fd_inv X R W Z s4 = fd_inv X R W Z s3"
        "sy_links s4 = (if p = 0 then sy_links s1 else (sy_links s1)((p, ?i) := None))"
      proof (cases "p = 0")
        case True
        then have "process_remove_proc_fd p ?i s3 = Some s3" by (simp add: process_remove_proc_fd_def)
        then show ?thesis using that t3(2) True by simp
      next
        case p: False
        have "sy_links s1 (p, ?i) \<noteq> None" using lk1 p False by (simp add: links_ok_def prev_def)
        then have "process_remove_proc_fd p ?i s3 = Some (s3\<lparr>sy_links := (sy_links s3)((p, ?i) := None)\<rparr>)"
          using p t3(2) by (simp add: process_remove_proc_fd_def)
        then show ?thesis using that t3(2) p by simp
      qed
      note i4 = s3(6) [folded s4(4)]
      have f4: "sy_files s4 prev = Some rp3" using s4(3) rp3(1) by simp
      have e4: "rd_end q s4 prev = rd_end q s1 prev" "wr_end q s4 prev = wr_end q s1 prev" for q
        by (rule end_cong [OF rp f4]; simp add: rp3)+
      have "0 \<le> 0 + of_bool (rd_end q s1 prev) - (of_bool (rd_end q s4 prev) :: int)"
        "0 \<le> 0 + of_bool (wr_end q s1 prev) - (of_bool (wr_end q s4 prev) :: int)" for q by (simp_all add: e4)
      from file_close_inv [OF i4 f4 _ this, of C] obtain s5 where s5: "file_close C prev s4 = Some s5"
        "sy_table s5 = sy_table s4" "sy_links s5 = sy_links s4"
        "fd_inv (\<lambda>g. 0 + (if g = f then 1 else 0) + of_bool (g = prev) - (if g = f then 1 else 0) - (if g = prev then 1 else 0))
          (\<lambda>q. 0 + of_bool (rd_end q s1 prev) - of_bool (rd_end q s4 prev)) (\<lambda>q. 0 + of_bool (wr_end q s1 prev) - of_bool (wr_end q s4 prev)) Z s5"
        by auto
      have inv5: "fd_inv (\<lambda>_. 0) (\<lambda>_. 0) (\<lambda>_. 0) Z s5"
        by (rule fd_inv_X [OF s5(4)]) (auto simp: e4)
      let ?base = "s1\<lparr>sy_table := (sy_table s1)((p, ?i) := ?d\<lparr>fd_file := NULL\<rparr>), sy_links := sy_links s5\<rparr>"
      have lkb: "links_ok ?base"
        using lk1 s5(3) s4(5) by (auto simp: links_ok_def)
      have t5: "sy_table s5 = (sy_table ?base)((p, ?i) := ?d)" "sy_links s5 = sy_links ?base"
        using s5(2) s4(2) t3(1) by simp_all
      obtain s6 where s6: "process_copy_proc_fd p p (nat old) ?i s5 = Some s6" "links_ok s6"
        "\<And>X R W Z. fd_inv X R W Z s6 = fd_inv X R W Z s5"
        using links_copy [OF lkb t5, of "nat old"] live(2) src by auto
      have "fd_ok Z s6" using inv5 s6(2,3) by (simp add: fd_ok_def)
      then show ?thesis
        using live(1,2) assms(3,4) ex s3(1) s4(1) s5(1) s6(1) False by (simp add: sys_dup2_def)
    qed
  qed
qed

text \<open>Changes of a file or a slot that move no reference.\<close>

lemma setfl_bits:
  fixes a fl :: u32
  shows "((a AND NOT (F_READ OR F_WRITE)) OR (fl AND (F_READ OR F_WRITE))) AND F_READ = fl AND F_READ"
    "((a AND NOT (F_READ OR F_WRITE)) OR (fl AND (F_READ OR F_WRITE))) AND F_WRITE = fl AND F_WRITE"
    "(a AND NOT F_READ AND NOT F_WRITE OR fl AND (F_READ OR F_WRITE)) AND F_READ = fl AND F_READ"
    "(a AND NOT F_READ AND NOT F_WRITE OR fl AND (F_READ OR F_WRITE)) AND F_WRITE = fl AND F_WRITE"
  by (rule bit_word_eqI; auto simp: F_READ_def F_WRITE_def bit_simps)+

lemma sys_fcntl_ok:
  assumes "fd_ok Z st"
  shows "\<exists>n st'. sys_fcntl C p fd cmd arg st = Some (n, st') \<and> fd_ok Z st'"
proof -
  have inv: "fd_inv (\<lambda>_. 0) (\<lambda>_. 0) (\<lambda>_. 0) Z st" and lk: "links_ok st" using assms by (auto simp: fd_ok_def)
  from inv show ?thesis
  proof (cases rule: process_get_file_cases [of _ _ _ _ _ p fd])
    case none then show ?thesis using assms by (simp add: sys_fcntl_def)
  next
    case (live f r s1)
    let ?r1 = "r\<lparr>f_refs := f_refs r + 1\<rparr>" and ?X = "\<lambda>g. 0 + (if g = f then 1 else (0 :: int))"
    have f1: "sy_files s1 f = Some ?r1" "sy_table s1 = sy_table st" "sy_links s1 = sy_links st"
      using live(7) by (simp_all add: set_file_def)
    have lk1: "links_ok s1" using lk f1 by (simp add: links_ok_def)
    have fin: "\<exists>s3. putref_file C f s2 = Some s3 \<and> fd_ok Z s3"
      if i2: "fd_inv ?X (\<lambda>_. 0) (\<lambda>_. 0) Z s2" and l2: "links_ok s2" and f2: "sy_files s2 f = Some r2" for s2 r2
    proof -
      obtain s3 where s3: "putref_file C f s2 = Some s3" "sy_table s3 = sy_table s2" "sy_links s3 = sy_links s2"
        "fd_inv (\<lambda>g. ?X g - (if g = f then 1 else 0)) (\<lambda>_. 0) (\<lambda>_. 0) Z s3"
        using putref_file_inv [OF i2 f2, of C] by auto
      have "fd_ok Z s3" using fd_inv_X [OF s3(4), of "\<lambda>_. 0"] l2 s3(2,3) by (simp add: fd_ok_def links_ok_def)
      then show ?thesis using s3(1) by blast
    qed
    have "\<exists>ret s2 r2. (case cmd of
           F_GETFD \<Rightarrow> Some (fd_flags (sy_table s1 (p, nat fd)), s1)
         | F_SETFD \<Rightarrow> Some (0, set_slot p (nat fd) ((sy_table s1 (p, nat fd))\<lparr>fd_flags := arg\<rparr>) s1)
         | F_SETFL \<Rightarrow> Some (0, set_file f (?r1\<lparr>f_flags := (word_of_int arg AND NOT (F_READ OR F_WRITE)) OR
                                     (f_flags ?r1 AND (F_READ OR F_WRITE))\<rparr>) s1)
         | F_GETFL \<Rightarrow> Some (sint (f_flags ?r1), s1)
         | F_DUPFD \<Rightarrow> do {
             (nf, st) \<leftarrow> process_allocate_fd C p f arg s1;
             st \<leftarrow> (if nf \<ge> 0 then process_copy_proc_fd p p (nat fd) (nat nf) st else Some st);
             Some (nf, st) }
         | F_OTHER \<Rightarrow> Some (- EINVAL, s1)
         | _ \<Rightarrow> Some (0, s1)) = Some (ret, s2) \<and> fd_inv ?X (\<lambda>_. 0) (\<lambda>_. 0) Z s2 \<and> links_ok s2 \<and> sy_files s2 f = Some r2"
    proof (cases cmd)
      case F_SETFD
      let ?d = "(sy_table s1 (p, nat fd))\<lparr>fd_flags := arg\<rparr>"
      have "fd_file ?d \<noteq> NULL \<longrightarrow> sy_files s1 (fd_file ?d) \<noteq> None" using f1 live(5) by simp
      from set_slot_inv [OF live(8) this, of p "nat fd"]
      have "fd_inv ?X (\<lambda>_. 0) (\<lambda>_. 0) Z (set_slot p (nat fd) ?d s1)" by (rule fd_inv_X) simp_all
      moreover have "links_ok (set_slot p (nat fd) ?d s1)" using lk1 by (simp add: links_ok_def set_slot_def)
      ultimately show ?thesis using F_SETFD f1(1) by (simp add: set_slot_def)
    next
      case F_SETFL
      let ?r2 = "?r1\<lparr>f_flags := (word_of_int arg AND NOT (F_READ OR F_WRITE)) OR (f_flags ?r1 AND (F_READ OR F_WRITE))\<rparr>"
      have "0 < f_refs r" using files_okD(6) [of "\<lambda>_. 0" st f r] inv live(6) by (simp add: fd_inv_def)
      then have "fd_inv (\<lambda>g. ?X g + (if g = f then 0 else 0)) (\<lambda>_. 0) (\<lambda>_. 0) Z (set_file f ?r2 s1)"
        by (intro set_file_inv [OF live(8) f1(1)]) (simp_all add: setfl_bits)
      then have "fd_inv ?X (\<lambda>_. 0) (\<lambda>_. 0) Z (set_file f ?r2 s1)" by (rule fd_inv_X) simp_all
      moreover have "links_ok (set_file f ?r2 s1)" using lk1 by (simp add: links_ok_def set_file_def)
      ultimately show ?thesis using F_SETFL by (simp add: set_file_def)
    next
      case F_DUPFD
      from live(8) f1(1) show ?thesis
      proof (cases rule: process_allocate_fd_cases [of _ _ _ _ _ _ _ C p arg])
        case (full e)
        then show ?thesis using F_DUPFD live(8) lk1 f1(1) by simp
      next
        case (slot i s2)
        obtain s3 where s3: "process_copy_proc_fd p p (nat fd) i s2 = Some s3"
          "sy_files s3 = sy_files s2" "links_ok s3" "\<And>X R W Z. fd_inv X R W Z s3 = fd_inv X R W Z s2"
          using links_copy [OF lk1 slot(5,6), of "nat fd"] live(2,5) f1(2) slot(3) by auto
        then show ?thesis using F_DUPFD slot(1,4,7) by simp
      qed
    qed (use live(8) lk1 f1(1) in simp_all)
    then show ?thesis using live(1,2) f1(1) fin by (fastforce simp: sys_fcntl_def)
  qed
qed

text \<open>Copying and closing whole tables.\<close>

lemma copy_files_loop_ok:
  assumes "fd_ok Z st" "p \<noteq> q" "p \<noteq> 0" "q \<noteq> 0" "\<forall>i \<in> set is. fd_file (sy_table st (q, i)) = NULL" "distinct is"
  shows "\<exists>st'. copy_files_loop C p q is st = Some st' \<and> fd_ok Z st'"
  using assms
proof (induction "is" arbitrary: st)
  case (Cons i "is")
  let ?f = "fd_file (sy_table st (p, i))"
  show ?case
  proof (cases "?f = NULL")
    case True
    then show ?thesis using Cons.IH [of st] Cons.prems by simp
  next
    case False
    have inv: "fd_inv (\<lambda>_. 0) (\<lambda>_. 0) (\<lambda>_. 0) Z st" and lk: "links_ok st" using Cons.prems(1) by (auto simp: fd_ok_def)
    have fo: "files_ok (\<lambda>_. 0) st" using inv by (simp add: fd_inv_def)
    obtain r where r: "sy_files st ?f = Some r"
      using files_okD(3) [OF fo, of "(p, i)"] False by (auto simp: used_def)
    have empty: "fd_file (sy_table st (q, i)) = NULL" using Cons.prems(5) by simp
    let ?d = "\<lparr>fd_file = ?f, fd_flags = fd_flags (sy_table st (p, i))\<rparr>"
    have d: "fd_file ?d = ?f" by simp
    from install_inv [OF inv r d, of q i C] obtain s1 r1 s3 where
      s: "getref_file ?f st = Some s1" "sy_table s1 = sy_table st" "sy_links s1 = sy_links st"
      "sy_files (set_slot q i ?d s1) ?f = Some r1"
      "fops_open C r1 (set_slot q i ?d s1) = Some s3"
      "fd_inv (\<lambda>g. 0 + of_bool (g = NULL)) (\<lambda>k. 0 + of_bool (rd_end k st NULL)) (\<lambda>k. 0 + of_bool (wr_end k st NULL)) Z s3"
      "sy_table s3 = (sy_table st)((q, i) := ?d)" "sy_links s3 = sy_links st"
      unfolding empty by blast
    have inv3: "fd_inv (\<lambda>_. 0) (\<lambda>_. 0) (\<lambda>_. 0) Z s3"
      by (rule fd_inv_X [OF s(6)]) (use ends_null [OF fo] in auto)
    obtain l where l: "sy_links st (p, i) = Some l" using lk False Cons.prems(3) unfolding links_ok_def by blast
    have n: "sy_links st (q, i) = None" using lk empty unfolding links_ok_def by blast
    define s2 where "s2 = set_slot q i ?d s1"
    have cp: "process_copy_proc_fd p q i i s2 = Some (s2\<lparr>sy_links := (sy_links s2)((q, i) \<mapsto> l)\<rparr>)"
      using Cons.prems(3,4) l n s(3) by (simp add: process_copy_proc_fd_def s2_def set_slot_def)
    have "fops_open C r1 (s2\<lparr>sy_links := m\<rparr>) = map_option (\<lambda>t. t\<lparr>sy_links := m\<rparr>) (fops_open C r1 s2)" for m
      by (auto simp: fops_open_def set_pipe_def bind_eq_Some_conv split: file_ops.split option.split)
        (auto split: Option.bind_splits)
    then have op: "fops_open C r1 (s2\<lparr>sy_links := (sy_links s2)((q, i) \<mapsto> l)\<rparr>) = Some (s3\<lparr>sy_links := (sy_links s2)((q, i) \<mapsto> l)\<rparr>)"
      using s(5) by (simp add: s2_def)
    let ?s4 = "s3\<lparr>sy_links := (sy_links s2)((q, i) \<mapsto> l)\<rparr>"
    have "links_ok ?s4"
      using lk s(3,7) Cons.prems(4) False by (auto simp: links_ok_def s2_def set_slot_def)
    then have ok4: "fd_ok Z ?s4" using inv3 by (simp add: fd_ok_def)
    have "\<forall>j \<in> set is. fd_file (sy_table ?s4 (q, j)) = NULL"
      using Cons.prems(5,6) s(7) by auto
    with Cons.IH [OF ok4 Cons.prems(2,3,4)] Cons.prems(6) obtain st' where
      "copy_files_loop C p q is ?s4 = Some st'" "fd_ok Z st'" by auto
    moreover have "fd_flags (sy_table s1 (p, i)) = fd_flags (sy_table st (p, i))" using s(2) by simp
    ultimately show ?thesis
      using False s(1,4) cp op by (simp add: s2_def [symmetric])
  qed
qed simp

lemma file_close_slot:
  "file_close C f (set_slot p i d st) = map_option (set_slot p i d) (file_close C f st)"
proof -
  have put: "putref_pipe q (set_slot p i d s) = map_option (set_slot p i d) (putref_pipe q s)" for q s
    by (auto simp: putref_pipe_def set_slot_def set_pipe_def split: Option.bind_splits)
  have close: "fops_close C r (set_slot p i d s) = map_option (set_slot p i d) (fops_close C r s)" for r s
    by (cases "f_ops r") (auto simp: fops_close_def set_slot_def set_pipe_def split: Option.bind_splits)
  have destroy: "fops_destroy C r (set_slot p i d s) = map_option (set_slot p i d) (fops_destroy C r s)" for r s
    using put by (cases "f_ops r") (simp_all add: fops_destroy_def, simp_all add: set_slot_def)
  have fput: "file_put C r (set_slot p i d s) = map_option (set_slot p i d) (file_put C r s)" for r s
    unfolding file_put_def destroy
    by (cases "fops_destroy C r s") (simp_all add: dirent_put_def, simp_all add: set_slot_def)
  have files: "sy_files (set_slot p i d s) = sy_files s" for s by (simp add: set_slot_def)
  have drop: "(set_slot p i d s)\<lparr>sy_files := m\<rparr> = set_slot p i d (s\<lparr>sy_files := m\<rparr>)"
    "set_file f r (set_slot p i d s) = set_slot p i d (set_file f r s)" for s m r
    by (simp_all add: set_slot_def set_file_def)
  have putref: "putref_file C f (set_slot p i d s) = map_option (set_slot p i d) (putref_file C f s)" for s
    unfolding putref_file_def files drop fput
    by (cases "sy_files s f") (auto split: Option.bind_splits)
  show ?thesis
    unfolding file_close_def files close
    by (cases "sy_files st f") (auto simp: putref split: Option.bind_splits)
qed

lemma close_files_loop_ok:
  assumes "fd_ok Z st"
  shows "\<exists>st'. close_files_loop C p all is st = Some st' \<and> fd_ok Z st' \<and>
    (\<forall>s. fd_file (sy_table st' s) = NULL \<or> sy_table st' s = sy_table st s) \<and>
    (all \<longrightarrow> (\<forall>i \<in> set is. fd_file (sy_table st' (p, i)) = NULL)) \<and>
    (\<forall>q f. wr_end q st' f \<longrightarrow> wr_end q st f)"
  using assms
proof (induction "is" arbitrary: st)
  case (Cons i "is")
  let ?f = "fd_file (sy_table st (p, i))"
  show ?case
  proof (cases "?f \<noteq> NULL \<and> (and (fd_flags (sy_table st (p, i))) FD_CLOEXEC \<noteq> 0 \<or> all)")
    case False
    then have skip: "close_files_loop C p all (i # is) st = close_files_loop C p all is st" by auto
    obtain st' where st': "close_files_loop C p all is st = Some st'" "fd_ok Z st'"
      "\<forall>s. fd_file (sy_table st' s) = NULL \<or> sy_table st' s = sy_table st s"
      "all \<longrightarrow> (\<forall>i \<in> set is. fd_file (sy_table st' (p, i)) = NULL)" "\<forall>q f. wr_end q st' f \<longrightarrow> wr_end q st f"
      using Cons.IH [OF Cons.prems] by blast
    have "all \<longrightarrow> fd_file (sy_table st' (p, i)) = NULL" using False st'(3) by metis
    then show ?thesis unfolding skip using st' by auto
  next
    case True
    have inv: "fd_inv (\<lambda>_. 0) (\<lambda>_. 0) (\<lambda>_. 0) Z st" and lk: "links_ok st" using Cons.prems by (auto simp: fd_ok_def)
    have fo: "files_ok (\<lambda>_. 0) st" using inv by (simp add: fd_inv_def)
    obtain r where r: "sy_files st ?f = Some r"
      using files_okD(3) [OF fo, of "(p, i)"] True by (auto simp: used_def)
    let ?d = "\<lparr>fd_file = NULL, fd_flags = 0\<rparr>"
    have d: "fd_file ?d = NULL" by simp
    let ?s0 = "set_slot p i ?d st"
    note i0 = clear_slot_inv [OF inv d, of p i]
    have f0: "sy_files ?s0 ?f = Some r" using r by (simp add: set_slot_def)
    have e0: "rd_end q ?s0 ?f = rd_end q st ?f" "wr_end q ?s0 ?f = wr_end q st ?f" for q
      by (rule end_cong [OF r f0]; simp)+
    have "0 \<le> 0 + of_bool (rd_end q st ?f) - (of_bool (rd_end q ?s0 ?f) :: int)"
      "0 \<le> 0 + of_bool (wr_end q st ?f) - (of_bool (wr_end q ?s0 ?f) :: int)" for q by (simp_all add: e0)
    from file_close_inv [OF i0 f0 _ this, of C] obtain t1 where t1: "file_close C ?f ?s0 = Some t1"
      "sy_table t1 = sy_table ?s0" "sy_links t1 = sy_links ?s0"
      "fd_inv (\<lambda>g. 0 + of_bool (g = ?f) - (if g = ?f then 1 else 0))
        (\<lambda>q. 0 + of_bool (rd_end q st ?f) - of_bool (rd_end q ?s0 ?f)) (\<lambda>q. 0 + of_bool (wr_end q st ?f) - of_bool (wr_end q ?s0 ?f)) Z t1"
      "\<forall>g. g \<noteq> ?f \<longrightarrow> sy_files t1 g = sy_files ?s0 g" "sy_files t1 ?f = None \<or> (\<exists>k. sy_files t1 ?f = Some (r\<lparr>f_refs := k\<rparr>))"
      by auto
    obtain s1 where s1: "file_close C ?f st = Some s1" "t1 = set_slot p i ?d s1"
      using t1(1) unfolding file_close_slot by auto
    have l1: "sy_links s1 = sy_links st" using t1(3) s1(2) by (simp add: set_slot_def)
    have tt: "sy_table t1 = (sy_table st)((p, i) := ?d)" using t1(2) by (simp add: set_slot_def)
    define s2 where "s2 = (if p = 0 then s1 else s1\<lparr>sy_links := (sy_links s1)((p, i) := None)\<rparr>)"
    have rm: "process_remove_proc_fd p i s1 = Some s2"
      using lk True l1 by (auto simp: process_remove_proc_fd_def s2_def links_ok_def)
    let ?s3 = "set_slot p i ?d s2"
    have eqs: "sy_files ?s3 = sy_files t1" "sy_pipes ?s3 = sy_pipes t1" "sy_table ?s3 = sy_table t1" "sy_next ?s3 = sy_next t1"
      using s1(2) by (simp_all add: s2_def set_slot_def)
    note cong = fd_inv_cong [OF eqs]
    have "fd_inv (\<lambda>_. 0) (\<lambda>_. 0) (\<lambda>_. 0) Z ?s3"
      unfolding cong by (rule fd_inv_X [OF t1(4)]) (auto simp: e0)
    moreover have "sy_table ?s3 = (sy_table st)((p, i) := ?d)" using tt eqs(3) by simp
    moreover have "sy_links ?s3 = (if p = 0 then sy_links st else (sy_links st)((p, i) := None))"
      using l1 by (simp add: s2_def set_slot_def)
    ultimately have ok3: "fd_ok Z ?s3" and t3: "sy_table ?s3 = (sy_table st)((p, i) := ?d)"
      using lk by (auto simp: fd_ok_def links_ok_def)
    have step: "close_files_loop C p all (i # is) st = close_files_loop C p all is ?s3"
      using True s1(1) rm by simp
    obtain st' where st': "close_files_loop C p all is ?s3 = Some st'" "fd_ok Z st'"
      "\<forall>s. fd_file (sy_table st' s) = NULL \<or> sy_table st' s = sy_table ?s3 s"
      "all \<longrightarrow> (\<forall>i \<in> set is. fd_file (sy_table st' (p, i)) = NULL)" "\<forall>q f. wr_end q st' f \<longrightarrow> wr_end q ?s3 f"
      using Cons.IH [OF ok3] by blast
    have "wr_end q st f" if "wr_end q st' f" for q f
    proof -
      have "wr_end q t1 f" using st'(5) that eqs(1) by (auto simp: wr_end_def)
      then have "wr_end q ?s0 f" using t1(5,6) f0 by (cases "f = ?f") (auto simp: wr_end_def)
      then show ?thesis by (simp add: wr_end_def set_slot_def)
    qed
    note mono = this
    have "fd_file (sy_table st' (p, i)) = NULL" using st'(3) t3 by (metis fun_upd_same d)
    moreover have "fd_file (sy_table st' s) = NULL \<or> sy_table st' s = sy_table st s" for s
      using st'(3) [rule_format, of s] t3 calculation by (cases "s = (p, i)") auto
    ultimately show ?thesis unfolding step using st'(1,2,4) mono by simp
  qed
qed simp

text \<open>The objects of a new pipe.\<close>

definition pipe_objects :: "'w system \<Rightarrow> pipe \<Rightarrow> 'w system" where
  "pipe_objects st p = (let n = sy_next st in
     st\<lparr>sy_next := n + 3,
        sy_pipes := (sy_pipes st)(n + 1 \<mapsto> p\<lparr>p_refs := 2\<rparr>),
        sy_files := (sy_files st)
          (n \<mapsto> file_init\<lparr>f_devtype := FDT_FIFO, f_ops := PipeOps, f_devdata := n + 1, f_flags := F_READ\<rparr>,
           n + 2 \<mapsto> file_init\<lparr>f_ops := PipeOps, f_devdata := n + 1, f_flags := F_WRITE\<rparr>)\<rparr>)"

lemma pipe_objects_inv:
  assumes "fd_inv (\<lambda>_. 0) (\<lambda>_. 0) (\<lambda>_. 0) Z st" "0 < sy_next st" "pipe_create (\<lambda>_. 0) = Some p"
  shows "fd_inv (\<lambda>g. of_bool (g = sy_next st \<or> g = sy_next st + 2)) (\<lambda>_. 0) (\<lambda>_. 0) Z (pipe_objects st p)"
proof -
  let ?n = "sy_next st" and ?s = "pipe_objects st p"
  have fo: "files_ok (\<lambda>_. 0) st" and pp: "pipes_ok (\<lambda>_. 0) (\<lambda>_. 0) Z st" using assms(1) by (auto simp: fd_inv_def)
  have fresh1: "sy_files st g = None" if "?n \<le> g" for g
  proof (cases "sy_files st g")
    case (Some r) then show ?thesis using files_okD(4) [OF fo Some] that by simp
  qed
  have fresh2: "sy_pipes st g = None" if "?n \<le> g" for g
  proof (cases "sy_pipes st g")
    case (Some r) then show ?thesis using pipes_okD(3) [OF pp Some] that by simp
  qed
  note fresh = fresh1 fresh2
  have lt: "fd_file (sy_table st s) < ?n" for s
  proof (cases "s \<in> used st")
    case True
    then obtain r where "sy_files st (fd_file (sy_table st s)) = Some r" using files_okD(3) [OF fo] by blast
    then show ?thesis using files_okD(4) [OF fo] by blast
  next
    case False
    then show ?thesis using assms(2) by (simp add: used_def)
  qed
  have tab: "sy_table ?s = sy_table st" "sy_next ?s = ?n + 3" by (simp_all add: pipe_objects_def Let_def)
  have sl: "slots P ?s = slots P st" for P using tab by (simp add: slots_def)
  have us: "used ?s = used st" using tab by (simp add: used_def)
  have old: "sy_files ?s g = sy_files st g" if "g < ?n" for g
    using that by (simp add: pipe_objects_def Let_def)
  have ends: "slots (rd_end q ?s) st = slots (rd_end q st) st" "slots (wr_end q ?s) st = slots (wr_end q st) st" for q
    by (rule slots_cong; use old lt in \<open>simp add: rd_end_def wr_end_def\<close>)+
  have none: "slots P st = 0" if "\<And>g. g < ?n \<Longrightarrow> \<not> P g" for P
    using that lt by (simp add: slots_def)
  have fin: "finite (dom (sy_files ?s))"
    using files_okD(2) [OF fo] by (simp add: pipe_objects_def Let_def)
  have live: "sy_files ?s (fd_file (sy_table st s)) \<noteq> None" if "s \<in> used st" for s
    using files_okD(3) [OF fo that] old [OF lt [of s]] by simp
  have each: "0 < g \<and> g < ?n + 3 \<and> f_refs r = slots (\<lambda>h. h = g) st + of_bool (g = ?n \<or> g = ?n + 2) \<and>
      0 < slots (\<lambda>h. h = g) st + (of_bool (g = ?n \<or> g = ?n + 2) :: int)" if "sy_files ?s g = Some r" for g r
  proof (cases "g < ?n")
    case True
    then have s: "sy_files st g = Some r" using that old by simp
    show ?thesis using files_okD(4,5,6) [OF fo s] True by simp
  next
    case False
    then have g: "g = ?n \<or> g = ?n + 2" and r: "f_refs r = 1"
      using that fresh(1) by (auto simp: pipe_objects_def Let_def file_init_def split: if_splits)
    have "slots (\<lambda>h. h = g) st = 0" by (rule none) (use False in simp)
    then show ?thesis using g r assms(2) by auto
  qed
  have "files_ok (\<lambda>g. of_bool (g = ?n \<or> g = ?n + 2)) ?s"
    unfolding files_ok_def sl us tab using files_okD(1) [OF fo] fin live each by blast
  moreover have "pipes_ok (\<lambda>_. 0) (\<lambda>_. 0) Z ?s"
  proof -
    have A: "sy_pipes ?s (f_devdata r) \<noteq> None \<and> \<not> (f_flags r AND F_READ \<noteq> 0 \<and> f_flags r AND F_WRITE \<noteq> 0)"
      if "sy_files ?s g = Some r" "f_ops r = PipeOps" for g r
    proof (cases "g < ?n")
      case True
      then have "sy_files st g = Some r" using that old by simp
      then show ?thesis using pipes_okD(1,2) [OF pp _ that(2)]
        by (auto simp: pipe_objects_def Let_def)
    next
      case False
      then show ?thesis
        using that fresh(1) by (auto simp: pipe_objects_def Let_def F_READ_def F_WRITE_def split: if_splits)
    qed
    have pf: "{g. pipe_file q ?s g} = (if q = ?n + 1 then {?n, ?n + 2} else {g. pipe_file q st g})" for q
    proof -
      have "\<not> pipe_file (?n + 1) st g" for g
        using pipes_okD(1) [OF pp, of g] fresh(2) by (fastforce simp: pipe_file_def)
      moreover have "pipe_file q ?s g \<longleftrightarrow> (if g = ?n \<or> g = ?n + 2 then q = ?n + 1 else pipe_file q st g)" for g
        by (auto simp: pipe_file_def pipe_objects_def Let_def)
      moreover have "\<not> pipe_file q st ?n" "\<not> pipe_file q st (?n + 2)" using fresh(1) by (simp_all add: pipe_file_def)
      ultimately show ?thesis by auto
    qed
    have B: "q < ?n + 3 \<and> p_refs k = int (card {g. pipe_file q ?s g}) + Z q \<and> 0 < int (card {g. pipe_file q ?s g}) + Z q \<and>
        p_readers k = slots (rd_end q st) st + 0 \<and> p_writers k = slots (wr_end q st) st + 0 \<and> cb_wf (p_buf k)"
      if "sy_pipes ?s q = Some k" for q k
    proof (cases "q = ?n + 1")
      case True
      have k: "k = p\<lparr>p_refs := 2\<rparr>" using that True by (simp add: pipe_objects_def Let_def)
      have nf: "\<not> rd_end (?n + 1) st g" "\<not> wr_end (?n + 1) st g" for g
        using pipes_okD(1) [OF pp, of g] fresh(2) by (fastforce simp: rd_end_def wr_end_def)+
      have "slots (rd_end (?n + 1) st) st = 0" "slots (wr_end (?n + 1) st) st = 0"
        by (rule none; use nf in simp)+
      moreover have "card {?n, ?n + 2} = 2" by simp
      moreover have "Z (?n + 1) = 0" by (rule pipes_okD(10) [OF pp]) simp
      moreover have "p_readers p = 0" "p_writers p = 0" "cb_wf (p_buf p)"
        using assms(3) by (auto simp: pipe_create_def charbuffer_create_def cb_wf_def)
      ultimately show ?thesis using True k pf [of "?n + 1"] by simp
    next
      case False
      then have s: "sy_pipes st q = Some k" using that by (simp add: pipe_objects_def Let_def)
      then show ?thesis using pipes_okD(3,4,5,6,7,8) [OF pp s] False pf [of q] by simp
    qed
    have "\<forall>q. 0 \<le> Z q" "\<forall>q \<ge> ?n + 3. Z q = 0" using pipes_okD(9,10) [OF pp] by auto
    then show ?thesis unfolding pipes_ok_def sl ends tab using A B by blast
  qed
  ultimately show ?thesis by (simp add: fd_inv_def)
qed

text \<open>\<open>sys_pipe\<close> up to the descriptors.\<close>

lemma pipe_files_created:
  assumes "pipe_create (\<lambda>_. 0) = Some p" "0 < sy_next st"
  shows "\<exists>st1 st2. file_create C D NULL FDT_FIFO st = Some (sy_next st, st1) \<and>
    file_create C D NULL FDT_UNKNOWN st1 = Some (sy_next st + 2, st2) \<and>
    (\<exists>r w. sy_files st2 (sy_next st) = Some r \<and> sy_files st2 (sy_next st + 2) = Some w \<and>
      f_devdata r = sy_next st + 1 \<and> f_ops r = PipeOps \<and>
      (\<exists>st3. getref_pipe (f_devdata r) st2 = Some st3 \<and>
        set_file (sy_next st) (r\<lparr>f_flags := F_READ\<rparr>)
          (set_file (sy_next st + 2) (w\<lparr>f_ops := f_ops r, f_devdata := f_devdata r, f_flags := F_WRITE\<rparr>) st3) =
        pipe_objects st p))"
proof -
  let ?n = "sy_next st"
  have pr: "p_refs p = 1" "p\<lparr>p_named := False\<rparr> = p"
    using assms(1) by (auto simp: pipe_create_def charbuffer_create_def)
  let ?r = "file_init\<lparr>f_devtype := FDT_FIFO, f_ops := PipeOps, f_devdata := Suc ?n\<rparr>"
  let ?s1 = "st\<lparr>sy_next := ?n + 2, sy_pipes := (sy_pipes st)(?n + 1 \<mapsto> p), sy_files := (sy_files st)(?n \<mapsto> ?r)\<rparr>"
  have c1: "file_create C D NULL FDT_FIFO st = Some (?n, ?s1)"
    using assms(1) pr
    by (simp add: file_create_def fops_create_def pipe_file_create_def set_pipe_def set_file_def file_init_def Let_def)
  let ?s2 = "?s1\<lparr>sy_next := ?n + 3, sy_files := (sy_files st)(?n \<mapsto> ?r, ?n + 2 \<mapsto> file_init)\<rparr>"
  have c2: "file_create C D NULL FDT_UNKNOWN ?s1 = Some (?n + 2, ?s2)"
    by (simp add: file_create_def fops_create_def set_file_def file_init_def Let_def)
  show ?thesis
    using c1 c2 pr by (auto simp: getref_pipe_def set_pipe_def set_file_def pipe_objects_def Let_def file_init_def
        fun_upd_twist)
qed

lemma refs_only:
  assumes "sy_files s f = Some r" "\<forall>g. g \<noteq> f \<longrightarrow> sy_files t g = sy_files s g" "sy_files t f = Some (r\<lparr>f_refs := k\<rparr>)"
  shows "rd_end q t = rd_end q s" "wr_end q t = wr_end q s"
proof -
  have "rd_end q t g = rd_end q s g \<and> wr_end q t g = wr_end q s g" for g
  proof (cases "g = f")
    case True
    then show ?thesis using end_cong [OF assms(1,3)] by simp
  next
    case False
    then show ?thesis using assms(2) by (simp add: rd_end_def wr_end_def)
  qed
  then show "rd_end q t = rd_end q s" "wr_end q t = wr_end q s" by blast+
qed

lemma links_create:
  assumes "links_ok st" "sy_table s1 = (sy_table st)((p, i) := d)" "sy_links s1 = sy_links st"
    "fd_file d \<noteq> NULL" "fd_file (sy_table st (p, i)) = NULL"
  shows "\<exists>s2. process_create_proc_fd p i path s1 = Some s2 \<and> sy_table s2 = sy_table s1 \<and> sy_files s2 = sy_files s1 \<and>
    sy_pipes s2 = sy_pipes s1 \<and> sy_next s2 = sy_next s1 \<and> links_ok s2"
proof (cases "p = 0")
  case True
  have "links_ok s1" using assms True by (auto simp: links_ok_def)
  then show ?thesis using True by (simp add: process_create_proc_fd_def)
next
  case False
  have n: "sy_links st (p, i) = None" using assms(1,5) unfolding links_ok_def by blast
  have "links_ok (s1\<lparr>sy_links := (sy_links s1)((p, i) \<mapsto> path)\<rparr>)"
    using assms False unfolding links_ok_def by auto
  then show ?thesis using False n assms(3) by (simp add: process_create_proc_fd_def)
qed

lemma dead_pipe:
  assumes "fd_inv X R W Z st" "\<And>f. \<not> pipe_file q st f" "Z q = 0" "\<And>k. k \<noteq> q \<Longrightarrow> R' k = R k \<and> W' k = W k"
  shows "fd_inv X R' W' Z st"
proof -
  have pp: "pipes_ok R W Z st" using assms(1) by (simp add: fd_inv_def)
  have none: "sy_pipes st q = None"
  proof (cases "sy_pipes st q")
    case (Some a)
    have "{f. pipe_file q st f} = {}" using assms(2) by simp
    then show ?thesis using pipes_okD(4,5) [OF pp Some] assms(3) by simp
  qed
  have "R' k = R k \<and> W' k = W k" if "sy_pipes st k = Some a" for k a
    using none that assms(4) by (cases "k = q") auto
  then have "pipes_ok R' W' Z st"
    using pp unfolding pipes_ok_def by auto
  then show ?thesis using assms(1) by (simp add: fd_inv_def)
qed

lemma new_pipe_ends:
  assumes "fd_inv (\<lambda>_. 0) (\<lambda>_. 0) (\<lambda>_. 0) Z st" "0 < sy_next st"
  shows "rd_end (sy_next st + 1) (pipe_objects st p) g \<longleftrightarrow> g = sy_next st"
    "wr_end (sy_next st + 1) (pipe_objects st p) g \<longleftrightarrow> g = sy_next st + 2"
    "pipe_file (sy_next st + 1) (pipe_objects st p) g \<longleftrightarrow> g = sy_next st \<or> g = sy_next st + 2"
    "fd_file (sy_table st s) < sy_next st"
proof -
  have fo: "files_ok (\<lambda>_. 0) st" and pp: "pipes_ok (\<lambda>_. 0) (\<lambda>_. 0) Z st" using assms(1) by (auto simp: fd_inv_def)
  have no: "f_devdata r \<noteq> sy_next st + 1" if "sy_files st h = Some r" "f_ops r = PipeOps" for h r
    using pipes_okD(1) [OF pp that] pipes_okD(3) [OF pp] by (metis add_lessD1 less_irrefl)
  show "rd_end (sy_next st + 1) (pipe_objects st p) g \<longleftrightarrow> g = sy_next st"
    "wr_end (sy_next st + 1) (pipe_objects st p) g \<longleftrightarrow> g = sy_next st + 2"
    "pipe_file (sy_next st + 1) (pipe_objects st p) g \<longleftrightarrow> g = sy_next st \<or> g = sy_next st + 2"
    using no [of g] by (auto simp: rd_end_def wr_end_def pipe_file_def pipe_objects_def Let_def rd_flags_def
        wr_flags_def F_READ_def F_WRITE_def)
  show "fd_file (sy_table st s) < sy_next st"
  proof (cases "s \<in> used st")
    case True
    then obtain r where "sy_files st (fd_file (sy_table st s)) = Some r" using files_okD(3) [OF fo] by blast
    then show ?thesis using files_okD(4) [OF fo] by blast
  next
    case False
    then show ?thesis using assms(2) by (simp add: used_def)
  qed
qed

lemma sys_pipe_ok:
  assumes "fd_ok Z st" "0 < sy_next st"
  shows "\<exists>n fds st'. sys_pipe C D p st = Some (n, fds, st') \<and> fd_ok Z st'"
proof -
  let ?n = "sy_next st"
  let ?q = "?n + 1" and ?wf = "?n + 2"
  have inv: "fd_inv (\<lambda>_. 0) (\<lambda>_. 0) (\<lambda>_. 0) Z st" and lk: "links_ok st" using assms(1) by (auto simp: fd_ok_def)
  obtain pp where pp: "pipe_create (\<lambda>_. 0) = Some pp" by (simp add: pipe_create_def charbuffer_create_def)
  obtain t1 t2 r w t3 where c: "file_create C D NULL FDT_FIFO st = Some (?n, t1)"
    "file_create C D NULL FDT_UNKNOWN t1 = Some (?wf, t2)" "sy_files t2 ?n = Some r" "sy_files t2 ?wf = Some w"
    "f_devdata r = ?q" "getref_pipe (f_devdata r) t2 = Some t3"
    "set_file ?n (r\<lparr>f_flags := F_READ\<rparr>)
          (set_file ?wf (w\<lparr>f_ops := f_ops r, f_devdata := f_devdata r, f_flags := F_WRITE\<rparr>) t3) = pipe_objects st pp"
    using pipe_files_created [OF pp assms(2), of C D] by blast
  let ?s0 = "pipe_objects st pp"
  note i0 = pipe_objects_inv [OF inv assms(2) pp] and ends = new_pipe_ends [OF inv assms(2)]
  have t0: "sy_table ?s0 = sy_table st" "sy_links ?s0 = sy_links st" by (simp_all add: pipe_objects_def Let_def)
  have lk0: "links_ok ?s0" using lk t0 by (simp add: links_ok_def)
  obtain rr where rr: "sy_files ?s0 ?n = Some rr" "f_refs rr = 1" by (simp add: pipe_objects_def Let_def file_init_def)
  obtain ww where ww: "sy_files ?s0 ?wf = Some ww" "f_refs ww = 1" by (simp add: pipe_objects_def Let_def file_init_def)
  have Zq: "Z ?q = 0" using pipes_okD(10) [of "\<lambda>_. 0" "\<lambda>_. 0" Z st ?q] inv by (simp add: fd_inv_def)
  have start: "sys_pipe C D p st = do {
     (wfd, s) \<leftarrow> process_allocate_fd C p ?wf 0 ?s0;
     s \<leftarrow> putref_file C ?wf s;
     if wfd < 0 then do { s \<leftarrow> putref_file C ?n s; Some (- EMFILE, [], s) }
     else do {
       s \<leftarrow> process_create_proc_fd p (nat wfd) ''[pipe:write]'' s;
       (rfd, s) \<leftarrow> process_allocate_fd C p ?n 0 s;
       s \<leftarrow> putref_file C ?n s;
       if rfd < 0 then do { s \<leftarrow> process_release_fd C p (nat wfd) s; Some (- EMFILE, [], s) }
       else do {
         s \<leftarrow> process_create_proc_fd p (nat rfd) ''[pipe:read]'' s;
         q \<leftarrow> sy_pipes s (f_devdata r);
         kassert (p_readers q = 1);
         kassert (p_writers q = 1);
         Some (0, [nat rfd, nat wfd], s) } } }"
    using c by (simp add: sys_pipe_def)
  from i0 ww(1) show ?thesis
  proof (cases rule: process_allocate_fd_cases [of _ _ _ _ _ _ _ C p 0])
    case (full e)
    from putref_file_inv [OF i0 ww(1), of C] obtain s1 where s1: "putref_file C ?wf ?s0 = Some s1"
      "fd_inv (\<lambda>g. of_bool (g = ?n \<or> g = ?wf) - (if g = ?wf then 1 else 0)) (\<lambda>_. 0) (\<lambda>_. 0) Z s1"
      "sy_table s1 = sy_table st" "sy_links s1 = sy_links st" "sy_files s1 ?n = Some rr"
      using t0 rr(1) by auto
    from putref_file_inv [OF s1(2,5), of C] obtain s2 where s2: "putref_file C ?n s1 = Some s2"
      "fd_inv (\<lambda>g. of_bool (g = ?n \<or> g = ?wf) - (if g = ?wf then 1 else 0) - (if g = ?n then 1 else 0)) (\<lambda>_. 0) (\<lambda>_. 0) Z s2"
      "sy_table s2 = sy_table st" "sy_links s2 = sy_links st" using s1(3,4) by auto
    have "fd_ok Z s2" using fd_inv_X [OF s2(2), of "\<lambda>_. 0"] lk s2(3,4) by (simp add: fd_ok_def links_ok_def)
    then show ?thesis unfolding start using full s1(1) s2(1) by simp
  next
    case (slot i s1)
    let ?d = "\<lparr>fd_file = ?wf, fd_flags = 0\<rparr>"
    have f1: "sy_files s1 ?wf = Some (ww\<lparr>f_refs := 2\<rparr>)" using slot(7) ww(2) by simp
    from putref_file_inv [OF slot(4) f1, of C] obtain s2 where s2: "putref_file C ?wf s1 = Some s2"
      "fd_inv (\<lambda>g. of_bool (g = ?n \<or> g = ?wf) - (if g = ?wf then 1 else 0)) (\<lambda>_. 0) (\<lambda>_. 0) Z s2"
      "sy_table s2 = sy_table s1" "sy_links s2 = sy_links s1" "\<forall>g. g \<noteq> ?wf \<longrightarrow> sy_files s2 g = sy_files s1 g"
      "sy_files s2 ?wf = Some (ww\<lparr>f_refs := 1\<rparr>)" by auto
    have e2: "rd_end k s2 = rd_end k ?s0" "wr_end k s2 = wr_end k ?s0" for k
      by (rule refs_only [OF ww(1), where k = 1]; use s2(5,6) slot(7) in simp)+
    have tt: "sy_table s2 = (sy_table ?s0)((p, i) := ?d)" "sy_links s2 = sy_links ?s0" using s2(3,4) slot(5,6) by simp_all
    obtain s3 where s3: "process_create_proc_fd p i ''[pipe:write]'' s2 = Some s3" "sy_table s3 = sy_table s2"
      "sy_files s3 = sy_files s2" "sy_pipes s3 = sy_pipes s2" "sy_next s3 = sy_next s2" "links_ok s3"
      using links_create [OF lk0 tt _ slot(3), of "''[pipe:write]''"] by auto
    have i3: "fd_inv (\<lambda>g. of_bool (g = ?n)) (\<lambda>_. 0) (\<lambda>_. 0) Z s3"
      unfolding fd_inv_cong [OF s3(3,4,2,5)] by (rule fd_inv_X [OF s2(2)]) auto
    have f3: "sy_files s3 ?n = Some rr" using s3(3) s2(5) slot(7) rr(1) by simp
    from i3 f3 show ?thesis
    proof (cases rule: process_allocate_fd_cases [of _ _ _ _ _ _ _ C p 0])
      case (full e)
      from putref_file_inv [OF i3 f3, of C] obtain s4 where s4: "putref_file C ?n s3 = Some s4"
        "fd_inv (\<lambda>g. of_bool (g = ?n) - (if g = ?n then 1 else 0)) (\<lambda>_. 0) (\<lambda>_. 0) Z s4"
        "sy_table s4 = sy_table s3" "sy_links s4 = sy_links s3" "\<forall>g. g \<noteq> ?n \<longrightarrow> sy_files s4 g = sy_files s3 g"
        "sy_files s4 ?n = None" using rr(2) by auto
      have i4: "fd_inv (\<lambda>_. 0) (\<lambda>_. 0) (\<lambda>_. 0) Z s4" by (rule fd_inv_X [OF s4(2)]) auto
      have at: "sy_table s4 (p, i) = ?d" using s4(3) s3(2) tt by simp
      have lk4: "links_ok s4" using s3(6) s4(3,4) by (simp add: links_ok_def)
      let ?d0 = "(sy_table s4 (p, i))\<lparr>fd_file := NULL\<rparr>"
      let ?s5 = "set_slot p i ?d0 s4"
      have d0: "fd_file ?d0 = NULL" by simp
      have i5: "fd_inv (\<lambda>g. 0 + of_bool (g = ?wf)) (\<lambda>k. 0 + of_bool (rd_end k s4 ?wf)) (\<lambda>k. 0 + of_bool (wr_end k s4 ?wf)) Z ?s5"
        using clear_slot_inv [OF i4 d0, of p i] at by simp
      have f5: "sy_files ?s5 ?wf = Some (ww\<lparr>f_refs := 1\<rparr>)"
        using s4(5) s3(3) s2(6) by (simp add: set_slot_def)
      from putref_file_inv [OF i5 f5, of C] obtain s6 where s6: "putref_file C ?wf ?s5 = Some s6"
        "fd_inv (\<lambda>g. 0 + of_bool (g = ?wf) - (if g = ?wf then 1 else 0)) (\<lambda>k. 0 + of_bool (rd_end k s4 ?wf)) (\<lambda>k. 0 + of_bool (wr_end k s4 ?wf)) Z s6"
        "sy_table s6 = sy_table ?s5" "sy_links s6 = sy_links ?s5" "\<forall>g. g \<noteq> ?wf \<longrightarrow> sy_files s6 g = sy_files ?s5 g"
        "sy_files s6 ?wf = None" by auto
      have t6: "sy_table s6 = (sy_table s4)((p, i) := ?d0)" "sy_links s6 = sy_links s4"
        using s6(3,4) by (simp_all add: set_slot_def)
      obtain s7 where s7: "process_remove_proc_fd p i s6 = Some s7" "sy_files s7 = sy_files s6" "links_ok s7"
        "\<And>X R W Z. fd_inv X R W Z s7 = fd_inv X R W Z s6"
        using links_remove [OF lk4 t6 d0] at by auto
      have "sy_files s7 g = (if g = ?wf \<or> g = ?n then None else sy_files ?s0 g)" for g
        using s7(2) s6(5,6) s4(5,6) s3(3) s2(5) slot(7) by (simp add: set_slot_def)
      then have nopf: "\<not> pipe_file ?q s7 g" for g
        using ends(3) [of pp g] by (auto simp: pipe_file_def)
      have other: "\<not> rd_end k s4 ?wf \<and> \<not> wr_end k s4 ?wf" if "k \<noteq> ?q" for k
      proof -
        have "f_devdata ww = ?q" using ww(1) by (auto simp: pipe_objects_def Let_def)
        then show ?thesis using that s4(5) s3(3) s2(6) by (simp add: rd_end_def wr_end_def)
      qed
      have i7: "fd_inv (\<lambda>g. 0 + of_bool (g = ?wf) - (if g = ?wf then 1 else 0)) (\<lambda>_. 0) (\<lambda>_. 0) Z s7"
        by (rule dead_pipe [OF s6(2) [folded s7(4)] nopf Zq]) (use other in simp)
      have "fd_ok Z s7" using fd_inv_X [OF i7, of "\<lambda>_. 0"] s7(3) by (simp add: fd_ok_def)
      moreover have "process_release_fd C p i s4 = Some s7"
        using at s6(1) s7(1) by (simp add: process_release_fd_def)
      ultimately show ?thesis unfolding start using slot(1) s2(1) s3(1) full s4(1) by simp
    next
      case sl2: (slot j s4)
      let ?e = "\<lparr>fd_file = ?n, fd_flags = 0\<rparr>"
      have f4: "sy_files s4 ?n = Some (rr\<lparr>f_refs := 2\<rparr>)" using sl2(7) rr(2) by simp
      from putref_file_inv [OF sl2(4) f4, of C] obtain s5 where s5: "putref_file C ?n s4 = Some s5"
        "fd_inv (\<lambda>g. of_bool (g = ?n) - (if g = ?n then 1 else 0)) (\<lambda>_. 0) (\<lambda>_. 0) Z s5"
        "sy_table s5 = sy_table s4" "sy_links s5 = sy_links s4" "\<forall>g. g \<noteq> ?n \<longrightarrow> sy_files s5 g = sy_files s4 g"
        "sy_files s5 ?n = Some (rr\<lparr>f_refs := 1\<rparr>)" by auto
      have e5: "rd_end k s5 = rd_end k s3" "wr_end k s5 = wr_end k s3" for k
        by (rule refs_only [OF f3, where k = 1]; use s5(5,6) sl2(7) in simp)+
      have e3: "rd_end k s3 = rd_end k s2" "wr_end k s3 = wr_end k s2" for k
        using s3(3) by (auto simp: rd_end_def wr_end_def)
      have t5: "sy_table s5 = (sy_table s3)((p, j) := ?e)" "sy_links s5 = sy_links s3" using s5(3,4) sl2(5,6) by simp_all
      obtain s6 where s6: "process_create_proc_fd p j ''[pipe:read]'' s5 = Some s6" "sy_table s6 = sy_table s5"
        "sy_files s6 = sy_files s5" "sy_pipes s6 = sy_pipes s5" "sy_next s6 = sy_next s5" "links_ok s6"
        using links_create [OF s3(6) t5 _ sl2(3), of "''[pipe:read]''"] assms(2) by auto
      have i6: "fd_inv (\<lambda>_. 0) (\<lambda>_. 0) (\<lambda>_. 0) Z s6"
        unfolding fd_inv_cong [OF s6(3,4,2,5)] by (rule fd_inv_X [OF s5(2)]) auto
      have ok: "fd_ok Z s6" using i6 s6(6) by (simp add: fd_ok_def)
      have p6: "pipes_ok (\<lambda>_. 0) (\<lambda>_. 0) Z s6" using i6 by (simp add: fd_inv_def)
      have rq: "f_ops rr = PipeOps" "f_devdata rr = ?q" using rr(1) by (auto simp: pipe_objects_def Let_def)
      obtain k where k: "sy_pipes s6 ?q = Some k"
        using pipes_okD(1) [OF p6, of ?n "rr\<lparr>f_refs := 1\<rparr>"] s6(3) s5(6) rq by auto
      have tab: "sy_table s6 = (sy_table st)((p, i) := ?d, (p, j) := ?e)"
        using s6(2) t5(1) s3(2) tt(1) t0(1) by simp
      have ij: "i \<noteq> j" using sl2(3) s3(2) tt(1) by auto
      have e6: "rd_end ?q s6 g \<longleftrightarrow> g = ?n" "wr_end ?q s6 g \<longleftrightarrow> g = ?wf" for g
      proof -
        have "rd_end ?q s6 = rd_end ?q s5" "wr_end ?q s6 = wr_end ?q s5"
          using s6(3) by (auto simp: rd_end_def wr_end_def)
        then show "rd_end ?q s6 g \<longleftrightarrow> g = ?n" "wr_end ?q s6 g \<longleftrightarrow> g = ?wf"
          using ends(1,2) [of pp g] by (simp_all add: e5 e3 e2)
      qed
      have ne: "fd_file (sy_table st s) \<noteq> ?n" "fd_file (sy_table st s) \<noteq> ?wf" for s using ends(4) [of s] by linarith+
      have "{s. rd_end ?q s6 (fd_file (sy_table s6 s))} = {(p, j)}" "{s. wr_end ?q s6 (fd_file (sy_table s6 s))} = {(p, i)}"
        using ne ij unfolding e6 tab by (auto split: if_splits)
      then have "p_readers k = 1" "p_writers k = 1" using pipes_okD(6,7) [OF p6 k] by (simp_all add: slots_def)
      then show ?thesis
        unfolding start using slot(1) s2(1) s3(1) sl2(1) s5(1) s6(1) k ok c(5) by simp
    qed
  qed
qed

section \<open>Transfers keep the invariant\<close>

lemma file_read_inv:
  assumes "fd_inv X R W Z st" "sy_files st f = Some r" "env_writes env" "unat len < 2 ^ 63"
  shows "\<exists>st' out res. file_read C env f off len st = Some (st', out, res) \<and> fd_inv X R W Z st' \<and>
    sy_files st' = sy_files st \<and> sy_table st' = sy_table st \<and> sy_links st' = sy_links st"
proof (cases "f_ops r")
  case PipeOps
  have pp: "pipes_ok R W Z st" using assms(1) by (simp add: fd_inv_def)
  obtain p where p: "sy_pipes st (f_devdata r) = Some p" using pipes_okD(1) [OF pp assms(2) PipeOps] by blast
  obtain p' out res where pr: "pipe_read env (f_flags r) len p = (p', out, res)" by (metis prod_cases3)
  have "cb_wf (p_buf p)" using pipes_okD(8) [OF pp p] .
  from charbuffer_read_wf [OF this assms(3,4), of "transfer_flags (f_flags r)"] pr this
  have p': "p_refs p' = p_refs p" "cb_wf (p_buf p')" "p_readers p' = p_readers p + 0" "p_writers p' = p_writers p + 0"
    by (auto simp: pipe_read_def split: if_splits prod.splits)
  have "fd_inv X R W Z (set_pipe (f_devdata r) p' st)"
    using set_pipe_inv [OF assms(1) p p'] by (rule fd_inv_X) simp_all
  then show ?thesis
    using assms(2) PipeOps p pr by (simp add: file_read_def) (simp add: set_pipe_def)
next
  case (OtherOps n)
  obtain w out v where "fc_read (C n) = Some rd \<Longrightarrow> rd r off len (sy_world st) = (w, out, v)" for rd
    by (metis option.inject prod_cases3)
  then show ?thesis using assms(1,2) OtherOps by (cases "fc_read (C n)") (auto simp: file_read_def)
qed (use assms in \<open>simp add: file_read_def\<close>)

lemma file_write_inv:
  assumes "fd_inv X R W Z st" "sy_files st f = Some r" "env_reads env" "length buf < 2 ^ 63"
  shows "\<exists>st' res. file_write C env p f off buf st = Some (st', res) \<and> fd_inv X R W Z st' \<and>
    sy_files st' = sy_files st \<and> sy_table st' = sy_table st \<and> sy_links st' = sy_links st"
proof (cases "f_ops r")
  case PipeOps
  have pp: "pipes_ok R W Z st" using assms(1) by (simp add: fd_inv_def)
  obtain q where q: "sy_pipes st (f_devdata r) = Some q" using pipes_okD(1) [OF pp assms(2) PipeOps] by blast
  obtain q' res sig where pr: "pipe_write env (f_flags r) buf q = (q', res, sig)" by (metis prod_cases3)
  have "cb_wf (p_buf q)" using pipes_okD(8) [OF pp q] .
  from charbuffer_write_wf [OF this assms(3,4), of "transfer_flags (f_flags r)"] pr this
  have q': "p_refs q' = p_refs q" "cb_wf (p_buf q')" "p_readers q' = p_readers q + 0" "p_writers q' = p_writers q + 0"
    by (auto simp: pipe_write_def split: if_splits prod.splits)
  have "fd_inv X R W Z (set_pipe (f_devdata r) q' st)"
    using set_pipe_inv [OF assms(1) q q'] by (rule fd_inv_X) simp_all
  then show ?thesis
    using assms(2) PipeOps q pr by (simp add: file_write_def Let_def) (simp add: set_pipe_def)
next
  case (OtherOps n)
  obtain w v where "fc_write (C n) = Some wr \<Longrightarrow> wr r off buf (sy_world st) = (w, v)" for wr
    by (metis option.inject surj_pair)
  then show ?thesis using assms(1,2) OtherOps by (cases "fc_write (C n)") (auto simp: file_write_def)
qed (use assms in \<open>simp add: file_write_def\<close>)

text \<open>The end of a call: the position may move, then the reference taken at its start is dropped.\<close>

lemma finish_inv:
  assumes "fd_inv (\<lambda>g. if g = f then 1 else 0) (\<lambda>_. 0) (\<lambda>_. 0) Z st" "sy_files st f = Some r" "links_ok st"
    "f_refs r' = f_refs r" "f_ops r' = f_ops r" "f_devdata r' = f_devdata r" "f_flags r' = f_flags r"
  shows "\<exists>st'. putref_file C f (set_file f r' st) = Some st' \<and> fd_ok Z st'"
proof -
  have pos: "0 < f_refs r'" using files_okD(6) [of "\<lambda>g. if g = f then 1 else 0" st f r] assms(1,2,4) by (simp add: fd_inv_def)
  have "fd_inv (\<lambda>g. (if g = f then 1 else 0) + (if g = f then 0 else 0)) (\<lambda>_. 0) (\<lambda>_. 0) Z (set_file f r' st)"
    by (rule set_file_inv [OF assms(1,2)]) (use assms(4-) pos in simp_all)
  then have i: "fd_inv (\<lambda>g. if g = f then 1 else 0) (\<lambda>_. 0) (\<lambda>_. 0) Z (set_file f r' st)" by (rule fd_inv_X) simp_all
  have f: "sy_files (set_file f r' st) f = Some r'" by (simp add: set_file_def)
  obtain s3 where s3: "putref_file C f (set_file f r' st) = Some s3" "sy_table s3 = sy_table (set_file f r' st)"
    "sy_links s3 = sy_links (set_file f r' st)"
    "fd_inv (\<lambda>g. (if g = f then 1 else 0) - (if g = f then 1 else 0)) (\<lambda>_. 0) (\<lambda>_. 0) Z s3"
    using putref_file_inv [OF i f, of C] by auto
  have "fd_ok Z s3"
    using fd_inv_X [OF s3(4), of "\<lambda>_. 0"] assms(3) s3(2,3) by (simp add: fd_ok_def links_ok_def set_file_def)
  then show ?thesis using s3(1) by blast
qed

lemma set_file_same [simp]: "sy_files st f = Some r \<Longrightarrow> set_file f r st = st"
  by (cases st) (auto simp: set_file_def)

lemma get_file_links:
  assumes "links_ok st" "st1 = set_file f r st"
  shows "links_ok st1"
  using assms by (simp add: links_ok_def set_file_def)

lemma sys_read_ok:
  assumes "fd_ok Z st" "env_writes env" "unat len < 2 ^ 63"
  shows "\<exists>st' out res. sys_read C env p fd len st = Some (st', out, res) \<and> (\<forall>v. res = Returned v \<longrightarrow> fd_ok Z st')"
proof -
  have inv: "fd_inv (\<lambda>_. 0) (\<lambda>_. 0) (\<lambda>_. 0) Z st" and lk: "links_ok st" using assms by (auto simp: fd_ok_def)
  from inv show ?thesis
  proof (cases rule: process_get_file_cases [of _ _ _ _ _ p fd])
    case none then show ?thesis using assms by (simp add: sys_read_def)
  next
    case (live f r s1)
    let ?r1 = "r\<lparr>f_refs := f_refs r + 1\<rparr>"
    have f1: "sy_files s1 f = Some ?r1" using live(7) by (simp add: set_file_def)
    have lk1: "links_ok s1" by (rule get_file_links [OF lk live(7)])
    have i1: "fd_inv (\<lambda>g. if g = f then 1 else 0) (\<lambda>_. 0) (\<lambda>_. 0) Z s1" by (rule fd_inv_X [OF live(8)]) simp_all
    show ?thesis
    proof (cases "f_flags r AND F_READ = 0")
      case True
      then show ?thesis
        using finish_inv [OF i1 f1 lk1, of ?r1 C] live(1,2) f1 by (auto simp: sys_read_def)
    next
      case False
      from file_read_inv [OF i1 f1 assms(2,3), of C "f_pos r"] obtain s2 out res where
        s2: "file_read C env f (f_pos r) len s1 = Some (s2, out, res)" "fd_inv (\<lambda>g. if g = f then 1 else 0) (\<lambda>_. 0) (\<lambda>_. 0) Z s2"
        "sy_files s2 f = Some ?r1" "sy_table s2 = sy_table s1" "sy_links s2 = sy_links s1" using f1 by auto
      have lk2: "links_ok s2" using lk1 s2(4,5) by (simp add: links_ok_def)
      have base: "sys_read C env p fd len st = finish_read C True f (s2, out, res)"
        using live(1,2) f1 False s2(1) by (simp add: sys_read_def)
      show ?thesis
      proof (cases res)
        case (Suspended b)
        then show ?thesis unfolding base by (simp add: finish_read_def)
      next
        case (Returned v)
        define r2 where "r2 = (if v > 0 then ?r1\<lparr>f_pos := f_pos r + word_of_int v\<rparr> else ?r1)"
        have "add_pos f v s2 = Some (set_file f r2 s2)" using s2(3) by (simp add: add_pos_def r2_def)
        moreover have "f_refs r2 = f_refs ?r1" "f_ops r2 = f_ops ?r1" "f_devdata r2 = f_devdata ?r1" "f_flags r2 = f_flags ?r1"
          by (simp_all add: r2_def)
        then obtain s3 where "putref_file C f (set_file f r2 s2) = Some s3" "fd_ok Z s3"
          using finish_inv [OF s2(2,3) lk2, of r2 C] by blast
        ultimately show ?thesis unfolding base using Returned by (simp add: finish_read_def)
      qed
    qed
  qed
qed

lemma file_get_inode_inv:
  "fd_inv X R W Z (snd (file_get_inode r st)) = fd_inv X R W Z st"
  "sy_files (snd (file_get_inode r st)) = sy_files st" "links_ok (snd (file_get_inode r st)) = links_ok st"
  "fd_inv X R W Z (inode_put n st) = fd_inv X R W Z st" "sy_files (inode_put n st) = sy_files st"
  "links_ok (inode_put n st) = links_ok st"
  by (simp_all add: file_get_inode_def inode_add_def inode_put_def links_ok_def)

lemma write_offset_inv:
  assumes "fd_inv (\<lambda>g. if g = f then 1 else 0) (\<lambda>_. 0) (\<lambda>_. 0) Z st" "sy_files st f = Some r" "links_ok st"
  shows "\<exists>off st' r'. write_offset f st = Some (off, st') \<and>
    fd_inv (\<lambda>g. if g = f then 1 else 0) (\<lambda>_. 0) (\<lambda>_. 0) Z st' \<and> sy_files st' f = Some r' \<and> links_ok st'"
proof -
  have "\<exists>off s1. (if f_flags r AND O_APPEND \<noteq> 0 then file_get_len f st else Some (f_pos r, st)) = Some (off, s1) \<and>
      fd_inv (\<lambda>g. if g = f then 1 else 0) (\<lambda>_. 0) (\<lambda>_. 0) Z s1 \<and> sy_files s1 = sy_files st \<and> links_ok s1"
  proof (cases "f_flags r AND O_APPEND \<noteq> 0")
    case True
    obtain n s where e: "file_get_inode r st = (n, s)" by fastforce
    note i = file_get_inode_inv(1,2,3) [where r = r and st = st, unfolded e snd_conv]
    show ?thesis
      using assms True e i file_get_inode_inv(4,5,6) [where st = s and n = n] by (auto simp: file_get_len_def)
  qed (use assms in simp)
  then obtain off s1 where s1: "(if f_flags r AND O_APPEND \<noteq> 0 then file_get_len f st else Some (f_pos r, st)) = Some (off, s1)"
      "fd_inv (\<lambda>g. if g = f then 1 else 0) (\<lambda>_. 0) (\<lambda>_. 0) Z s1" "sy_files s1 f = Some r" "links_ok s1"
    using assms(2) by metis
  have "0 < f_refs r" using files_okD(6) [of "\<lambda>g. if g = f then 1 else 0" st f r] assms(1,2) by (simp add: fd_inv_def)
  then have "fd_inv (\<lambda>g. (if g = f then 1 else 0) + (if g = f then 0 else 0)) (\<lambda>_. 0) (\<lambda>_. 0) Z (set_file f (r\<lparr>f_pos := off\<rparr>) s1)"
    by (intro set_file_inv [OF s1(2,3)]) simp_all
  then have "fd_inv (\<lambda>g. if g = f then 1 else 0) (\<lambda>_. 0) (\<lambda>_. 0) Z (set_file f (r\<lparr>f_pos := off\<rparr>) s1)" by (rule fd_inv_X) simp_all
  moreover have "write_offset f st = Some (off, set_file f (r\<lparr>f_pos := off\<rparr>) s1)"
    using assms(2) s1(1) by (simp add: write_offset_def)
  moreover have "links_ok (set_file f (r\<lparr>f_pos := off\<rparr>) s1)" by (rule get_file_links [OF s1(4) refl])
  ultimately show ?thesis by (auto simp: set_file_def)
qed

lemma sys_write_ok:
  assumes "fd_ok Z st" "env_reads env" "length buf < 2 ^ 63"
  shows "\<exists>st' res. sys_write C env p fd buf st = Some (st', res) \<and> (\<forall>v. res = Returned v \<longrightarrow> fd_ok Z st')"
proof -
  have inv: "fd_inv (\<lambda>_. 0) (\<lambda>_. 0) (\<lambda>_. 0) Z st" and lk: "links_ok st" using assms by (auto simp: fd_ok_def)
  from inv show ?thesis
  proof (cases rule: process_get_file_cases [of _ _ _ _ _ p fd])
    case none then show ?thesis using assms by (simp add: sys_write_def)
  next
    case (live f r s1)
    let ?r1 = "r\<lparr>f_refs := f_refs r + 1\<rparr>"
    have f1: "sy_files s1 f = Some ?r1" using live(7) by (simp add: set_file_def)
    have lk1: "links_ok s1" by (rule get_file_links [OF lk live(7)])
    have i1: "fd_inv (\<lambda>g. if g = f then 1 else 0) (\<lambda>_. 0) (\<lambda>_. 0) Z s1" by (rule fd_inv_X [OF live(8)]) simp_all
    show ?thesis
    proof (cases "f_flags r AND F_WRITE = 0")
      case True
      then show ?thesis
        using finish_inv [OF i1 f1 lk1, of ?r1 C] live(1,2) f1 by (auto simp: sys_write_def)
    next
      case False
      obtain off t1 r2 where t1: "write_offset f s1 = Some (off, t1)"
        "fd_inv (\<lambda>g. if g = f then 1 else 0) (\<lambda>_. 0) (\<lambda>_. 0) Z t1" "sy_files t1 f = Some r2" "links_ok t1"
        using write_offset_inv [OF i1 f1 lk1] by blast
      from file_write_inv [OF t1(2,3) assms(2,3), of C p off] obtain s2 res where
        s2: "file_write C env p f off buf t1 = Some (s2, res)" "fd_inv (\<lambda>g. if g = f then 1 else 0) (\<lambda>_. 0) (\<lambda>_. 0) Z s2"
        "sy_files s2 f = Some r2" "sy_table s2 = sy_table t1" "sy_links s2 = sy_links t1" using t1(3) by auto
      have lk2: "links_ok s2" using t1(4) s2(4,5) by (simp add: links_ok_def)
      have base: "sys_write C env p fd buf st = finish_write C True f (s2, res)"
        using live(1,2) f1 False t1(1) s2(1) by (simp add: sys_write_def)
      show ?thesis
      proof (cases res)
        case (Suspended b)
        then show ?thesis unfolding base by (simp add: finish_write_def)
      next
        case (Returned v)
        define r3 where "r3 = (if v > 0 then r2\<lparr>f_pos := f_pos r2 + word_of_int v\<rparr> else r2)"
        have "add_pos f v s2 = Some (set_file f r3 s2)" using s2(3) by (simp add: add_pos_def r3_def)
        moreover have "f_refs r3 = f_refs r2" "f_ops r3 = f_ops r2" "f_devdata r3 = f_devdata r2" "f_flags r3 = f_flags r2"
          by (simp_all add: r3_def)
        then obtain s3 where "putref_file C f (set_file f r3 s2) = Some s3" "fd_ok Z s3"
          using finish_inv [OF s2(2,3) lk2, of r3 C] by blast
        ultimately show ?thesis unfolding base using Returned by (simp add: finish_write_def)
      qed
    qed
  qed
qed

lemma sys_lseek_ok:
  assumes "fd_ok Z st"
  shows "\<exists>n st'. sys_lseek C p fd off whence st = Some (n, st') \<and> fd_ok Z st'"
proof -
  have inv: "fd_inv (\<lambda>_. 0) (\<lambda>_. 0) (\<lambda>_. 0) Z st" and lk: "links_ok st" using assms by (auto simp: fd_ok_def)
  from inv show ?thesis
  proof (cases rule: process_get_file_cases [of _ _ _ _ _ p fd])
    case none then show ?thesis using assms by (simp add: sys_lseek_def)
  next
    case (live f r s1)
    let ?r1 = "r\<lparr>f_refs := f_refs r + 1\<rparr>"
    have f1: "sy_files s1 f = Some ?r1" using live(7) by (simp add: set_file_def)
    have lk1: "links_ok s1" by (rule get_file_links [OF lk live(7)])
    have i1: "fd_inv (\<lambda>g. if g = f then 1 else 0) (\<lambda>_. 0) (\<lambda>_. 0) Z s1" by (rule fd_inv_X [OF live(8)]) simp_all
    have here: "\<exists>s2. putref_file C f (set_file f (?r1\<lparr>f_pos := x\<rparr>) s1) = Some s2 \<and> fd_ok Z s2" for x
      by (rule finish_inv [OF i1 f1 lk1]) simp_all
    have stay: "\<exists>s2. putref_file C f (set_file f ?r1 s1) = Some s2 \<and> fd_ok Z s2"
      by (rule finish_inv [OF i1 f1 lk1]) simp_all
    obtain n s where e: "file_get_inode ?r1 s1 = (n, s)" by fastforce
    note ie = file_get_inode_inv(1,2,3) [where r = ?r1 and st = s1, unfolded e snd_conv]
    note ip = file_get_inode_inv(4,5,6) [where st = s and n = n]
    have fs: "sy_files s f = Some ?r1" "sy_files (inode_put n s) f = Some ?r1" using f1 ie ip by simp_all
    have ins: "fd_inv (\<lambda>g. if g = f then 1 else 0) (\<lambda>_. 0) (\<lambda>_. 0) Z s"
      "fd_inv (\<lambda>g. if g = f then 1 else 0) (\<lambda>_. 0) (\<lambda>_. 0) Z (inode_put n s)" "links_ok s" "links_ok (inode_put n s)"
      using i1 lk1 ie ip by simp_all
    have "\<exists>s2. putref_file C f (set_file f (?r1\<lparr>f_pos := x\<rparr>) (inode_put n s)) = Some s2 \<and> fd_ok Z s2"
      "\<exists>s2. putref_file C f (set_file f ?r1 (inode_put n s)) = Some s2 \<and> fd_ok Z s2"
      "\<exists>s2. putref_file C f (set_file f ?r1 s) = Some s2 \<and> fd_ok Z s2" for x
      by (rule finish_inv [OF ins(2) fs(2) ins(4)] finish_inv [OF ins(1) fs(1) ins(3)]; simp)+
    note end_cases = this here stay
    define T where "T = (if whence = SEEK_SET then
             if off < 0 then (- EINVAL, ?r1, s1) else (0, ?r1\<lparr>f_pos := word_of_int off\<rparr>, s1)
           else if whence = SEEK_CUR then
             if sint (f_pos ?r1) + off < 0 then (- EINVAL, ?r1, s1)
             else (0, ?r1\<lparr>f_pos := word_of_int (off + sint (f_pos ?r1))\<rparr>, s1)
           else if whence = SEEK_END then
             (let (node, st) = file_get_inode ?r1 s1 in
              if node = NULL then (- EIO, ?r1, st)
              else let pos = sint (i_length (sy_inodes st node)) in
                if pos + off < 0 then (- EINVAL, ?r1, inode_put node st)
                else (0, ?r1\<lparr>f_pos := word_of_int (pos + off)\<rparr>, inode_put node st))
           else (0, ?r1, s1))"
    have T: "\<exists>s2. putref_file C f (set_file f (fst (snd T)) (snd (snd T))) = Some s2 \<and> fd_ok Z s2"
      unfolding T_def e prod.case Let_def
      by (simp only: fst_conv snd_conv end_cases split: if_split) simp
    show ?thesis
    proof (cases "f_devtype r = FDT_FIFO \<or> f_devtype r = FDT_SOCK")
      case True
      then show ?thesis using live(1,2) f1 stay by (auto simp: sys_lseek_def)
    next
      case False
      obtain ret r' s' where t: "T = (ret, r', s')" by (metis prod_cases3)
      have "sys_lseek C p fd off whence st = (case T of (ret, r', st) \<Rightarrow> do {
          st \<leftarrow> putref_file C f (set_file f r' st);
          Some (if ret \<noteq> 0 then ret else sint (f_pos r'), st) })"
        using live(1,2) f1 False unfolding sys_lseek_def T_def by simp
      then show ?thesis using T t by auto
    qed
  qed
qed

section \<open>Sequences of calls\<close>

text \<open>
  The calls of any processes, one after the other. \<open>fork\<close> copies a table into an empty
  one, \<open>exit\<close> and \<open>exec\<close> close descriptors. The links of a process exist as long as
  it is not the kernel's. \<open>dup2\<close> is a step between distinct descriptors in range.
\<close>

inductive fd_step :: "'w calls \<Rightarrow> (inode_info \<Rightarrow> file_ops) \<Rightarrow> 'w system \<Rightarrow> 'w system \<Rightarrow> bool" for C D where
  fd_close: "sys_close C p fd st = Some (n, st') \<Longrightarrow> fd_step C D st st'"
| fd_dup: "sys_dup C p fd st = Some (n, st') \<Longrightarrow> fd_step C D st st'"
| fd_dup2: "\<lbrakk>sys_dup2 C p old new st = Some (n, st'); old \<noteq> new; 0 \<le> new; new < int MAX_FD\<rbrakk> \<Longrightarrow> fd_step C D st st'"
| fd_fcntl: "sys_fcntl C p fd cmd arg st = Some (n, st') \<Longrightarrow> fd_step C D st st'"
| fd_pipe: "\<lbrakk>sys_pipe C D p st = Some (n, fds, st'); 0 < sy_next st\<rbrakk> \<Longrightarrow> fd_step C D st st'"
| fd_seek: "sys_lseek C p fd off whence st = Some (n, st') \<Longrightarrow> fd_step C D st st'"
| fd_read: "\<lbrakk>sys_read C env p fd len st = Some (st', out, Returned v); env_writes env; unat len < 2 ^ 63\<rbrakk>
    \<Longrightarrow> fd_step C D st st'"
| fd_write: "\<lbrakk>sys_write C env p fd buf st = Some (st', Returned v); env_reads env; length buf < 2 ^ 63\<rbrakk>
    \<Longrightarrow> fd_step C D st st'"
| fd_fork: "\<lbrakk>process_copy_files C p q st = Some st'; p \<noteq> q; p \<noteq> 0; q \<noteq> 0;
    \<forall>i < MAX_FD. fd_file (sy_table st (q, i)) = NULL\<rbrakk> \<Longrightarrow> fd_step C D st st'"
| fd_exit: "process_close_files C p all st = Some st' \<Longrightarrow> fd_step C D st st'"

lemma process_copy_files_ok:
  assumes "fd_ok Z st" "p \<noteq> q" "p \<noteq> 0" "q \<noteq> 0" "\<forall>i < MAX_FD. fd_file (sy_table st (q, i)) = NULL"
  shows "\<exists>st'. process_copy_files C p q st = Some st' \<and> fd_ok Z st'"
  using copy_files_loop_ok [OF assms(1-4), of "[0..<MAX_FD]" C] assms(5) by (simp add: process_copy_files_def)

lemma fd_step_ok: "fd_step C D st st' \<Longrightarrow> fd_ok Z st \<Longrightarrow> fd_ok Z st'"
proof (induction rule: fd_step.induct)
  case (fd_close p fd st n st') then show ?case using sys_close_ok [of Z st C p fd] by auto
next
  case (fd_dup p fd st n st') then show ?case using sys_dup_ok [of Z st C p fd] by auto
next
  case (fd_dup2 p old new st n st') then show ?case using sys_dup2_ok [of Z st old new C p] by auto
next
  case (fd_fcntl p fd cmd arg st n st') then show ?case using sys_fcntl_ok [of Z st C p fd cmd arg] by auto
next
  case (fd_pipe p st n fds st') then show ?case using sys_pipe_ok [of Z st C D p] by auto
next
  case (fd_seek p fd off whence st n st') then show ?case using sys_lseek_ok [of Z st C p fd off whence] by auto
next
  case (fd_read env p fd len st st' out v) then show ?case using sys_read_ok [of Z st env len C p fd] by auto
next
  case (fd_write env p fd buf st st' v) then show ?case using sys_write_ok [of Z st env buf C p fd] by auto
next
  case (fd_fork p q st st') then show ?case using process_copy_files_ok [of Z st p q C] by auto
next
  case (fd_exit p all st st')
  then show ?case using close_files_loop_ok [of Z st C p all "[0..<MAX_FD]"] by (auto simp: process_close_files_def)
qed

lemma fd_steps_ok: "(fd_step C D)\<^sup>*\<^sup>* st st' \<Longrightarrow> fd_ok Z st \<Longrightarrow> fd_ok Z st'"
  by (induction rule: rtranclp_induct) (auto intro: fd_step_ok)

text \<open>The system before the first file is opened.\<close>

definition empty_system :: "'w \<Rightarrow> 'w system" where
  "empty_system w = \<lparr>sy_files = Map.empty, sy_pipes = Map.empty, sy_table = (\<lambda>_. \<lparr>fd_file = NULL, fd_flags = 0\<rparr>),
     sy_links = Map.empty, sy_dirent_inode = (\<lambda>_. NULL), sy_dirent_refs = (\<lambda>_. 0),
     sy_inodes = (\<lambda>_. \<lparr>i_mode = 0, i_length = 0, i_pipe = NULL, i_dirty = False, i_refs = 0\<rparr>),
     sy_next = 1, sy_sigpipe = [], sy_world = w\<rparr>"

lemma empty_system_ok: "fd_ok (\<lambda>_. 0) (empty_system w)"
  by (simp add: fd_ok_def fd_inv_def files_ok_def pipes_ok_def links_ok_def used_def empty_system_def)


definition no_calls :: "unit calls" where
  "no_calls = (\<lambda>_. \<lparr>fc_create = \<lambda>_ w. (0, w), fc_destroy = \<lambda>_ w. w, fc_open = \<lambda>_ w. w, fc_close = \<lambda>_ w. w,
     fc_read = None, fc_write = None\<rparr>)"

lemma first_pipe:
  "\<exists>n fds st. sys_pipe no_calls (\<lambda>_. NoOps) 1 (empty_system ()) = Some (n, fds, st) \<and> fd_ok (\<lambda>_. 0) st"
  by (rule sys_pipe_ok [OF empty_system_ok]) (simp add: empty_system_def)




lemma file_close_links: "file_close C f st = Some st' \<Longrightarrow> sy_links st' = sy_links st"
proof -
  have close: "fops_close C r s = Some s' \<Longrightarrow> sy_links s' = sy_links s" for r s s'
    by (cases "f_ops r") (auto simp: fops_close_def set_pipe_def bind_eq_Some_conv)
  have pipe: "putref_pipe q s = Some s' \<Longrightarrow> sy_links s' = sy_links s" for q s s'
    by (auto simp: putref_pipe_def set_pipe_def bind_eq_Some_conv split: if_splits)
  have destroy: "fops_destroy C r s = Some s' \<Longrightarrow> sy_links s' = sy_links s" for r s s'
    by (cases "f_ops r") (auto simp: fops_destroy_def dest: pipe)
  have put: "putref_file C f s = Some s' \<Longrightarrow> sy_links s' = sy_links s" for s s'
    by (auto simp: putref_file_def file_put_def dirent_put_def set_file_def bind_eq_Some_conv split: if_splits dest!: destroy)
  show "file_close C f st = Some st' \<Longrightarrow> sy_links st' = sy_links st"
    by (auto simp: file_close_def bind_eq_Some_conv dest!: close put)
qed

text \<open>
  C31: \<open>dup2\<close> of a descriptor onto itself stops the kernel, for every open descriptor of every
  user process: its link in \<open>/proc/<pid>/fd\<close> is removed before it is read for the copy.
\<close>

theorem dup2_same_panics:
  assumes "fd_ok Z st" "p \<noteq> 0" "0 \<le> fd" "fd < int MAX_FD" "fd_file (sy_table st (p, nat fd)) \<noteq> NULL"
  shows "sys_dup2 C p fd fd st = None"
proof (rule ccontr)
  assume "sys_dup2 C p fd fd st \<noteq> None"
  then obtain n st' where s: "sys_dup2 C p fd fd st = Some (n, st')" by fastforce
  have inv: "fd_inv (\<lambda>_. 0) (\<lambda>_. 0) (\<lambda>_. 0) Z st" using assms(1) by (simp add: fd_ok_def)
  from inv show False
  proof (cases rule: process_get_file_cases [of _ _ _ _ _ p fd])
    case none
    then show False
      using assms(3,4,5) by (auto simp: process_get_file_def Let_def split: if_splits Option.bind_splits)
  next
    case (live f r s1)
    have "sy_table s1 = sy_table st" using live(7) by (simp add: set_file_def)
    then obtain s2 where ex: "process_exchange_fd C p f fd s1 = Some (f, s2)"
      using s live assms(3,4) unfolding sys_dup2_def process_exchange_fd_def
      by (auto simp: Let_def bind_eq_Some_conv)
    obtain s3 s4 s5 where t: "putref_file C f s2 = Some s3" "process_remove_proc_fd p (nat fd) s3 = Some s4"
      "file_close C f s4 = Some s5" "process_copy_proc_fd p p (nat fd) (nat fd) s5 = Some st'"
      using s live(1,2) assms(3,4) ex unfolding sys_dup2_def by (auto simp: bind_eq_Some_conv)
    have "sy_links s4 (p, nat fd) = None"
      using t(2) assms(2) by (auto simp: process_remove_proc_fd_def split: if_splits)
    moreover have "sy_links s5 = sy_links s4" by (rule file_close_links [OF t(3)])
    ultimately show False using t(4) assms(2) by (simp add: process_copy_proc_fd_def)
  qed
qed

definition one_file :: "unit system" where
  "one_file = (empty_system ())\<lparr>sy_files := [1 \<mapsto> file_init], sy_links := [(1, 0) \<mapsto> ''/''], sy_next := 2,
     sy_table := (\<lambda>s. if s = (1, 0) then \<lparr>fd_file = 1, fd_flags = 0\<rparr> else \<lparr>fd_file = NULL, fd_flags = 0\<rparr>)\<rparr>"

lemma one_file_ok: "fd_ok (\<lambda>_. 0) one_file"
proof -
  have u: "{s. fd_file (sy_table one_file s) = 1} = {(1, 0)}" "used one_file = {(1, 0)}"
    by (auto simp: one_file_def used_def)
  then have "slots (\<lambda>g. g = 1) one_file = 1" by (simp add: slots_def)
  then have "files_ok (\<lambda>_. 0) one_file"
    unfolding files_ok_def u by (auto simp: one_file_def file_init_def split: if_splits)
  moreover have "pipes_ok (\<lambda>_. 0) (\<lambda>_. 0) (\<lambda>_. 0) one_file"
    by (auto simp: pipes_ok_def one_file_def empty_system_def file_init_def split: if_splits)
  moreover have "links_ok one_file" by (auto simp: links_ok_def one_file_def)
  ultimately show ?thesis by (simp add: fd_ok_def fd_inv_def)
qed

theorem dup2_same_panics_witness:
  "fd_file (sy_table one_file (1, 0)) \<noteq> NULL \<and> sys_dup2 no_calls 1 0 0 one_file = None"
proof -
  have t: "fd_file (sy_table one_file (1, nat 0)) \<noteq> NULL" by (simp add: one_file_def)
  show ?thesis using dup2_same_panics [OF one_file_ok _ _ _ t, of no_calls] t by (simp add: MAX_FD_def)
qed


text \<open>A pipe between two processes: process 1 writes, process 2 reads.\<close>

definition one_pipe :: "unit system" where
  "one_pipe = (empty_system ())\<lparr>
     sy_files := [1 \<mapsto> file_init\<lparr>f_ops := PipeOps, f_devdata := 3, f_flags := F_READ\<rparr>,
                  2 \<mapsto> file_init\<lparr>f_ops := PipeOps, f_devdata := 3, f_flags := F_WRITE\<rparr>],
     sy_pipes := [3 \<mapsto> \<lparr>p_refs = 2, p_buf = full_buffer, p_readers = 1, p_writers = 1, p_named = False, p_status_wakes = 0\<rparr>],
     sy_links := [(1, 0) \<mapsto> ''w'', (2, 0) \<mapsto> ''r''], sy_next := 4,
     sy_table := (\<lambda>s. \<lparr>fd_file = (if s = (1, 0) then 2 else if s = (2, 0) then 1 else NULL), fd_flags = 0\<rparr>)\<rparr>"

lemma one_pipe_ends:
  "rd_end q one_pipe g \<longleftrightarrow> q = 3 \<and> g = 1" "wr_end q one_pipe g \<longleftrightarrow> q = 3 \<and> g = 2"
  "pipe_file q one_pipe g \<longleftrightarrow> q = 3 \<and> (g = 1 \<or> g = 2)"
  by (auto simp: rd_end_def wr_end_def pipe_file_def one_pipe_def rd_flags_def wr_flags_def F_READ_def F_WRITE_def)

lemma one_pipe_table:
  "fd_file (sy_table one_pipe s) = (if s = (1, 0) then 2 else if s = (2, 0) then 1 else NULL)"
  by (simp add: one_pipe_def)

lemma one_pipe_fields:
  "sy_files one_pipe = [1 \<mapsto> file_init\<lparr>f_ops := PipeOps, f_devdata := 3, f_flags := F_READ\<rparr>,
                  2 \<mapsto> file_init\<lparr>f_ops := PipeOps, f_devdata := 3, f_flags := F_WRITE\<rparr>]"
  "sy_pipes one_pipe = [3 \<mapsto> \<lparr>p_refs = 2, p_buf = full_buffer, p_readers = 1, p_writers = 1, p_named = False, p_status_wakes = 0\<rparr>]"
  "sy_links one_pipe = [(1, 0) \<mapsto> ''w'', (2, 0) \<mapsto> ''r'']" "sy_next one_pipe = 4"
  by (simp_all add: one_pipe_def)

lemma one_pipe_ok: "fd_ok (\<lambda>_. 0) one_pipe"
proof -
  note t = one_pipe_table
  have c: "{s. fd_file (sy_table one_pipe s) = 1} = {(2, 0)}" "{s. fd_file (sy_table one_pipe s) = 2} = {(1, 0)}"
    "used one_pipe = {(1, 0), (2, 0)}"
    unfolding used_def t by (auto split: if_splits)
  have sl: "slots (\<lambda>g. g = 1) one_pipe = 1" "slots (\<lambda>g. g = 2) one_pipe = 1" using c by (simp_all add: slots_def)
  have "files_ok (\<lambda>_. 0) one_pipe"
    unfolding files_ok_def c using sl by (auto simp: t one_pipe_fields file_init_def split: if_splits)
  moreover have "slots (rd_end 3 one_pipe) one_pipe = 1" "slots (wr_end 3 one_pipe) one_pipe = 1"
    using c by (simp_all add: slots_def one_pipe_ends)
  moreover have "{f. pipe_file 3 one_pipe f} = {1, 2}" by (auto simp: one_pipe_ends)
  ultimately have "pipes_ok (\<lambda>_. 0) (\<lambda>_. 0) (\<lambda>_. 0) one_pipe"
    using full_wf unfolding pipes_ok_def
    by (auto simp: one_pipe_fields file_init_def F_READ_def F_WRITE_def split: if_splits)
  moreover have "links_ok one_pipe" unfolding links_ok_def t by (auto simp: one_pipe_fields)
  ultimately show ?thesis using \<open>files_ok (\<lambda>_. 0) one_pipe\<close> by (simp add: fd_ok_def fd_inv_def)
qed


section \<open>Vectors\<close>

text \<open>
  \<open>writev\<close> to a full pipe in non-blocking mode never returns: the transfer of zero bytes
  does not end its loop.
\<close>

lemma write_full_nonblock:
  assumes "cb_wf cb" "unat (cb_pending cb) = 4096" "\<not> cb_term cb" "v \<noteq> []" "length v < 2 ^ 63" "f AND O_NONBLOCK \<noteq> 0"
  shows "charbuffer_write [] cb v (transfer_flags f) = (cb, Returned 0)"
proof -
  let ?len = "of_nat (length v) :: u64"
  have len: "unat ?len = length v" using assms(5) by (simp add: unat_of_nat64)
  have "unat (write_amount cb ?len) = 0"
    using write_amount_unat [of cb ?len] assms(1,2) by (simp add: cb_wf_def)
  then have a: "0 = write_amount cb ?len" by (simp add: unat_eq_zero)
  have "0 \<noteq> ?len" using len assms(4) by (metis length_0_conv unat_0)
  then have more: "transfer_more 0 ?len (transfer_flags f)" by (simp add: more_any)
  have cb: "cb = write_commit (write_copy cb (take (unat (0 :: u64)) (drop (unat (0 :: u64)) v))) 0"
    by (simp add: write_commit_def write_copy_def)
  show ?thesis
    unfolding charbuffer_write_def write_loop_step [OF more a cb]
    using assms(3,6) more transfer_flags_nonblock [of f] by simp
qed

lemma writev_never_returns:
  assumes "sy_files st f = Some r" "f_ops r = PipeOps" "sy_pipes st (f_devdata r) = Some q" "0 < p_readers q"
    "cb_wf (p_buf q)" "unat (cb_pending (p_buf q)) = 4096" "\<not> cb_term (p_buf q)"
    "f_flags r AND O_NONBLOCK \<noteq> 0" "v \<noteq> []" "length v < 2 ^ 63"
  shows "pwritev_loop C p f off (v # iov) amount st = None"
proof -
  have "charbuffer_write [] (p_buf q) v (transfer_flags (f_flags r)) = (p_buf q, Returned 0)"
    by (rule write_full_nonblock [OF assms(5,6,7,9,10,8)])
  then have "pipe_write [] (f_flags r) v q = (q, Returned 0, False)"
    using assms(4) by (simp add: pipe_write_def)
  moreover have "set_pipe (f_devdata r) q st = st" using assms(3) by (cases st) (auto simp: set_pipe_def)
  ultimately have w: "file_write C [] p f off v st = Some (st, Returned 0)" for off
    using assms(1,2,3) by (simp add: file_write_def)
  have "iov' = v # iov \<longrightarrow> st' = st \<longrightarrow> C' = C \<longrightarrow> p' = p \<longrightarrow> f' = f \<longrightarrow> False"
    if "pwritev_loop C' p' f' off' iov' amount' st' = Some y" for C' p' f' off' iov' amount' st' y
    using that
  proof (rule pwritev_loop.raw_induct [rotated])
    fix g :: "'a calls \<Rightarrow> nat \<Rightarrow> ptr \<Rightarrow> u64 \<Rightarrow> u8 list list \<Rightarrow> int \<Rightarrow> 'a system \<Rightarrow> ('a system \<times> cb_result) option"
      and C' p' f' off' iov' amount' st' y
    assume ih: "\<And>C' p' f' off' iov' amount' st' y. g C' p' f' off' iov' amount' st' = Some y \<Longrightarrow>
        iov' = v # iov \<longrightarrow> st' = st \<longrightarrow> C' = C \<longrightarrow> p' = p \<longrightarrow> f' = f \<longrightarrow> False"
    assume b: "(case iov' of [] \<Rightarrow> Some (st', Returned amount') | v # iov'' \<Rightarrow>
         if v = [] then g C' p' f' off' iov'' amount' st'
         else do { res \<leftarrow> file_write C' [] p' f' off' v st';
           (case snd res of Suspended b \<Rightarrow> Some (fst res, Suspended b)
            | Returned n \<Rightarrow> if n < 0 then Some (fst res, Returned (if amount' = 0 then n else amount'))
                else g C' p' f' (off' + word_of_int n) (drop (nat n) v # iov'') (amount' + n) (fst res)) }) = Some y"
    show "iov' = v # iov \<longrightarrow> st' = st \<longrightarrow> C' = C \<longrightarrow> p' = p \<longrightarrow> f' = f \<longrightarrow> False"
    proof (intro impI)
      assume e: "iov' = v # iov" "st' = st" "C' = C" "p' = p" "f' = f"
      have "g C p f off' (v # iov) amount' st = Some y"
        using b assms(9) w unfolding e by simp
      then show False using ih by blast
    qed
  qed
  then show ?thesis by (cases "pwritev_loop C p f off (v # iov) amount st") blast+
qed

end
