(* ===== verification/Radix.thy ===== *)
theory Radix
  imports Prelude
begin

text \<open>
  Radix trees in physical memory, the shape of the page tables of every architecture the
  kernel supports. Physical memory is a function from the address of an aligned eight-byte
  word to its contents; a table is the array of words at its address. An entry that is zero
  is empty, an entry of the last level or one that \<open>leaf\<close> accepts maps a page, and any other
  holds the address \<open>base\<close> of a table of the next level.

  The locale \<open>radix\<close> is what the page tables of an architecture promise of their tables:
  that the words of two tables are disjoint. Its lemmas say what one store does to the
  translation of every address; the map, unmap and protection operations of the architectures
  are compositions of such stores.
\<close>

type_synonym words = "u64 \<Rightarrow> u64"

definition slot :: "u64 \<Rightarrow> nat \<Rightarrow> u64" where
  "slot t i = t + 8 * of_nat i"

section \<open>Walks and translations\<close>

text \<open>The table a list of indices leads to, and the entry that maps a list of indices with the
  number of levels below it.\<close>

fun walk :: "(u64 \<Rightarrow> bool) \<Rightarrow> (u64 \<Rightarrow> u64) \<Rightarrow> words \<Rightarrow> u64 \<Rightarrow> nat list \<Rightarrow> u64 option" where
  "walk leaf base m t [] = Some t"
| "walk leaf base m t (i # p) =
     (let e = m (slot t i) in if e = 0 \<or> leaf e then None else walk leaf base m (base e) p)"

fun look :: "(u64 \<Rightarrow> bool) \<Rightarrow> (u64 \<Rightarrow> u64) \<Rightarrow> words \<Rightarrow> u64 \<Rightarrow> nat list \<Rightarrow> (u64 \<times> nat) option" where
  "look leaf base m t [] = None"
| "look leaf base m t (i # p) =
     (let e = m (slot t i) in
      if e = 0 then None
      else if p = [] \<or> leaf e then Some (e, length p)
      else look leaf base m (base e) p)"

lemma walk_append:
  "walk leaf base m t (p @ q) = (case walk leaf base m t p of None \<Rightarrow> None | Some u \<Rightarrow> walk leaf base m u q)"
  by (induction p arbitrary: t) (auto simp: Let_def)

lemma look_append:
  "walk leaf base m t p = Some u \<Longrightarrow> q \<noteq> [] \<Longrightarrow> look leaf base m t (p @ q) = look leaf base m u q"
  by (induction p arbitrary: t) (auto simp: Let_def split: if_splits)

lemma look_walk:
  assumes "look leaf base m t p = Some (e, l)"
  shows "l < length p \<and> e \<noteq> 0 \<and> (l = 0 \<or> leaf e) \<and>
    (\<exists>u. walk leaf base m t (take (length p - Suc l) p) = Some u \<and> e = m (slot u (p ! (length p - Suc l))))"
  using assms
proof (induction p arbitrary: t)
  case (Cons i p)
  let ?e = "m (slot t i)"
  show ?case
  proof (cases "p = [] \<or> leaf ?e")
    case True
    then show ?thesis using Cons.prems by (auto simp: Let_def split: if_splits)
  next
    case False
    then have "look leaf base m (base ?e) p = Some (e, l)" "?e \<noteq> 0"
      using Cons.prems by (auto simp: Let_def split: if_splits)
    with Cons.IH [OF this(1)] False obtain u where
      "l < length p" "e \<noteq> 0" "l = 0 \<or> leaf e" "walk leaf base m (base ?e) (take (length p - Suc l) p) = Some u"
      "e = m (slot u (p ! (length p - Suc l)))" by blast
    moreover have "length (i # p) - Suc l = Suc (length p - Suc l)" using \<open>l < length p\<close> by simp
    ultimately show ?thesis using False \<open>?e \<noteq> 0\<close> by (auto simp: Let_def)
  qed
qed simp

section \<open>Trees\<close>

definition in_range :: "nat \<Rightarrow> nat list \<Rightarrow> bool" where
  "in_range N p \<longleftrightarrow> (\<forall>i \<in> set p. i < N)"

lemma in_range_simps [simp]:
  "in_range N []" "in_range N (i # p) \<longleftrightarrow> i < N \<and> in_range N p"
  "in_range N (p @ q) \<longleftrightarrow> in_range N p \<and> in_range N q"
  by (auto simp: in_range_def)

lemma in_range_take: "in_range N p \<Longrightarrow> in_range N (take k p)"
  using set_take_subset [of k p] by (auto simp: in_range_def)

text \<open>The tables of the first \<open>D\<close> levels below a root are frames in use, and no two lists of
  indices lead to the same one.\<close>

definition tree :: "(u64 \<Rightarrow> bool) \<Rightarrow> (u64 \<Rightarrow> u64) \<Rightarrow> nat \<Rightarrow> (u64 \<Rightarrow> bool) \<Rightarrow> nat \<Rightarrow> u64 set \<Rightarrow> words \<Rightarrow> u64 \<Rightarrow> bool" where
  "tree leaf base N frame D A m r \<longleftrightarrow>
     (\<forall>p t. in_range N p \<longrightarrow> length p < D \<longrightarrow> walk leaf base m r p = Some t \<longrightarrow> frame t \<and> t \<in> A) \<and>
     (\<forall>p q t. in_range N p \<longrightarrow> length p < D \<longrightarrow> in_range N q \<longrightarrow> length q < D \<longrightarrow>
        walk leaf base m r p = Some t \<longrightarrow> walk leaf base m r q = Some t \<longrightarrow> p = q)"

locale radix =
  fixes leaf :: "u64 \<Rightarrow> bool"
    and base :: "u64 \<Rightarrow> u64"
    and N :: nat
    and frame :: "u64 \<Rightarrow> bool"
  assumes slot_inj: "frame t \<Longrightarrow> frame u \<Longrightarrow> i < N \<Longrightarrow> j < N \<Longrightarrow> slot t i = slot u j \<Longrightarrow> t = u \<and> i = j"
begin

lemma tree_frame:
  "tree leaf base N frame D A m r \<Longrightarrow> in_range N p \<Longrightarrow> length p < D \<Longrightarrow> walk leaf base m r p = Some t \<Longrightarrow>
    frame t \<and> t \<in> A"
  unfolding tree_def by blast

lemma tree_inj:
  "tree leaf base N frame D A m r \<Longrightarrow> in_range N p \<Longrightarrow> length p < D \<Longrightarrow> in_range N q \<Longrightarrow> length q < D \<Longrightarrow>
    walk leaf base m r p = Some t \<Longrightarrow> walk leaf base m r q = Some t \<Longrightarrow> p = q"
  unfolding tree_def by blast

lemma tree_mono: "tree leaf base N frame D A m r \<Longrightarrow> A \<subseteq> B \<Longrightarrow> tree leaf base N frame D B m r"
  unfolding tree_def by blast

text \<open>Memory that agrees on the tables in use has the same walks and translations.\<close>

lemma agree:
  assumes "\<And>k t. k < length q \<Longrightarrow> walk leaf base m r (take k q) = Some t \<Longrightarrow> m' (slot t (q ! k)) = m (slot t (q ! k))"
  shows "walk leaf base m' r q = walk leaf base m r q \<and> look leaf base m' r q = look leaf base m r q"
  using assms
proof (induction q arbitrary: r)
  case (Cons i q)
  have e: "m' (slot r i) = m (slot r i)" using Cons.prems [of 0 r] by simp
  let ?e = "m (slot r i)"
  show ?case
  proof (cases "?e = 0 \<or> leaf ?e")
    case False
    have "walk leaf base m' (base ?e) q = walk leaf base m (base ?e) q \<and>
      look leaf base m' (base ?e) q = look leaf base m (base ?e) q"
    proof (rule Cons.IH)
      fix k t assume "k < length q" "walk leaf base m (base ?e) (take k q) = Some t"
      then show "m' (slot t (q ! k)) = m (slot t (q ! k))" using Cons.prems [of "Suc k" t] False by simp
    qed
    then show ?thesis using e by (simp add: Let_def)
  qed (auto simp: e Let_def)
qed simp

lemma agree_tree:
  assumes "tree leaf base N frame D A m r" and "\<And>t i. t \<in> A \<Longrightarrow> frame t \<Longrightarrow> i < N \<Longrightarrow> m' (slot t i) = m (slot t i)"
    and "in_range N q" and "length q \<le> D"
  shows "walk leaf base m' r q = walk leaf base m r q \<and> look leaf base m' r q = look leaf base m r q"
proof (rule agree)
  fix k t assume k: "k < length q" "walk leaf base m r (take k q) = Some t"
  then have "frame t" "t \<in> A" using tree_frame [OF assms(1) in_range_take [OF assms(3)], of k t] assms(4) by auto
  moreover have "q ! k < N" using k(1) assms(3) by (auto simp: in_range_def)
  ultimately show "m' (slot t (q ! k)) = m (slot t (q ! k))" using assms(2) by simp
qed

lemma tree_agree:
  assumes "tree leaf base N frame D A m r" and "\<And>t i. t \<in> A \<Longrightarrow> frame t \<Longrightarrow> i < N \<Longrightarrow> m' (slot t i) = m (slot t i)"
  shows "tree leaf base N frame D A m' r"
proof -
  have "walk leaf base m' r q = walk leaf base m r q" if "in_range N q" "length q < D" for q
    using agree_tree [OF assms that(1)] that(2) by simp
  then show ?thesis using assms(1) unfolding tree_def by simp
qed

text \<open>A store that no step of a walk reads does not change it.\<close>

lemma store_other:
  assumes t: "tree leaf base N frame D A m r" and "in_range N q" and "length q \<le> D"
    and "frame u" and "i < N"
    and miss: "\<And>k. k < length q \<Longrightarrow> walk leaf base m r (take k q) = Some u \<Longrightarrow> q ! k \<noteq> i"
  shows "walk leaf base (m(slot u i := v)) r q = walk leaf base m r q \<and>
    look leaf base (m(slot u i := v)) r q = look leaf base m r q"
proof (rule agree)
  fix k t assume k: "k < length q" "walk leaf base m r (take k q) = Some t"
  then have "frame t" using tree_frame [OF t in_range_take [OF assms(2)], of k] assms(3) by auto
  moreover have "q ! k < N" using k(1) assms(2) by (auto simp: in_range_def)
  ultimately have "slot t (q ! k) \<noteq> slot u i" using slot_inj assms(4,5) miss k by metis
  then show "(m(slot u i := v)) (slot t (q ! k)) = m (slot t (q ! k))" by simp
qed

text \<open>Only the walks through the entry that is stored see the store.\<close>

lemma store_miss:
  assumes t: "tree leaf base N frame D A m r" and p: "in_range N p" "length p < D" "walk leaf base m r p = Some u"
    and i: "i < N" and q: "in_range N q" "length q \<le> D" and ne: "take (Suc (length p)) q \<noteq> p @ [i]"
  shows "walk leaf base (m(slot u i := v)) r q = walk leaf base m r q \<and>
    look leaf base (m(slot u i := v)) r q = look leaf base m r q"
proof (rule store_other [OF t q _ i])
  show "frame u" using tree_frame [OF t p] by blast
  fix k assume k: "k < length q" "walk leaf base m r (take k q) = Some u"
  then have "take k q = p" using tree_inj [OF t in_range_take [OF q(1)] _ p(1,2)] p(3) q(2) by simp
  moreover have "k = length p" using k(1) calculation by auto
  ultimately show "q ! k \<noteq> i" using ne k(1) by (metis take_Suc_conv_app_nth)
qed

text \<open>Storing a leaf (or clearing an entry) where there was no table.\<close>

lemma store_leaf:
  assumes t: "tree leaf base N frame D A m r" and p: "in_range N p" "length p < D" "walk leaf base m r p = Some u"
    and i: "i < N" and old: "Suc (length p) = D \<or> m (slot u i) = 0 \<or> leaf (m (slot u i))"
    and new: "Suc (length p) = D \<or> v = 0 \<or> leaf v"
  shows "tree leaf base N frame D A (m(slot u i := v)) r"
    and "in_range N q \<Longrightarrow> length q < D \<Longrightarrow> walk leaf base (m(slot u i := v)) r q = walk leaf base m r q"
    and "in_range N q \<Longrightarrow> length q = D \<Longrightarrow> look leaf base (m(slot u i := v)) r q =
      (if take (Suc (length p)) q = p @ [i] then if v = 0 then None else Some (v, D - Suc (length p))
       else look leaf base m r q)"
proof -
  let ?m = "m(slot u i := v)"
  have same: "walk leaf base ?m r p = Some u" using store_miss [OF t p i p(1)] p by simp
  have w: "walk leaf base ?m r q = walk leaf base m r q" if q: "in_range N q" "length q < D" for q
  proof (cases "take (Suc (length p)) q = p @ [i]")
    case True
    define s where "s = drop (Suc (length p)) q"
    have qe: "q = p @ i # s" using True append_take_drop_id [of "Suc (length p)" q] by (simp add: s_def)
    then have "Suc (length p) \<noteq> D" using q(2) by auto
    then show ?thesis unfolding qe using old new same p(3) by (auto simp: walk_append Let_def)
  next
    case False
    then show ?thesis using store_miss [OF t p i q(1)] q(2) by simp
  qed
  then show "in_range N q \<Longrightarrow> length q < D \<Longrightarrow> walk leaf base ?m r q = walk leaf base m r q" .
  show "tree leaf base N frame D A ?m r" using t w unfolding tree_def by simp
  show "look leaf base ?m r q =
      (if take (Suc (length p)) q = p @ [i] then if v = 0 then None else Some (v, D - Suc (length p))
       else look leaf base m r q)" if q: "in_range N q" "length q = D"
  proof (cases "take (Suc (length p)) q = p @ [i]")
    case True
    define s where "s = drop (Suc (length p)) q"
    have qe: "q = p @ i # s" using True append_take_drop_id [of "Suc (length p)" q] by (simp add: s_def)
    then have l: "length s = D - Suc (length p)" using q(2) by auto
    have "look leaf base ?m r (p @ i # s) = look leaf base ?m u (i # s)" using look_append [OF same] by simp
    then show ?thesis using True l new unfolding qe by (auto simp: Let_def)
  next
    case False
    then show ?thesis using store_miss [OF t p i q(1)] q(2) by simp
  qed
qed

text \<open>Storing the address of a fresh, empty table.\<close>

lemma store_table:
  assumes t: "tree leaf base N frame D A m r" and p: "in_range N p" "Suc (length p) < D" "walk leaf base m r p = Some u"
    and i: "i < N" and old: "m (slot u i) = 0" and v: "v \<noteq> 0" "\<not> leaf v" "base v = w"
    and fresh: "frame w" "w \<notin> A" "\<And>j. j < N \<Longrightarrow> m (slot w j) = 0"
  shows "tree leaf base N frame D (insert w A) (m(slot u i := v)) r"
    and "in_range N q \<Longrightarrow> length q < D \<Longrightarrow> walk leaf base (m(slot u i := v)) r q =
      (if q = p @ [i] then Some w else walk leaf base m r q)"
    and "in_range N q \<Longrightarrow> length q = D \<Longrightarrow> look leaf base (m(slot u i := v)) r q = look leaf base m r q"
proof -
  let ?m = "m(slot u i := v)"
  have pD: "length p < D" using p(2) by simp
  have u: "frame u" "u \<in> A" using tree_frame [OF t p(1) pD p(3)] by auto
  have same: "walk leaf base ?m r p = Some u" using store_miss [OF t p(1) pD p(3) i p(1)] p by simp
  have z: "?m (slot w j) = 0" if "j < N" for j
    using slot_inj [OF fresh(1) u(1) that i] u(2) fresh that by auto
  have w: "walk leaf base ?m r q = (if q = p @ [i] then Some w else walk leaf base m r q)"
    if q: "in_range N q" "length q < D" for q
  proof (cases "take (Suc (length p)) q = p @ [i]")
    case True
    define s where "s = drop (Suc (length p)) q"
    have qe: "q = p @ i # s" using True append_take_drop_id [of "Suc (length p)" q] by (simp add: s_def)
    have "walk leaf base ?m r q = walk leaf base ?m w s" unfolding qe using same v by (simp add: walk_append)
    moreover have "walk leaf base m r q = None" unfolding qe using old p(3) by (simp add: walk_append)
    moreover have "walk leaf base ?m w s = (if s = [] then Some w else None)"
      using z q(1) by (cases s) (auto simp: qe Let_def)
    ultimately show ?thesis by (simp add: qe)
  next
    case False
    then show ?thesis using store_miss [OF t p(1) pD p(3) i q(1)] q(2) by auto
  qed
  then show "in_range N q \<Longrightarrow> length q < D \<Longrightarrow> walk leaf base ?m r q =
      (if q = p @ [i] then Some w else walk leaf base m r q)" .
  have "walk leaf base m r q \<noteq> Some w" if "in_range N q" "length q < D" for q
    using tree_frame [OF t that] fresh(2) by blast
  then show "tree leaf base N frame D (insert w A) ?m r"
    using t w fresh(1) unfolding tree_def by (auto split: if_splits)
  show "look leaf base ?m r q = look leaf base m r q" if q: "in_range N q" "length q = D"
  proof (cases "take (Suc (length p)) q = p @ [i]")
    case True
    define s where "s = drop (Suc (length p)) q"
    have qe: "q = p @ i # s" using True append_take_drop_id [of "Suc (length p)" q] by (simp add: s_def)
    then have "s \<noteq> []" using q(2) p(2) by auto
    then obtain j s' where s: "s = j # s'" by (cases s) auto
    have "look leaf base ?m r q = look leaf base ?m u (i # s)" unfolding qe using look_append [OF same] by simp
    also have "\<dots> = None" using v z q(1) by (simp add: s qe Let_def)
    finally show ?thesis unfolding qe using look_append [OF p(3), of "i # s"] old by simp
  next
    case False
    then show ?thesis using store_miss [OF t p(1) pD p(3) i q(1)] q(2) by simp
  qed
qed

end

end
