(* ===== verification/PhysMem.thy ===== *)
theory PhysMem
  imports Buddy Radix
begin

text \<open>
  Physical memory as \<open>kernel/mmu.c\<close> hands it out on the x86-64 machine: a bump allocator until
  \<open>mm_init\<close> has set up the buddy allocator, and the buddy allocator of \<open>Buddy\<close> from then on.
  The contents of memory are read and written through the mapping at \<open>PHYS_MAP_START\<close>, so an
  address here is a physical one. A panic is None.
\<close>

section \<open>Page sizes (arch/x86_64/include/arch-mmu.h, include/mmu.h)\<close>

definition MMU_NUM_PAGESIZE_LEVELS :: nat where "MMU_NUM_PAGESIZE_LEVELS = 2"

definition arch_mm_page_size :: "nat \<Rightarrow> u64" where
  "arch_mm_page_size level =
    (if level = 0 then 0x1000
     else if level = 1 then 2 * 1024 * 1024
     else 1024 * 1024 * 1024)"

definition page_mask :: "nat \<Rightarrow> u64" where
  "page_mask l = NOT (arch_mm_page_size l - 1)"

text \<open>The loop of \<open>mm_get_pagelevel\<close>, for \<open>i\<close> from its argument less one down to 0.\<close>

fun pagelevel_loop :: "nat \<Rightarrow> u64 \<Rightarrow> nat" where
  "pagelevel_loop 0 len = 0"
| "pagelevel_loop (Suc i) len = (if arch_mm_page_size i \<le> len then i else pagelevel_loop i len)"

definition mm_get_pagelevel :: "u64 \<Rightarrow> nat" where
  "mm_get_pagelevel len = pagelevel_loop MMU_NUM_PAGESIZE_LEVELS len"

section \<open>Allocation (kernel/mmu.c)\<close>

text \<open>The list holds the addresses whose translations were invalidated on every processor,
  the latest first.\<close>

record physmem =
  pm_early :: bool
  pm_start :: u64
  pm_buddy :: buddy
  pm_words :: words
  pm_invalidated :: "u64 list"

definition pmm_early_alloc :: "u64 \<Rightarrow> physmem \<Rightarrow> u64 \<times> physmem" where
  "pmm_early_alloc sz mm =
    (let sz = ((sz - 1) AND NOT (arch_mm_page_size 0 - 1)) + arch_mm_page_size 0;
         ret = pm_start mm
     in (ret, mm\<lparr>pm_start := pm_start mm + sz\<rparr>))"

text \<open>\<open>memset\<close> over whole words.\<close>

definition clear_words :: "u64 \<Rightarrow> u64 \<Rightarrow> words \<Rightarrow> words" where
  "clear_words a len m = (\<lambda>x. if x - a < len then 0 else m x)"

definition mm_physical_allocate :: "u64 \<Rightarrow> bool \<Rightarrow> physmem \<Rightarrow> (u64 \<times> physmem) option" where
  "mm_physical_allocate len clear mm = do {
     (ret, mm) \<leftarrow>
       (if pm_early mm then Some (pmm_early_alloc len mm)
        else do {
          (a, b) \<leftarrow> pmm_buddy_allocate (unat len) (pm_buddy mm);
          Some (of_nat a, mm\<lparr>pm_buddy := b\<rparr>) });
     Some (ret, if clear then mm\<lparr>pm_words := clear_words ret len (pm_words mm)\<rparr> else mm) }"

definition mm_physical_deallocate :: "u64 \<Rightarrow> physmem \<Rightarrow> physmem option" where
  "mm_physical_deallocate address mm =
    (if \<not> pm_early mm then do {
       b \<leftarrow> pmm_buddy_deallocate (unat address) (pm_buddy mm);
       Some (mm\<lparr>pm_buddy := b\<rparr>) }
     else Some mm)"

section \<open>Frames\<close>

text \<open>An aligned page below \<open>2 ^ 63\<close>, which is what an entry of a page table can hold.\<close>

definition frame :: "u64 \<Rightarrow> bool" where
  "frame a \<longleftrightarrow> a AND 0x7FFFFFFFFFFFF000 = a"

lemma frame_iff: "frame a \<longleftrightarrow> (\<exists>k < 2 ^ 51. a = of_nat (4096 * k))"
proof
  assume f: "frame a"
  have "take_bit 12 a = take_bit 12 (a AND 0x7FFFFFFFFFFFF000)" using f by (simp add: frame_def)
  also have "\<dots> = a AND take_bit 12 0x7FFFFFFFFFFFF000" by (simp add: take_bit_eq_mask ac_simps)
  also have "take_bit 12 (0x7FFFFFFFFFFFF000 :: u64) = 0" by (simp add: take_bit_eq_mask mask_numeral)
  finally have "take_bit 12 a = 0" by simp
  then have "take_bit 12 (unat a) = 0" by (simp only: unsigned_take_bit_eq [symmetric] unsigned_0)
  then have d: "unat a mod 4096 = 0" by (simp add: take_bit_eq_mod)
  have "a \<le> 0x7FFFFFFFFFFFF000" using f word_and_le1 [of a "0x7FFFFFFFFFFFF000"] by (simp add: frame_def)
  then have "unat a \<le> unat (0x7FFFFFFFFFFFF000 :: u64)" by (simp only: word_le_nat_alt)
  then have l: "unat a \<le> 0x7FFFFFFFFFFFF000" by simp
  have "4096 * (unat a div 4096) = unat a" using d by auto
  moreover have "unat a div 4096 < 2 ^ 51" using l by simp
  ultimately show "\<exists>k < 2 ^ 51. a = of_nat (4096 * k)" by (metis of_nat_unat ucast_id)
next
  assume "\<exists>k < 2 ^ 51. a = of_nat (4096 * k)"
  then obtain k where k: "k < 2 ^ 51" "a = of_nat (4096 * k)" by blast
  have a: "a = push_bit 12 (of_nat k)" using k(2) by (simp add: push_bit_eq_mult)
  have b: "\<not> bit (of_nat k :: u64) n" if "51 \<le> n" for n
  proof -
    have "k < 2 ^ n" using k(1) that by (meson less_le_trans one_le_numeral power_increasing)
    then have "\<not> bit k n" by (metis bit_take_bit_iff less_irrefl take_bit_nat_eq_self)
    then show ?thesis by (simp add: bit_of_nat_iff)
  qed
  have e: "(0x7FFFFFFFFFFFF000 :: u64) = push_bit 12 (mask 51)" by (simp add: mask_numeral push_bit_eq_mult)
  have "push_bit 12 (of_nat k :: u64) AND push_bit 12 (mask 51) = (push_bit 12 (of_nat k) :: u64)"
  proof (rule bit_word_eqI)
    fix n
    show "bit (push_bit 12 (of_nat k :: u64) AND push_bit 12 (mask 51)) n = bit (push_bit 12 (of_nat k) :: u64) n"
      using b [of "n - 12"] by (cases "n - 12 < 51") (auto simp: bit_and_iff bit_push_bit_iff bit_mask_iff)
  qed
  then show "frame a" unfolding frame_def a e by simp
qed

lemma frame_unat: "frame a \<Longrightarrow> \<exists>k < 2 ^ 51. unat a = 4096 * k"
  using frame_iff [of a] by (auto simp: unat_of_nat64 simp del: of_nat_mult)

lemma slot_unat: "frame t \<Longrightarrow> i < 512 \<Longrightarrow> unat (slot t i) = unat t + 8 * i"
proof -
  assume f: "frame t" and i: "i < 512"
  obtain k where k: "k < 2 ^ 51" "unat t = 4096 * k" using frame_unat [OF f] by blast
  have "slot t i = of_nat (4096 * k + 8 * i)" using k(2) by (simp add: slot_def flip: k(2))
  then show ?thesis using k i by (simp add: unat_of_nat64 del: of_nat_add of_nat_mult)
qed

lemma page_split: "4096 * k + d = 4096 * l + e \<Longrightarrow> d < 4096 \<Longrightarrow> e < 4096 \<Longrightarrow> k = l \<and> d = (e :: nat)"
proof -
  assume e: "4096 * k + d = 4096 * l + e" "d < 4096" "e < 4096"
  have "k = (4096 * k + d) div 4096" using e(2) by simp
  also have "\<dots> = l" unfolding e(1) using e(3) by simp
  finally show ?thesis using e(1) by simp
qed

lemma slot_unique:
  assumes "frame t" "frame u" "i < 512" "j < 512" "slot t i = slot u j"
  shows "t = u \<and> i = j"
proof -
  obtain k l where kl: "unat t = 4096 * k" "unat u = 4096 * l"
    using frame_unat [OF assms(1)] frame_unat [OF assms(2)] by blast
  have "4096 * k + 8 * i = 4096 * l + 8 * j"
    using slot_unat [OF assms(1,3)] slot_unat [OF assms(2,4)] assms(5) kl by simp
  from page_split [OF this] have "k = l \<and> i = j" using assms(3,4) by simp
  then show ?thesis using kl by (metis word_unat_eq_iff)
qed

text \<open>The page that starts at a frame holds the words of no other table.\<close>

lemma slot_outside:
  assumes "frame t" "frame a" "i < 512" "t \<noteq> a"
  shows "\<not> slot t i - a < 0x1000"
proof
  assume l: "slot t i - a < 0x1000"
  obtain k l where kl: "unat t = 4096 * k" "unat a = 4096 * l" "k < 2 ^ 51" "l < 2 ^ 51"
    using frame_unat [OF assms(1)] frame_unat [OF assms(2)] by blast
  define d where "d = unat (slot t i - a)"
  have d: "d < 4096" using l by (simp add: d_def word_less_nat_alt)
  have "slot t i = a + of_nat d" by (simp add: d_def)
  also have "\<dots> = of_nat (4096 * l + d)" by (simp flip: kl(2))
  finally have "unat (slot t i) = 4096 * l + d" using d kl(4) by (simp add: unat_of_nat64 del: of_nat_add of_nat_mult)
  then have "4096 * k + 8 * i = 4096 * l + d" using slot_unat [OF assms(1,3)] kl(1) by simp
  from page_split [OF this _ d] have "k = l" using assms(3) by simp
  then show False using assms(4) kl by (metis word_unat_eq_iff)
qed

lemma slot_inside:
  assumes "frame t" "i < 512"
  shows "slot t i - t < 0x1000"
proof -
  have "slot t i - t = of_nat (8 * i)" by (simp add: slot_def)
  then show ?thesis using assms by (simp add: word_less_nat_alt unat_of_nat64 del: of_nat_mult)
qed

section \<open>The allocator\<close>

text \<open>The pages that are taken, and how many more can be had.\<close>

definition pm_inv :: "physmem \<Rightarrow> bool" where
  "pm_inv mm \<longleftrightarrow> (if pm_early mm then frame (pm_start mm) else bd_inv (pm_buddy mm))"

definition taken :: "physmem \<Rightarrow> u64 set" where
  "taken mm = {a. if pm_early mm then a < pm_start mm else \<exists>c. allocd (pm_buddy mm) c \<and> unat a \<in> extent c}"

text \<open>The single pages that are allocated.\<close>

definition pages :: "physmem \<Rightarrow> u64 set" where
  "pages mm = {a. frame a \<and> \<not> pm_early mm \<and> allocd (pm_buddy mm) (0, unat a div 4096)}"

fun bd_room :: "nat \<Rightarrow> buddy \<Rightarrow> bool" where
  "bd_room 0 s = True"
| "bd_room (Suc n) s = (case pmm_buddy_allocate 0x1000 s of None \<Rightarrow> False | Some (a, s') \<Rightarrow> bd_room n s')"

definition pm_room :: "nat \<Rightarrow> physmem \<Rightarrow> bool" where
  "pm_room n mm \<longleftrightarrow> (if pm_early mm then unat (pm_start mm) + 4096 * n < 2 ^ 63 else bd_room n (pm_buddy mm))"

lemma pm_words_simps [simp]:
  "pm_inv (mm\<lparr>pm_words := m\<rparr>) = pm_inv mm" "taken (mm\<lparr>pm_words := m\<rparr>) = taken mm"
  "pm_room n (mm\<lparr>pm_words := m\<rparr>) = pm_room n mm"
  "pm_inv (mm\<lparr>pm_invalidated := l\<rparr>) = pm_inv mm" "taken (mm\<lparr>pm_invalidated := l\<rparr>) = taken mm"
  "pm_room n (mm\<lparr>pm_invalidated := l\<rparr>) = pm_room n mm"
  "pages (mm\<lparr>pm_words := m\<rparr>) = pages mm" "pages (mm\<lparr>pm_invalidated := l\<rparr>) = pages mm"
  by (simp_all add: pm_inv_def taken_def pm_room_def pages_def)

lemma bd_room_le: "bd_room n s \<Longrightarrow> m \<le> n \<Longrightarrow> bd_room m s"
proof (induction n arbitrary: m s)
  case (Suc n)
  then show ?case by (cases m) (auto split: option.splits)
qed simp

lemma pm_room_le: "pm_room n mm \<Longrightarrow> m \<le> n \<Longrightarrow> pm_room m mm"
  using bd_room_le by (auto simp: pm_room_def)

lemma bsz_0: "bsz 0 = 4096" by (simp add: bsz_def MIN_SIZE_def)

lemma buddy_page:
  assumes inv: "bd_inv s" and r: "pmm_buddy_allocate 0x1000 s = Some (a, s')"
  shows "\<exists>i < 2 ^ 21. a = i * 4096 \<and> bd_inv s' \<and> (\<forall>c. allocd s c \<longrightarrow> extent (0, i) \<inter> extent c = {}) \<and>
    (\<forall>c. allocd s' c \<longleftrightarrow> allocd s c \<or> c = (0, i))"
proof -
  have h: "has_free s 0"
  proof (rule ccontr)
    assume "\<not> has_free s 0"
    then have "\<forall>k' \<ge> 0. bd_freelists s k' = []"
      using bd_invD(4) [OF inv] unfolding has_free_def by (metis le0 le_less_Suc_eq not_less_eq_eq Suc_numeral semiring_norm(5))
    then have "do_pmm_buddy_allocate (bsz 0) s = None" using alloc_fails [OF bd_invD(1) [OF inv], of 0] by simp
    then show False using r by (simp add: pmm_buddy_allocate_def bsz_0)
  qed
  then have e: "0 \<le> (18 :: nat) \<and> has_free s 0" by simp
  obtain b t where b: "alloc_block 0 s = Some (b, t)" "bd_inv t" "\<forall>c. allocd s c \<longrightarrow> extent b \<inter> extent c = {}"
    "\<forall>c. allocd t c \<longleftrightarrow> allocd s c \<or> c = b" using ba.alloc_apart [OF inv e] by blast
  have b': "b = (0, a div 4096)" "t = s'" using b(1) r by (auto simp: alloc_block_def bsz_0)
  obtain i u where u: "do_pmm_buddy_allocate (bsz 0) s = Some (i * bsz 0, u)" "valid 0 i"
    using alloc_ok [OF inv, of 0] h by (auto simp: has_free_def)
  then have "a = i * 4096" using r by (simp add: pmm_buddy_allocate_def bsz_0)
  moreover have "i < 2 ^ 21" using u(2) by (simp add: valid_def nb_def)
  ultimately show ?thesis using b b' by auto
qed

lemma frame_extent:
  assumes "frame a" "frame b" "unat a \<in> extent (0, unat b div 4096)"
  shows "a = b"
proof -
  obtain k l where kl: "unat a = 4096 * k" "unat b = 4096 * l" using frame_unat assms(1,2) by metis
  then have "k = l" using assms(3) by (simp add: extent_def bsz_0)
  then show ?thesis using kl by (metis word_unat_eq_iff)
qed

lemma in_extent: "unat a \<in> extent (0, unat a div 4096)"
proof -
  have "n div 4096 * 4096 \<le> n \<and> n < (n div 4096 + 1) * 4096" for n :: nat
    using div_mult_mod_eq [of n 4096] mod_less_divisor [of 4096 n] by (simp add: algebra_simps)
  then show ?thesis by (simp add: extent_def bsz_0)
qed

lemma pages_frame: "a \<in> pages mm \<Longrightarrow> frame a" and pages_taken: "pages mm \<subseteq> taken mm"
proof -
  show "a \<in> pages mm \<Longrightarrow> frame a" by (simp add: pages_def)
  show "pages mm \<subseteq> taken mm" using in_extent by (auto simp: pages_def taken_def)
qed

text \<open>A page that is allocated was not taken, and is zero.\<close>

lemma page_allocate:
  assumes inv: "pm_inv mm" and room: "pm_room (Suc n) mm"
  shows "\<exists>a mm'. mm_physical_allocate 0x1000 True mm = Some (a, mm') \<and> frame a \<and> a \<notin> taken mm \<and>
    insert a (taken mm) \<subseteq> taken mm' \<and> pm_inv mm' \<and> pm_room n mm' \<and> pm_early mm' = pm_early mm \<and>
    pages mm' = (if pm_early mm then {} else insert a (pages mm)) \<and> pm_words mm' = clear_words a 0x1000 (pm_words mm) \<and> pm_invalidated mm' = pm_invalidated mm"
proof (cases "pm_early mm")
  case True
  obtain k where k: "k < 2 ^ 51" "pm_start mm = of_nat (4096 * k)" using inv True frame_iff by (auto simp: pm_inv_def)
  have u: "unat (pm_start mm) = 4096 * k" using k by (simp add: unat_of_nat64 del: of_nat_mult)
  have k1: "k + 1 < 2 ^ 51" "4096 * k + 4096 * Suc n < 2 ^ 63" using room True u by (simp_all add: pm_room_def)
  have e: "pm_start mm + 0x1000 = of_nat (4096 * (k + 1))" by (simp add: k(2))
  have f: "frame (pm_start mm + 0x1000)" unfolding frame_iff using k1(1) e by blast
  have u': "unat (pm_start mm + 0x1000) = 4096 * (k + 1)" unfolding e using unat_of_nat64 [of "4096 * (k + 1)"] k1(1) by simp
  have s: "((0x1000 - 1) AND NOT (arch_mm_page_size 0 - 1)) + arch_mm_page_size 0 = 0x1000"
    by (simp add: arch_mm_page_size_def)
  have "mm_physical_allocate 0x1000 True mm = Some (pm_start mm, mm\<lparr>pm_start := pm_start mm + 0x1000,
      pm_words := clear_words (pm_start mm) 0x1000 (pm_words mm)\<rparr>)"
    using True s by (simp add: mm_physical_allocate_def pmm_early_alloc_def)
  moreover have "insert (pm_start mm) (taken mm) \<subseteq> taken (mm\<lparr>pm_start := pm_start mm + 0x1000\<rparr>)"
    using True u u' by (auto simp: taken_def word_less_nat_alt)
  moreover have "pm_room n (mm\<lparr>pm_start := pm_start mm + 0x1000\<rparr>)" using True u' k1(2) by (simp add: pm_room_def)
  moreover have "pages (mm\<lparr>pm_start := pm_start mm + 0x1000\<rparr>) = {}" using True by (simp add: pages_def)
  ultimately show ?thesis using True f inv by (auto simp: pm_inv_def taken_def)
next
  case False
  obtain a s' where a: "pmm_buddy_allocate 0x1000 (pm_buddy mm) = Some (a, s')" "bd_room n s'"
    using room False by (auto simp: pm_room_def split: option.splits)
  obtain i where i: "i < 2 ^ 21" "a = i * 4096" "bd_inv s'"
    "\<forall>c. allocd (pm_buddy mm) c \<longrightarrow> extent (0, i) \<inter> extent c = {}"
    "\<forall>c. allocd s' c \<longleftrightarrow> allocd (pm_buddy mm) c \<or> c = (0, i)"
    using buddy_page [OF _ a(1)] inv False by (auto simp: pm_inv_def)
  have f: "frame (of_nat a)" unfolding frame_iff using i(1,2) by (intro exI [of _ i]) (simp add: mult.commute)
  have u: "unat (of_nat a :: u64) = a" using i(1,2) by (simp add: unat_of_nat64 del: of_nat_mult)
  have x: "a \<in> extent (0, i)" using i(2) by (simp add: extent_def bsz_0)
  have "mm_physical_allocate 0x1000 True mm = Some (of_nat a, mm\<lparr>pm_buddy := s',
      pm_words := clear_words (of_nat a) 0x1000 (pm_words mm)\<rparr>)"
    using False a(1) by (simp add: mm_physical_allocate_def)
  moreover have "insert (of_nat a) (taken mm) \<subseteq> taken (mm\<lparr>pm_buddy := s'\<rparr>)"
    using False u x i(5) by (auto simp: taken_def)
  moreover have "of_nat a \<notin> taken mm" using False u x i(4) by (auto simp: taken_def)
  moreover have "pages (mm\<lparr>pm_buddy := s'\<rparr>) = insert (of_nat a) (pages mm)"
  proof -
    have "unat b div 4096 = i \<longleftrightarrow> b = of_nat a" if fb: "frame b" for b
    proof
      assume "unat b div 4096 = i"
      moreover obtain l where "unat b = 4096 * l" using frame_unat [OF fb] by blast
      ultimately have "unat b = a" using i(2) by simp
      then show "b = of_nat a" by (metis u word_unat_eq_iff)
    next
      assume "b = of_nat a"
      then have "unat b = i * 4096" using u i(2) by simp
      then show "unat b div 4096 = i" by simp
    qed
    then show ?thesis using False f i(5) by (auto simp: pages_def)
  qed
  ultimately show ?thesis using False f i(3) a(2) by (auto simp: pm_inv_def pm_room_def)
qed

text \<open>Giving a page back makes exactly that page available.\<close>

lemma page_free:
  assumes inv: "pm_inv mm" and a: "a \<in> pages mm"
  shows "\<exists>mm'. mm_physical_deallocate a mm = Some mm' \<and> pm_inv mm' \<and> pages mm' = pages mm - {a} \<and>
    (\<forall>t. frame t \<longrightarrow> t \<in> taken mm' \<longleftrightarrow> t \<in> taken mm \<and> t \<noteq> a) \<and> pm_words mm' = pm_words mm \<and>
    pm_early mm' = pm_early mm"
proof -
  let ?i = "unat a div 4096"
  have e: "\<not> pm_early mm" "frame a" "allocd (pm_buddy mm) (0, ?i)" using a by (simp_all add: pages_def)
  have bi: "bd_inv (pm_buddy mm)" using inv e(1) by (simp add: pm_inv_def)
  obtain l where l: "unat a = 4096 * l" using frame_unat [OF e(2)] by blast
  obtain s' where s: "free_block (0, ?i) (pm_buddy mm) = Some s'" "bd_inv s'"
    "\<forall>c. allocd s' c \<longleftrightarrow> allocd (pm_buddy mm) c \<and> c \<noteq> (0, ?i)" using ba.free [OF bi e(3)] by blast
  have "mm_physical_deallocate a mm = Some (mm\<lparr>pm_buddy := s'\<rparr>)"
    using s(1) e(1) l by (simp add: mm_physical_deallocate_def free_block_def bsz_0 mult.commute)
  moreover have "unat b div 4096 = ?i \<longleftrightarrow> b = a" if "frame b" for b
    using frame_unat [OF that] l by (metis nonzero_mult_div_cancel_left word_unat_eq_iff zero_neq_numeral)
  then have "pages (mm\<lparr>pm_buddy := s'\<rparr>) = pages mm - {a}" using s(3) by (auto simp: pages_def)
  moreover have "t \<in> taken (mm\<lparr>pm_buddy := s'\<rparr>) \<longleftrightarrow> t \<in> taken mm \<and> t \<noteq> a" if t: "frame t" for t
  proof -
    have "c = (0, ?i) \<longleftrightarrow> t = a" if "allocd (pm_buddy mm) c" "unat t \<in> extent c" for c
      using that ba.apart [OF bi that(1) e(3)] frame_extent [OF t e(2)] in_extent [of a] by blast
    then have "(\<exists>c. allocd s' c \<and> unat t \<in> extent c) \<longleftrightarrow> (\<exists>c. allocd (pm_buddy mm) c \<and> unat t \<in> extent c) \<and> t \<noteq> a"
      using s(3) by metis
    then show ?thesis using e(1) by (simp add: taken_def)
  qed
  ultimately show ?thesis using s(2) e(1) by (auto simp: pm_inv_def)
qed

end
