(* ===== verification/X86Paging.thy ===== *)
theory X86Paging
  imports PhysMem
begin

text \<open>
  The page tables of \<open>arch/x86_64/kernel/mmu.c\<close>: four levels of tables of 512 entries, pages of
  4 KiB, 2 MiB and 1 GiB, in the physical memory of \<open>PhysMem\<close>, which also provides the frames of
  new tables. An address space is the translation it gives to virtual addresses, and the
  operations are shown to be updates of that partial function. An invalidation of the
  translation caches, on this and the other processors, is recorded in the memory state.
\<close>

section \<open>Entries (arch/x86_64/include/arch-mmu.h, include/mmu.h)\<close>

definition MMU_PTE_GLOBAL :: u64 where "MMU_PTE_GLOBAL = push_bit 8 1"
definition MMU_PTE_LARGE :: u64 where "MMU_PTE_LARGE = push_bit 7 1"
definition MMU_PTE_DIRTY :: u64 where "MMU_PTE_DIRTY = push_bit 6 1"
definition MMU_PTE_ACCESSED :: u64 where "MMU_PTE_ACCESSED = push_bit 5 1"
definition MMU_PTE_NOCACHE :: u64 where "MMU_PTE_NOCACHE = push_bit 4 1"
definition MMU_PTE_WRITETHR :: u64 where "MMU_PTE_WRITETHR = push_bit 3 1"
definition MMU_PTE_USER :: u64 where "MMU_PTE_USER = push_bit 2 1"
definition MMU_PTE_WRITE :: u64 where "MMU_PTE_WRITE = push_bit 1 1"
definition MMU_PTE_PRESENT :: u64 where "MMU_PTE_PRESENT = push_bit 0 1"
definition MMU_PTE_NOEXEC :: u64 where "MMU_PTE_NOEXEC = push_bit 63 1"
definition MMU_PTE_PHYS_MASK :: u64 where "MMU_PTE_PHYS_MASK = 0x7FFFFFFFFFFFF000"

definition MAP_DEVICE :: u32 where "MAP_DEVICE = 0x2"
definition MAP_USER :: u32 where "MAP_USER = 0x4"
definition MAP_WRITE :: u32 where "MAP_WRITE = 0x8"
definition MAP_PRIVATE :: u32 where "MAP_PRIVATE = 0x10"
definition MAP_ACCESSED :: u32 where "MAP_ACCESSED = 0x20"
definition MAP_EXECUTE :: u32 where "MAP_EXECUTE = 0x40"
definition MAP_DIRTY :: u32 where "MAP_DIRTY = 0x80"

lemmas pte_defs = MMU_PTE_GLOBAL_def MMU_PTE_LARGE_def MMU_PTE_DIRTY_def MMU_PTE_ACCESSED_def
  MMU_PTE_NOCACHE_def MMU_PTE_WRITETHR_def MMU_PTE_USER_def MMU_PTE_WRITE_def MMU_PTE_PRESENT_def
  MMU_PTE_NOEXEC_def MMU_PTE_PHYS_MASK_def

lemmas map_defs = MAP_DEVICE_def MAP_USER_def MAP_WRITE_def MAP_PRIVATE_def MAP_ACCESSED_def
  MAP_EXECUTE_def MAP_DIRTY_def

record vm_context =
  pml4_phys :: u64

definition PML4_IDX :: "u64 \<Rightarrow> nat" where "PML4_IDX v = unat (drop_bit 39 v AND 0x1FF)"
definition PDPT_IDX :: "u64 \<Rightarrow> nat" where "PDPT_IDX v = unat (drop_bit 30 v AND 0x1FF)"
definition PD_IDX :: "u64 \<Rightarrow> nat" where "PD_IDX v = unat (drop_bit 21 v AND 0x1FF)"
definition PT_IDX :: "u64 \<Rightarrow> nat" where "PT_IDX v = unat (drop_bit 12 v AND 0x1FF)"

definition convert_attr_to_flags :: "u64 \<Rightarrow> u32" where
  "convert_attr_to_flags attr =
    (let flags = 0;
         flags = (if attr AND MMU_PTE_ACCESSED \<noteq> 0 then flags OR MAP_ACCESSED else flags);
         flags = (if attr AND MMU_PTE_WRITETHR \<noteq> 0 \<and> attr AND MMU_PTE_NOCACHE \<noteq> 0
                  then flags OR MAP_DEVICE else flags);
         flags = (if attr AND MMU_PTE_GLOBAL = 0 then flags OR MAP_PRIVATE else flags);
         flags = (if attr AND MMU_PTE_NOEXEC = 0 then flags OR MAP_EXECUTE else flags);
         flags = (if attr AND MMU_PTE_USER \<noteq> 0 then flags OR MAP_USER else flags);
         flags = (if attr AND MMU_PTE_WRITE \<noteq> 0 then flags OR MAP_WRITE else flags)
     in flags)"

definition convert_flags_to_attr :: "u32 \<Rightarrow> u64" where
  "convert_flags_to_attr flags =
    (let attr = 0;
         attr = (if flags AND MAP_PRIVATE = 0 then attr OR MMU_PTE_GLOBAL else attr);
         attr = (if flags AND MAP_USER \<noteq> 0 then attr OR MMU_PTE_USER else attr);
         attr = (if flags AND MAP_WRITE \<noteq> 0 then attr OR MMU_PTE_WRITE else attr);
         attr = (if flags AND MAP_DEVICE \<noteq> 0 then attr OR (MMU_PTE_NOCACHE OR MMU_PTE_WRITETHR) else attr);
         attr = (if flags AND MAP_EXECUTE = 0 then attr OR MMU_PTE_NOEXEC else attr);
         attr = (if flags AND MAP_ACCESSED \<noteq> 0 then attr OR MMU_PTE_ACCESSED else attr);
         attr = (if flags AND MAP_DIRTY \<noteq> 0 then attr OR MMU_PTE_DIRTY else attr)
     in attr)"

section \<open>Operations (arch/x86_64/kernel/mmu.c)\<close>

text \<open>Reading and writing entry \<open>i\<close> of the table at \<open>t\<close>.\<close>

definition rd :: "u64 \<Rightarrow> nat \<Rightarrow> physmem \<Rightarrow> u64" where
  "rd t i mm = pm_words mm (slot t i)"

definition wr :: "u64 \<Rightarrow> nat \<Rightarrow> u64 \<Rightarrow> physmem \<Rightarrow> physmem" where
  "wr t i v mm = mm\<lparr>pm_words := (pm_words mm)(slot t i := v)\<rparr>"

definition invalidate :: "u64 \<Rightarrow> physmem \<Rightarrow> physmem" where
  "invalidate virt mm = mm\<lparr>pm_invalidated := virt # pm_invalidated mm\<rparr>"

text \<open>The table below an entry, allocated when the entry is empty.\<close>

definition get_table :: "u64 \<Rightarrow> nat \<Rightarrow> physmem \<Rightarrow> (u64 \<times> physmem) option" where
  "get_table t i mm = do {
     mm \<leftarrow> (if rd t i mm = 0 then do {
              (a, mm) \<leftarrow> mm_physical_allocate 0x1000 True mm;
              Some (wr t i (a OR MMU_PTE_PRESENT OR MMU_PTE_WRITE OR MMU_PTE_USER) mm) }
            else Some mm);
     Some (rd t i mm AND MMU_PTE_PHYS_MASK, mm) }"

definition arch_mm_virtual_map :: "vm_context \<Rightarrow> u64 \<Rightarrow> u64 \<Rightarrow> u64 \<Rightarrow> u32 \<Rightarrow> physmem \<Rightarrow> (bool \<times> physmem) option" where
  "arch_mm_virtual_map ctx virt phys pagesize flags mm = do {
     let attr = convert_flags_to_attr flags;
     (pdpt, mm) \<leftarrow> get_table (pml4_phys ctx) (PML4_IDX virt) mm;
     if pagesize = arch_mm_page_size 2 then
       if rd pdpt (PDPT_IDX virt) mm \<noteq> 0 then Some (False, mm)
       else Some (True, invalidate virt
         (wr pdpt (PDPT_IDX virt) (phys OR attr OR MMU_PTE_PRESENT OR MMU_PTE_LARGE) mm))
     else do {
       (pd, mm) \<leftarrow> get_table pdpt (PDPT_IDX virt) mm;
       if pagesize = arch_mm_page_size 1 then
         if rd pd (PD_IDX virt) mm \<noteq> 0 then Some (False, mm)
         else Some (True, invalidate virt
           (wr pd (PD_IDX virt) (phys OR attr OR MMU_PTE_PRESENT OR MMU_PTE_LARGE) mm))
       else do {
         (pt, mm) \<leftarrow> get_table pd (PD_IDX virt) mm;
         if rd pt (PT_IDX virt) mm \<noteq> 0 then Some (False, mm)
         else Some (True, invalidate virt
           (wr pt (PT_IDX virt) (phys OR attr OR MMU_PTE_PRESENT) mm)) } } }"

definition arch_mm_virtual_unmap :: "vm_context \<Rightarrow> u64 \<Rightarrow> physmem \<Rightarrow> u64 \<times> physmem" where
  "arch_mm_virtual_unmap ctx virt mm =
    (let e4 = rd (pml4_phys ctx) (PML4_IDX virt) mm in
     if e4 = 0 then (0, mm)
     else let pdpt = e4 AND MMU_PTE_PHYS_MASK;
              e3 = rd pdpt (PDPT_IDX virt) mm in
     if e3 = 0 then (0, mm)
     else if e3 AND MMU_PTE_LARGE \<noteq> 0 then
       (e3 AND MMU_PTE_PHYS_MASK, invalidate virt (wr pdpt (PDPT_IDX virt) 0 mm))
     else let pd = e3 AND MMU_PTE_PHYS_MASK;
              e2 = rd pd (PD_IDX virt) mm in
     if e2 = 0 then (0, mm)
     else if e2 AND MMU_PTE_LARGE \<noteq> 0 then
       (e2 AND MMU_PTE_PHYS_MASK, invalidate virt (wr pd (PD_IDX virt) 0 mm))
     else let pt = e2 AND MMU_PTE_PHYS_MASK in
       (rd pt (PT_IDX virt) mm AND MMU_PTE_PHYS_MASK, invalidate virt (wr pt (PT_IDX virt) 0 mm)))"

text \<open>The second component is what is stored through the pointers \<open>phys\<close>, \<open>flags\<close> and \<open>size\<close>,
  None when nothing is.\<close>

definition arch_mm_virtual_getmap :: "vm_context \<Rightarrow> u64 \<Rightarrow> physmem \<Rightarrow> bool \<times> (u64 \<times> u32 \<times> u64) option" where
  "arch_mm_virtual_getmap ctx virt mm =
    (let e4 = rd (pml4_phys ctx) (PML4_IDX virt) mm in
     if e4 = 0 then (False, None)
     else let pdpt = e4 AND MMU_PTE_PHYS_MASK;
              e3 = rd pdpt (PDPT_IDX virt) mm in
     if e3 = 0 then (False, None)
     else if e3 AND MMU_PTE_LARGE \<noteq> 0 then
       (e3 \<noteq> 0, Some (e3 AND MMU_PTE_PHYS_MASK, convert_attr_to_flags (e3 AND NOT MMU_PTE_PHYS_MASK),
          arch_mm_page_size 2))
     else let pd = e3 AND MMU_PTE_PHYS_MASK;
              e2 = rd pd (PD_IDX virt) mm in
     if e2 = 0 then (False, None)
     else if e2 AND MMU_PTE_LARGE \<noteq> 0 then
       (e2 \<noteq> 0, Some (e2 AND MMU_PTE_PHYS_MASK, convert_attr_to_flags (e2 AND NOT MMU_PTE_PHYS_MASK),
          arch_mm_page_size 1))
     else let pt = e2 AND MMU_PTE_PHYS_MASK;
              e1 = rd pt (PT_IDX virt) mm in
       (e1 \<noteq> 0, Some (e1 AND MMU_PTE_PHYS_MASK, convert_attr_to_flags (e1 AND NOT MMU_PTE_PHYS_MASK),
          arch_mm_page_size 0)))"

definition arch_mm_virtual_chattr :: "vm_context \<Rightarrow> u64 \<Rightarrow> u32 \<Rightarrow> physmem \<Rightarrow> bool \<times> physmem" where
  "arch_mm_virtual_chattr ctx virt flags mm =
    (let attr = convert_flags_to_attr flags;
         e4 = rd (pml4_phys ctx) (PML4_IDX virt) mm in
     if e4 = 0 then (False, mm)
     else let pdpt = e4 AND MMU_PTE_PHYS_MASK;
              e3 = rd pdpt (PDPT_IDX virt) mm in
     if e3 = 0 then (False, mm)
     else if e3 AND MMU_PTE_LARGE \<noteq> 0 then
       (True, invalidate virt (wr pdpt (PDPT_IDX virt)
          ((e3 AND MMU_PTE_PHYS_MASK) OR attr OR MMU_PTE_PRESENT OR MMU_PTE_LARGE) mm))
     else let pd = e3 AND MMU_PTE_PHYS_MASK;
              e2 = rd pd (PD_IDX virt) mm in
     if e2 = 0 then (False, mm)
     else if e2 AND MMU_PTE_LARGE \<noteq> 0 then
       (True, invalidate virt (wr pd (PD_IDX virt)
          ((e2 AND MMU_PTE_PHYS_MASK) OR attr OR MMU_PTE_PRESENT OR MMU_PTE_LARGE) mm))
     else let pt = e2 AND MMU_PTE_PHYS_MASK;
              e1 = rd pt (PT_IDX virt) mm in
     if e1 = 0 then (False, mm)
     else (True, invalidate virt (wr pt (PT_IDX virt)
          ((e1 AND MMU_PTE_PHYS_MASK) OR attr OR MMU_PTE_PRESENT) mm)))"

text \<open>The two loops of \<open>arch_mm_context_create\<close>, the second sharing the tables of the kernel.\<close>

fun clear_entries :: "u64 \<Rightarrow> nat list \<Rightarrow> physmem \<Rightarrow> physmem" where
  "clear_entries t [] mm = mm"
| "clear_entries t (i # is) mm = clear_entries t is (wr t i 0 mm)"

fun copy_entries :: "u64 \<Rightarrow> u64 \<Rightarrow> nat list \<Rightarrow> physmem \<Rightarrow> physmem" where
  "copy_entries t s [] mm = mm"
| "copy_entries t s (i # is) mm = copy_entries t s is (wr t i (rd s i mm) mm)"

definition arch_mm_context_create :: "vm_context \<Rightarrow> physmem \<Rightarrow> (vm_context \<times> physmem) option" where
  "arch_mm_context_create kernel_context mm = do {
     (a, mm) \<leftarrow> mm_physical_allocate 0x1000 True mm;
     let mm = clear_entries a [0..<256] mm;
     let mm = copy_entries a (pml4_phys kernel_context) [256..<512] mm;
     Some (\<lparr>pml4_phys = a\<rparr>, mm) }"

definition arch_mm_context_init :: "vm_context \<Rightarrow> physmem \<Rightarrow> physmem" where
  "arch_mm_context_init ctx mm = clear_entries (pml4_phys ctx) [0..<256] mm"

definition arch_mm_context_destroy :: "vm_context \<Rightarrow> physmem \<Rightarrow> physmem option" where
  "arch_mm_context_destroy ctx mm = mm_physical_deallocate (pml4_phys ctx) mm"

section \<open>Entries\<close>

definition large :: "u64 \<Rightarrow> bool" where "large e \<longleftrightarrow> e AND MMU_PTE_LARGE \<noteq> 0"
definition pbase :: "u64 \<Rightarrow> u64" where "pbase e = e AND MMU_PTE_PHYS_MASK"

lemma frame_mask: "frame a \<longleftrightarrow> a AND MMU_PTE_PHYS_MASK = a"
  by (simp add: frame_def MMU_PTE_PHYS_MASK_def)

lemma frame_low:
  assumes "frame a" "k AND MMU_PTE_PHYS_MASK = 0"
  shows "a AND k = 0"
proof -
  have "a AND k = (a AND MMU_PTE_PHYS_MASK) AND k" using assms(1) by (simp add: frame_mask)
  also have "\<dots> = a AND (k AND MMU_PTE_PHYS_MASK)" by (simp add: ac_simps)
  finally show ?thesis using assms(2) by simp
qed

lemma pbase_0 [simp]: "pbase 0 = 0"
  by (simp add: pbase_def)

lemma frame_pbase [simp]: "frame (pbase e)"
  by (simp add: frame_mask pbase_def ac_simps)

lemma pbase_or: "frame a \<Longrightarrow> k AND MMU_PTE_PHYS_MASK = 0 \<Longrightarrow> pbase (a OR k) = a"
  by (simp add: pbase_def frame_mask bit.conj_disj_distrib2)

lemma attr_or: "frame a \<Longrightarrow> k AND MMU_PTE_PHYS_MASK = 0 \<Longrightarrow> (a OR k) AND NOT MMU_PTE_PHYS_MASK = k"
proof -
  let ?M = MMU_PTE_PHYS_MASK
  assume a: "frame a" and k: "k AND ?M = 0"
  have "a AND NOT ?M = (a AND ?M) AND NOT ?M" using a by (simp add: frame_mask)
  then have "a AND NOT ?M = 0" by (simp add: and.assoc)
  moreover have "k AND (?M OR NOT ?M) = (k AND ?M) OR (k AND NOT ?M)" by (rule bit.conj_disj_distrib)
  then have "k AND NOT ?M = k" using k by simp
  ultimately show ?thesis by (simp add: bit.conj_disj_distrib2)
qed

lemma large_or: "frame a \<Longrightarrow> large (a OR k) = large k"
proof -
  assume "frame a"
  then have "a AND MMU_PTE_LARGE = 0" by (rule frame_low) (simp add: pte_defs push_bit_eq_mult)
  then show ?thesis by (simp add: large_def bit.conj_disj_distrib2)
qed

lemma table_entry:
  assumes "frame a"
  defines "e \<equiv> a OR MMU_PTE_PRESENT OR MMU_PTE_WRITE OR MMU_PTE_USER"
  shows "e \<noteq> 0" "\<not> large e" "pbase e = a"
proof -
  have e: "e = a OR 7" by (simp add: e_def pte_defs push_bit_eq_mult or.assoc)
  show "\<not> large e" unfolding e large_or [OF assms(1)] by (simp add: large_def pte_defs push_bit_eq_mult)
  show "pbase e = a" unfolding e by (rule pbase_or [OF assms(1)]) (simp add: pte_defs)
  show "e \<noteq> 0" unfolding e by (simp add: or_eq_0_iff)
qed

text \<open>Tests of single bits.\<close>

lemma test_bit32:
  "x AND MAP_DEVICE = 0 \<longleftrightarrow> \<not> bit x 1" "x AND MAP_USER = 0 \<longleftrightarrow> \<not> bit x 2" "x AND MAP_WRITE = 0 \<longleftrightarrow> \<not> bit x 3"
  "x AND MAP_PRIVATE = 0 \<longleftrightarrow> \<not> bit x 4" "x AND MAP_ACCESSED = 0 \<longleftrightarrow> \<not> bit x 5"
  "x AND MAP_EXECUTE = 0 \<longleftrightarrow> \<not> bit x 6" "x AND MAP_DIRTY = 0 \<longleftrightarrow> \<not> bit x 7"
proof -
  have h: "x AND 2 ^ n = 0 \<longleftrightarrow> \<not> bit x n" if "n < 32" for n and x :: u32
    using that by (metis and_exp_eq_0_iff_not_bit)
  show "x AND MAP_DEVICE = 0 \<longleftrightarrow> \<not> bit x 1" using h [of 1 x] by (simp add: map_defs)
  show "x AND MAP_USER = 0 \<longleftrightarrow> \<not> bit x 2" using h [of 2 x] by (simp add: map_defs)
  show "x AND MAP_WRITE = 0 \<longleftrightarrow> \<not> bit x 3" using h [of 3 x] by (simp add: map_defs)
  show "x AND MAP_PRIVATE = 0 \<longleftrightarrow> \<not> bit x 4" using h [of 4 x] by (simp add: map_defs)
  show "x AND MAP_ACCESSED = 0 \<longleftrightarrow> \<not> bit x 5" using h [of 5 x] by (simp add: map_defs)
  show "x AND MAP_EXECUTE = 0 \<longleftrightarrow> \<not> bit x 6" using h [of 6 x] by (simp add: map_defs)
  show "x AND MAP_DIRTY = 0 \<longleftrightarrow> \<not> bit x 7" using h [of 7 x] by (simp add: map_defs)
qed

lemma test_bit64:
  "x AND MMU_PTE_GLOBAL = 0 \<longleftrightarrow> \<not> bit x 8" "x AND MMU_PTE_LARGE = 0 \<longleftrightarrow> \<not> bit x 7"
  "x AND MMU_PTE_ACCESSED = 0 \<longleftrightarrow> \<not> bit x 5" "x AND MMU_PTE_NOCACHE = 0 \<longleftrightarrow> \<not> bit x 4"
  "x AND MMU_PTE_WRITETHR = 0 \<longleftrightarrow> \<not> bit x 3" "x AND MMU_PTE_USER = 0 \<longleftrightarrow> \<not> bit x 2"
  "x AND MMU_PTE_WRITE = 0 \<longleftrightarrow> \<not> bit x 1" "x AND MMU_PTE_NOEXEC = 0 \<longleftrightarrow> \<not> bit x 63"
proof -
  have h: "x AND push_bit n 1 = 0 \<longleftrightarrow> \<not> bit x n" if "n < 64" for n and x :: u64
    using that by (metis and_exp_eq_0_iff_not_bit push_bit_of_1)
  show "x AND MMU_PTE_GLOBAL = 0 \<longleftrightarrow> \<not> bit x 8" unfolding pte_defs by (rule h) simp
  show "x AND MMU_PTE_LARGE = 0 \<longleftrightarrow> \<not> bit x 7" unfolding pte_defs by (rule h) simp
  show "x AND MMU_PTE_ACCESSED = 0 \<longleftrightarrow> \<not> bit x 5" unfolding pte_defs by (rule h) simp
  show "x AND MMU_PTE_NOCACHE = 0 \<longleftrightarrow> \<not> bit x 4" unfolding pte_defs by (rule h) simp
  show "x AND MMU_PTE_WRITETHR = 0 \<longleftrightarrow> \<not> bit x 3" unfolding pte_defs by (rule h) simp
  show "x AND MMU_PTE_USER = 0 \<longleftrightarrow> \<not> bit x 2" unfolding pte_defs by (rule h) simp
  show "x AND MMU_PTE_WRITE = 0 \<longleftrightarrow> \<not> bit x 1" unfolding pte_defs by (rule h) simp
  show "x AND MMU_PTE_NOEXEC = 0 \<longleftrightarrow> \<not> bit x 63" unfolding pte_defs by (rule h) simp
qed

lemma bit_pte: "bit (push_bit n (1 :: u64)) k \<longleftrightarrow> k = n \<and> n < 64"
  by (auto simp: push_bit_of_1 bit_exp_iff)

lemma bit_present: "bit MMU_PTE_PRESENT n \<longleftrightarrow> n = 0" and bit_large: "bit MMU_PTE_LARGE n \<longleftrightarrow> n = 7"
  unfolding pte_defs bit_pte by simp_all

lemma attr_bits:
  "bit (convert_flags_to_attr f) 8 = (\<not> bit f 4)" "bit (convert_flags_to_attr f) 2 = bit f 2"
  "bit (convert_flags_to_attr f) 1 = bit f 3" "bit (convert_flags_to_attr f) 3 = bit f 1"
  "bit (convert_flags_to_attr f) 4 = bit f 1" "bit (convert_flags_to_attr f) 63 = (\<not> bit f 6)"
  "bit (convert_flags_to_attr f) 5 = bit f 5" "\<not> bit (convert_flags_to_attr f) 7"
  unfolding convert_flags_to_attr_def Let_def test_bit32 pte_defs
  by (simp_all add: bit_or_iff bit_pte)

lemma attr_mask: "convert_flags_to_attr f AND MMU_PTE_PHYS_MASK = 0"
proof -
  have z: "MMU_PTE_GLOBAL AND MMU_PTE_PHYS_MASK = 0" "MMU_PTE_USER AND MMU_PTE_PHYS_MASK = 0"
    "MMU_PTE_WRITE AND MMU_PTE_PHYS_MASK = 0" "MMU_PTE_NOCACHE AND MMU_PTE_PHYS_MASK = 0"
    "MMU_PTE_WRITETHR AND MMU_PTE_PHYS_MASK = 0" "MMU_PTE_NOEXEC AND MMU_PTE_PHYS_MASK = 0"
    "MMU_PTE_ACCESSED AND MMU_PTE_PHYS_MASK = 0" "MMU_PTE_DIRTY AND MMU_PTE_PHYS_MASK = 0"
    by (simp_all add: pte_defs push_bit_eq_mult)
  show ?thesis unfolding convert_flags_to_attr_def Let_def by (simp add: bit.conj_disj_distrib2 z)
qed

text \<open>The flags an entry remembers: all but \<open>MAP_DIRTY\<close>.\<close>

definition kept :: "u32 \<Rightarrow> u32" where "kept f = f AND 0x7E"

lemma attr_flags:
  assumes "k = 0 \<or> k = MMU_PTE_LARGE"
  shows "convert_attr_to_flags (convert_flags_to_attr f OR MMU_PTE_PRESENT OR k) = kept f"
proof -
  let ?b = "bit f"
  have c: "bit (convert_flags_to_attr f OR MMU_PTE_PRESENT OR k) n = bit (convert_flags_to_attr f) n"
    if "n \<noteq> 0" "n \<noteq> 7" for n
    using assms that by (auto simp: bit_or_iff bit_present bit_large)
  have t: "convert_attr_to_flags (convert_flags_to_attr f OR MMU_PTE_PRESENT OR k) =
    (if ?b 5 then 0x20 else 0) OR (if ?b 1 then 0x2 else 0) OR (if ?b 4 then 0x10 else 0) OR
    (if ?b 6 then 0x40 else 0) OR (if ?b 2 then 0x4 else 0) OR (if ?b 3 then 0x8 else 0)"
    unfolding convert_attr_to_flags_def Let_def test_bit64 map_defs
    by (simp add: c attr_bits attr_bits(3) [simplified])
  have "0x7E = (2 ^ 5 OR 2 ^ 1 OR 2 ^ 4 OR 2 ^ 6 OR 2 ^ 2 OR 2 ^ 3 :: u32)" by simp
  then have k: "kept f = (f AND 2 ^ 5) OR (f AND 2 ^ 1) OR (f AND 2 ^ 4) OR (f AND 2 ^ 6) OR (f AND 2 ^ 2) OR (f AND 2 ^ 3)"
    unfolding kept_def by (simp only: bit.conj_disj_distrib)
  have e: "f AND 2 ^ n = (if ?b n then 2 ^ n else 0)" for n
    by (rule bit_word_eqI) (auto simp: bit_and_iff bit_exp_iff)
  show ?thesis unfolding t k e by simp
qed

section \<open>Address spaces\<close>

definition path :: "u64 \<Rightarrow> nat list" where
  "path v = [PML4_IDX v, PDPT_IDX v, PD_IDX v, PT_IDX v]"

lemma idx_less:
  "PML4_IDX v < 512" "PDPT_IDX v < 512" "PD_IDX v < 512" "PT_IDX v < 512"
proof -
  have "unat (x AND 0x1FF) < 512" for x :: u64
  proof -
    have "x AND 0x1FF \<le> 0x1FF" by (rule word_and_le1)
    then have "unat (x AND 0x1FF) \<le> unat (0x1FF :: u64)" by (simp only: word_le_nat_alt)
    then show ?thesis by simp
  qed
  then show "PML4_IDX v < 512" "PDPT_IDX v < 512" "PD_IDX v < 512" "PT_IDX v < 512"
    by (simp_all add: PML4_IDX_def PDPT_IDX_def PD_IDX_def PT_IDX_def)
qed

lemma path_ok [simp]: "in_range 512 (path v)" "length (path v) = 4"
  by (simp_all add: path_def idx_less)

text \<open>The translation of an address: physical page, flags and size of the page.\<close>

definition translation :: "physmem \<Rightarrow> vm_context \<Rightarrow> u64 \<Rightarrow> (u64 \<times> u32 \<times> u64) option" where
  "translation mm ctx v = (case arch_mm_virtual_getmap ctx v mm of (True, r) \<Rightarrow> r | (False, _) \<Rightarrow> None)"

definition same_page :: "nat \<Rightarrow> u64 \<Rightarrow> u64 \<Rightarrow> bool" where
  "same_page l v w \<longleftrightarrow> take (4 - l) (path v) = take (4 - l) (path w)"

text \<open>The top level never maps a page itself.\<close>

definition plain :: "words \<Rightarrow> u64 \<Rightarrow> bool" where
  "plain m r \<longleftrightarrow> (\<forall>i < 512. \<not> large (m (slot r i)))"

abbreviation xwalk :: "physmem \<Rightarrow> u64 \<Rightarrow> nat list \<Rightarrow> u64 option" where
  "xwalk mm \<equiv> walk large pbase (pm_words mm)"

abbreviation xlook :: "physmem \<Rightarrow> u64 \<Rightarrow> nat list \<Rightarrow> (u64 \<times> nat) option" where
  "xlook mm \<equiv> look large pbase (pm_words mm)"

abbreviation xtree :: "u64 set \<Rightarrow> physmem \<Rightarrow> u64 \<Rightarrow> bool" where
  "xtree D mm \<equiv> tree large pbase 512 frame 4 (taken mm - D) (pm_words mm)"

definition page_info :: "u64 \<times> nat \<Rightarrow> u64 \<times> u32 \<times> u64" where
  "page_info = (\<lambda>(e, l). (pbase e, convert_attr_to_flags (e AND NOT MMU_PTE_PHYS_MASK), arch_mm_page_size l))"

lemma translation_look:
  assumes "plain (pm_words mm) (pml4_phys ctx)"
  shows "translation mm ctx v = map_option page_info (xlook mm (pml4_phys ctx) (path v))"
proof -
  have "\<not> large (rd (pml4_phys ctx) (PML4_IDX v) mm)" using assms idx_less(1) [of v] by (simp add: plain_def rd_def)
  then show ?thesis
    by (simp add: translation_def arch_mm_virtual_getmap_def path_def page_info_def Let_def rd_def numeral_2_eq_2
        flip: pbase_def large_def)
qed

lemma translation_cong:
  assumes "pm_words mm' = pm_words mm"
  shows "translation mm' ctx v = translation mm ctx v"
proof -
  have "rd t i mm' = rd t i mm" for t i by (simp add: rd_def assms)
  then show ?thesis by (simp only: translation_def arch_mm_virtual_getmap_def)
qed

text \<open>Two address spaces share tables in the upper half only, at the same place.\<close>

definition apart :: "words \<Rightarrow> u64 \<Rightarrow> u64 \<Rightarrow> bool" where
  "apart m r s \<longleftrightarrow> (\<forall>p q t. in_range 512 p \<longrightarrow> length p < 4 \<longrightarrow> in_range 512 q \<longrightarrow> length q < 4 \<longrightarrow>
     walk large pbase m r p = Some t \<longrightarrow> walk large pbase m s q = Some t \<longrightarrow> p = q \<and> p \<noteq> [] \<and> 256 \<le> hd p)"

text \<open>The invariant: an address space \<open>r\<close> beside others, and pages \<open>D\<close> that hold no tables.\<close>

definition spaces :: "u64 set \<Rightarrow> physmem \<Rightarrow> u64 \<Rightarrow> u64 set \<Rightarrow> bool" where
  "spaces D mm r R \<longleftrightarrow> pm_inv mm \<and> D \<subseteq> pages mm \<and> r \<notin> R \<and>
     (\<forall>s \<in> insert r R. plain (pm_words mm) s \<and> xtree D mm s) \<and>
     (\<forall>s \<in> insert r R. \<forall>s' \<in> insert r R. s \<noteq> s' \<longrightarrow> apart (pm_words mm) s s')"

lemma spacesD:
  assumes "spaces D mm r R"
  shows "pm_inv mm" "D \<subseteq> pages mm" "r \<notin> R" "plain (pm_words mm) r" "xtree D mm r"
    "s \<in> insert r R \<Longrightarrow> plain (pm_words mm) s" "s \<in> insert r R \<Longrightarrow> xtree D mm s"
    "s \<in> insert r R \<Longrightarrow> s' \<in> insert r R \<Longrightarrow> s \<noteq> s' \<Longrightarrow> apart (pm_words mm) s s'"
    "s \<in> R \<Longrightarrow> apart (pm_words mm) r s"
  using assms by (auto simp: spaces_def)

lemma spaces_swap: "spaces D mm r R \<Longrightarrow> s \<in> R \<Longrightarrow> spaces D mm s (insert r R - {s})"
  by (auto simp: spaces_def)

text \<open>What no operation on an address space touches: the contents of these pages, and what is taken.\<close>

definition keeps :: "u64 set \<Rightarrow> physmem \<Rightarrow> physmem \<Rightarrow> bool" where
  "keeps D mm mm' \<longleftrightarrow> (\<forall>d \<in> D. \<forall>i < 512. pm_words mm' (slot d i) = pm_words mm (slot d i)) \<and>
     taken mm \<subseteq> taken mm' \<and> pm_early mm' = pm_early mm"

lemma keeps_refl [simp]: "keeps D mm mm"
  by (simp add: keeps_def)

lemma keeps_trans: "keeps D mm mm1 \<Longrightarrow> keeps D mm1 mm2 \<Longrightarrow> keeps D mm mm2"
  by (auto simp: keeps_def)

interpretation px: radix large pbase 512 frame
  by unfold_locales (rule slot_unique)

lemma apartD:
  "apart m r s \<Longrightarrow> in_range 512 p \<Longrightarrow> length p < 4 \<Longrightarrow> in_range 512 q \<Longrightarrow> length q < 4 \<Longrightarrow>
    walk large pbase m r p = Some t \<Longrightarrow> walk large pbase m s q = Some t \<Longrightarrow> p = q \<and> p \<noteq> [] \<and> 256 \<le> hd p"
  unfolding apart_def by blast

text \<open>A store below an entry of the lower half is not seen by the other address spaces.\<close>

lemma other_space:
  assumes s: "xtree D mm s" "apart (pm_words mm) r s" and r: "xtree D mm r"
    and p: "in_range 512 p" "length p < 4" "xwalk mm r p = Some u" and i: "i < 512" and h: "hd (p @ [i]) < 256"
    and q: "in_range 512 q" "length q \<le> 4"
  shows "walk large pbase ((pm_words mm)(slot u i := v)) s q = xwalk mm s q \<and>
    look large pbase ((pm_words mm)(slot u i := v)) s q = xlook mm s q"
proof (rule px.store_other [OF s(1) q _ i])
  show "frame u" using px.tree_frame [OF r p] by blast
  fix k assume k: "k < length q" "xwalk mm s (take k q) = Some u"
  have "length (take k q) < 4" using k(1) q(2) by simp
  from apartD [OF s(2) p(1,2) in_range_take [OF q(1)] this p(3) k(2)]
  have "p = take k q \<and> p \<noteq> [] \<and> 256 \<le> hd p" .
  then show "q ! k \<noteq> i" using h by auto
qed

lemma other_plain:
  assumes s: "xtree D mm s" "plain (pm_words mm) s" "apart (pm_words mm) r s" and r: "xtree D mm r"
    and p: "in_range 512 p" "length p < 4" "xwalk mm r p = Some u" and i: "i < 512"
  shows "plain ((pm_words mm)(slot u i := v)) s"
proof -
  have "u \<noteq> s" using apartD [OF s(3) p(1,2) _ _ p(3), of "[]"] by auto
  moreover have "frame u" "frame s" using px.tree_frame [OF r p] px.tree_frame [OF s(1), of "[]" s] by auto
  ultimately have "slot s j \<noteq> slot u i" if "j < 512" for j using slot_unique that i by blast
  then show ?thesis using s(2) by (simp add: plain_def)
qed

text \<open>A store to a table does not reach the other pages.\<close>

lemma wr_keeps:
  assumes "spaces D mm r R" "in_range 512 p" "length p < 4" "xwalk mm r p = Some u" "i < 512"
  shows "keeps D mm (wr u i v mm)"
proof -
  have u: "frame u" "u \<notin> D" using px.tree_frame [OF spacesD(5) [OF assms(1)] assms(2-4)] by auto
  have "slot d j \<noteq> slot u i" if "d \<in> D" "j < 512" for d j
    using slot_unique [OF _ u(1) that(2) assms(5)] that(1) u(2) pages_frame spacesD(2) [OF assms(1)] by blast
  then show ?thesis by (auto simp: keeps_def wr_def)
qed

text \<open>Storing a leaf.\<close>

lemma put_leaf:
  assumes sp: "spaces D mm r R" and p: "in_range 512 p" "length p < 4" "xwalk mm r p = Some u" "p \<noteq> []"
    and i: "i < 512" and old: "Suc (length p) = 4 \<or> pm_words mm (slot u i) = 0 \<or> large (pm_words mm (slot u i))"
    and new: "Suc (length p) = 4 \<or> v = 0 \<or> large v" and user: "R = {} \<or> hd p < 256"
  shows "spaces D (wr u i v mm) r R"
    and "in_range 512 q \<Longrightarrow> length q = 4 \<Longrightarrow> xlook (wr u i v mm) r q =
      (if take (Suc (length p)) q = p @ [i] then if v = 0 then None else Some (v, 3 - length p) else xlook mm r q)"
    and "s \<in> R \<Longrightarrow> in_range 512 q \<Longrightarrow> length q = 4 \<Longrightarrow> xlook (wr u i v mm) s q = xlook mm s q"
proof -
  let ?m = "(pm_words mm)(slot u i := v)"
  note r = spacesD(1,4,5) [OF sp]
  have R: "xtree D mm s" "plain (pm_words mm) s" "apart (pm_words mm) r s" "hd (p @ [i]) < 256" if "s \<in> R" for s
    using spacesD [OF sp] that user p(4) by auto
  note own = px.store_leaf [OF r(3) p(1-3) i old new]
  note oth = other_space [OF R(1) R(3) r(3) p(1-3) i R(4)]
  have "u \<noteq> r" using px.tree_inj [OF r(3) p(1,2) _ _ p(3), of "[]"] p(4) by auto
  moreover have "frame u" "frame r" using px.tree_frame [OF r(3) p(1-3)] px.tree_frame [OF r(3), of "[]" r] by auto
  ultimately have "slot r j \<noteq> slot u i" if "j < 512" for j using slot_unique that i by blast
  then have pl: "plain ?m r" using r(2) by (simp add: plain_def)
  have w: "walk large pbase ?m s q = xwalk mm s q" if "s \<in> insert r R" "in_range 512 q" "length q < 4" for s q
  proof (cases "s = r")
    case True
    then show ?thesis using own(2) that by simp
  next
    case False
    then have "s \<in> R" using that(1) by simp
    from oth [OF this this this that(2)] show ?thesis using that(3) by simp
  qed
  have "tree large pbase 512 frame 4 (taken mm - D) ?m s" "plain ?m s" if "s \<in> insert r R" for s
  proof -
    show "tree large pbase 512 frame 4 (taken mm - D) ?m s"
      using spacesD(7) [OF sp that] w [OF that] unfolding tree_def by simp
    show "plain ?m s" using that pl other_plain [OF R(1) R(2) R(3) r(3) p(1-3) i] by auto
  qed
  moreover have "apart ?m s s'" if "s \<in> insert r R" "s' \<in> insert r R" "s \<noteq> s'" for s s'
    using spacesD(8) [OF sp that] w [OF that(1)] w [OF that(2)] unfolding apart_def by simp
  ultimately show "spaces D (wr u i v mm) r R" using spacesD(1-3) [OF sp] by (simp add: spaces_def wr_def)
  show "in_range 512 q \<Longrightarrow> length q = 4 \<Longrightarrow> xlook (wr u i v mm) r q =
      (if take (Suc (length p)) q = p @ [i] then if v = 0 then None else Some (v, 3 - length p) else xlook mm r q)"
    using own(3) by (simp add: wr_def)
  show "s \<in> R \<Longrightarrow> in_range 512 q \<Longrightarrow> length q = 4 \<Longrightarrow> xlook (wr u i v mm) s q = xlook mm s q"
    using oth by (simp add: wr_def)
qed

lemma tree_frames:
  assumes "tree leaf base N frame d A m r" "\<And>t. frame t \<Longrightarrow> t \<in> A \<Longrightarrow> t \<in> B"
  shows "tree leaf base N frame d B m r"
  using assms unfolding tree_def by blast

text \<open>Changing words outside the tables, and taking more pages.\<close>

lemma spaces_agree:
  assumes sp: "spaces D mm r R" and T: "\<And>t. frame t \<Longrightarrow> t \<in> taken mm - D \<Longrightarrow> t \<in> taken mm' - D'" and D: "D' \<subseteq> pages mm'" and inv: "pm_inv mm'"
    and g: "\<And>t i. t \<in> taken mm - D \<Longrightarrow> frame t \<Longrightarrow> i < 512 \<Longrightarrow> pm_words mm' (slot t i) = pm_words mm (slot t i)"
  shows "spaces D' mm' r R"
    and "s \<in> insert r R \<Longrightarrow> in_range 512 q \<Longrightarrow> length q \<le> 4 \<Longrightarrow> xwalk mm' s q = xwalk mm s q \<and> xlook mm' s q = xlook mm s q"
    and "s \<in> insert r R \<Longrightarrow> tree large pbase 512 frame 4 (taken mm - D) (pm_words mm') s"
proof -
  note t = spacesD(7,6) [OF sp]
  have w: "xwalk mm' s q = xwalk mm s q \<and> xlook mm' s q = xlook mm s q"
    if "s \<in> insert r R" "in_range 512 q" "length q \<le> 4" for s q
    by (rule px.agree_tree [OF t(1) [OF that(1)] g that(2,3)])
  then show "s \<in> insert r R \<Longrightarrow> in_range 512 q \<Longrightarrow> length q \<le> 4 \<Longrightarrow> xwalk mm' s q = xwalk mm s q \<and> xlook mm' s q = xlook mm s q" .
  have tr: "tree large pbase 512 frame 4 (taken mm - D) (pm_words mm') s" if "s \<in> insert r R" for s
    by (rule px.tree_agree [OF t(1) [OF that] g])
  then show "s \<in> insert r R \<Longrightarrow> tree large pbase 512 frame 4 (taken mm - D) (pm_words mm') s" .
  have pl: "plain (pm_words mm') s" if "s \<in> insert r R" for s
  proof -
    have "frame s" "s \<in> taken mm - D" using px.tree_frame [OF t(1) [OF that], of "[]" s] by auto
    then show ?thesis using t(2) [OF that] g by (simp add: plain_def)
  qed
  have "apart (pm_words mm') s s'" if "s \<in> insert r R" "s' \<in> insert r R" "s \<noteq> s'" for s s'
    using spacesD(8) [OF sp that] w [OF that(1)] w [OF that(2)] unfolding apart_def by simp
  then show "spaces D' mm' r R" unfolding spaces_def using D inv spacesD(3) [OF sp] pl tree_frames [OF tr T] by blast
qed

text \<open>Taking a fresh page.\<close>

lemma fresh_page:
  assumes sp: "spaces D mm r R" and a: "frame a" "a \<notin> taken mm" "taken mm \<subseteq> taken mm'" "pages mm \<subseteq> pages mm'" and inv: "pm_inv mm'"
    and m: "pm_words mm' = clear_words a 0x1000 (pm_words mm)" and e: "pm_early mm' = pm_early mm"
  shows "spaces D mm' r R"
    and "s \<in> insert r R \<Longrightarrow> in_range 512 q \<Longrightarrow> length q \<le> 4 \<Longrightarrow> xwalk mm' s q = xwalk mm s q \<and> xlook mm' s q = xlook mm s q"
    and "s \<in> insert r R \<Longrightarrow> tree large pbase 512 frame 4 (taken mm - D) (pm_words mm') s"
    and "keeps D mm mm'"
proof -
  have g: "pm_words mm' (slot t i) = pm_words mm (slot t i)" if "t \<in> taken mm" "frame t" "i < 512" for t i
  proof -
    have "\<not> slot t i - a < 0x1000" using slot_outside [OF that(2) a(1) that(3)] a(2) that(1) by blast
    then show ?thesis by (simp add: m clear_words_def)
  qed
  have T: "\<And>t. frame t \<Longrightarrow> t \<in> taken mm - D \<Longrightarrow> t \<in> taken mm' - D" and D: "D \<subseteq> pages mm'"
    using a(3,4) spacesD(2) [OF sp] by auto
  note ag = spaces_agree [OF sp T D inv g]
  show "spaces D mm' r R" by (rule ag(1)) auto
  show "s \<in> insert r R \<Longrightarrow> in_range 512 q \<Longrightarrow> length q \<le> 4 \<Longrightarrow> xwalk mm' s q = xwalk mm s q \<and> xlook mm' s q = xlook mm s q"
    by (rule ag(2)) auto
  show "s \<in> insert r R \<Longrightarrow> tree large pbase 512 frame 4 (taken mm - D) (pm_words mm') s" by (rule ag(3)) auto
  show "keeps D mm mm'" using g e a(3) spacesD(2) [OF sp] pages_taken [of mm] pages_frame [of _ mm] unfolding keeps_def by blast
qed

text \<open>Linking an empty table.\<close>

lemma put_table:
  assumes sp: "spaces D mm r R" and A: "\<And>s. s \<in> insert r R \<Longrightarrow> tree large pbase 512 frame 4 A (pm_words mm) s"
    and p: "in_range 512 p" "length p < 3" "xwalk mm r p = Some u"
    and i: "i < 512" and old: "pm_words mm (slot u i) = 0" and w: "frame w" "w \<notin> A" "insert w A \<subseteq> taken mm - D"
    and z: "\<And>j. j < 512 \<Longrightarrow> pm_words mm (slot w j) = 0" and user: "R = {} \<or> hd (p @ [i]) < 256"
  defines "v \<equiv> w OR MMU_PTE_PRESENT OR MMU_PTE_WRITE OR MMU_PTE_USER"
  shows "spaces D (wr u i v mm) r R" and "xwalk (wr u i v mm) r (p @ [i]) = Some w"
    and "s \<in> insert r R \<Longrightarrow> in_range 512 q \<Longrightarrow> length q = 4 \<Longrightarrow> xlook (wr u i v mm) s q = xlook mm s q"
proof -
  let ?m = "(pm_words mm)(slot u i := v)"
  note r = spacesD(1,4,5) [OF sp]
  have R: "xtree D mm s" "plain (pm_words mm) s" "apart (pm_words mm) r s" "hd (p @ [i]) < 256" if "s \<in> R" for s
    using spacesD [OF sp] that user by auto
  have v: "v \<noteq> 0" "\<not> large v" "pbase v = w" unfolding v_def using table_entry [OF w(1)] by auto
  have p4: "length p < 4" "Suc (length p) < 4" using p(2) by simp_all
  note own = px.store_table [OF A p(1) p4(2) p(3) i old v w(1,2) z, simplified]
  note oth = other_space [OF R(1) R(3) r(3) p(1) p4(1) p(3) i R(4)]
  have pl: "plain ?m r" using r(2) v(2) by (simp add: plain_def)
  have wk: "walk large pbase ?m s q = xwalk mm s q" if "s \<in> R" "in_range 512 q" "length q < 4" for s q
    using oth [OF that(1) that(1) that(1), of q] that by simp
  have nw: "xwalk mm s q \<noteq> Some w" if "s \<in> insert r R" "in_range 512 q" "length q < 4" for s q
    using px.tree_frame [OF A [OF that(1)] that(2,3)] w(2) by auto
  have "tree large pbase 512 frame 4 (taken mm - D) ?m s" "plain ?m s" if "s \<in> R" for s
    using R(1) [OF that] wk [OF that] other_plain [OF R(1) R(2) R(3) r(3) p(1) p4(1) p(3) i] that
    unfolding tree_def by simp_all
  moreover have "apart ?m s s'" if "s \<in> insert r R" "s' \<in> insert r R" "s \<noteq> s'" for s s'
  proof -
    have "s \<in> R \<and> s' \<in> R \<or> s \<in> R \<and> s' = r \<or> s = r \<and> s' \<in> R" using that by auto
    then show ?thesis using spacesD(8) [OF sp that] wk nw own(2) unfolding apart_def by (elim disjE conjE) simp_all
  qed
  ultimately show "spaces D (wr u i v mm) r R" unfolding spaces_def wr_def
    using spacesD(1-3) [OF sp] px.tree_mono [OF own(1) w(3)] pl by simp
  show "xwalk (wr u i v mm) r (p @ [i]) = Some w" using own(2) [of "p @ [i]"] p i by (simp add: wr_def)
  show "s \<in> insert r R \<Longrightarrow> in_range 512 q \<Longrightarrow> length q = 4 \<Longrightarrow> xlook (wr u i v mm) s q = xlook mm s q"
    using oth own(3) by (auto simp: wr_def)
qed

lemma get_table_ok:
  assumes sp: "spaces D mm r R" and room: "pm_room (Suc n) mm" and p: "in_range 512 p" "length p < 3" "xwalk mm r p = Some t"
    and i: "i < 512" and nl: "\<not> large (rd t i mm)" and user: "R = {} \<or> hd (p @ [i]) < 256"
  shows "\<exists>t' mm'. get_table t i mm = Some (t', mm') \<and> spaces D mm' r R \<and> pm_room n mm' \<and> keeps D mm mm' \<and>
    xwalk mm' r (p @ [i]) = Some t' \<and>
    (\<forall>s \<in> insert r R. \<forall>q. in_range 512 q \<longrightarrow> length q = 4 \<longrightarrow> xlook mm' s q = xlook mm s q)"
proof (cases "rd t i mm = 0")
  case False
  then have "get_table t i mm = Some (pbase (rd t i mm), mm)" by (simp add: get_table_def pbase_def)
  moreover have "xwalk mm r (p @ [i]) = Some (pbase (rd t i mm))"
    using p(3) nl False by (simp add: walk_append rd_def)
  moreover have "pm_room n mm" using pm_room_le [OF room] by simp
  ultimately show ?thesis using sp keeps_refl by blast
next
  case True
  obtain a mm1 where a: "mm_physical_allocate 0x1000 True mm = Some (a, mm1)" "frame a" "a \<notin> taken mm"
    "insert a (taken mm) \<subseteq> taken mm1" "pm_inv mm1" "pm_room n mm1" "pm_early mm1 = pm_early mm" "pages mm \<subseteq> pages mm1"
    "pm_words mm1 = clear_words a 0x1000 (pm_words mm)"
    using page_allocate [OF spacesD(1) [OF sp] room] by (auto simp: pages_def split: if_splits)
  have sub: "taken mm \<subseteq> taken mm1" using a(4) by blast
  note f = fresh_page [OF sp a(2,3) sub a(8) a(5,9,7)]
  have w3: "insert a (taken mm - D) \<subseteq> taken mm1 - D" using a(3,4) spacesD(2) [OF sp] pages_taken [of mm] by auto
  let ?v = "a OR MMU_PTE_PRESENT OR MMU_PTE_WRITE OR MMU_PTE_USER"
  have p4: "length p < 4" using p(2) by simp
  have t: "frame t" "t \<in> taken mm" using px.tree_frame [OF spacesD(5) [OF sp] p(1) p4 p(3)] by auto
  have z: "pm_words mm1 (slot a j) = 0" if "j < 512" for j
    using slot_inside [OF a(2) that] by (simp add: a(9) clear_words_def)
  have "\<not> slot t i - a < 0x1000" using slot_outside [OF t(1) a(2) i] t(2) a(3) by blast
  then have old: "pm_words mm1 (slot t i) = 0" using True by (simp add: a(9) clear_words_def rd_def)
  have w: "xwalk mm1 r p = Some t" using f(2) [of r p] p by simp
  have aA: "a \<notin> taken mm - D" using a(3) by blast
  note pt = put_table [OF f(1) f(3) p(1,2) w i old a(2) aA w3 z user]
  have "get_table t i mm = Some (pbase ?v, wr t i ?v mm1)"
    using True a(1) by (simp add: get_table_def rd_def wr_def pbase_def)
  moreover have "pbase ?v = a" using table_entry [OF a(2)] by simp
  moreover have "pm_room n (wr t i ?v mm1)" using a(6) by (simp add: wr_def)
  moreover have "keeps D mm (wr t i ?v mm1)" using keeps_trans [OF f(4) wr_keeps [OF f(1) p(1) p4 w i]] .
  moreover have "\<forall>s \<in> insert r R. \<forall>q. in_range 512 q \<longrightarrow> length q = 4 \<longrightarrow> xlook (wr t i ?v mm1) s q = xlook mm s q"
    using pt(3) f(2) by simp
  ultimately show ?thesis using pt(1,2) by simp
qed

section \<open>Mapping\<close>

lemma invalidate_simps [simp]:
  "pm_words (invalidate v mm) = pm_words mm" "spaces D (invalidate v mm) r R = spaces D mm r R"
  "keeps D mm0 (invalidate v mm) = keeps D mm0 mm" "pm_room n (invalidate v mm) = pm_room n mm"
  "pm_invalidated (invalidate v mm) = v # pm_invalidated mm"
  by (simp_all add: invalidate_def spaces_def keeps_def)

definition leaf_entry :: "nat \<Rightarrow> u64 \<Rightarrow> u32 \<Rightarrow> u64" where
  "leaf_entry l phys flags = phys OR convert_flags_to_attr flags OR MMU_PTE_PRESENT OR
     (if l = 0 then 0 else MMU_PTE_LARGE)"

lemma leaf_entry_info:
  assumes "frame phys"
  shows "leaf_entry l phys flags \<noteq> 0" "l \<noteq> 0 \<Longrightarrow> large (leaf_entry l phys flags)"
    "page_info (leaf_entry l phys flags, k) = (phys, kept flags, arch_mm_page_size k)"
proof -
  let ?k = "if l = 0 then 0 else MMU_PTE_LARGE"
  let ?a = "convert_flags_to_attr flags OR MMU_PTE_PRESENT OR ?k"
  have e: "leaf_entry l phys flags = phys OR ?a" by (simp add: leaf_entry_def or.assoc)
  have m: "?a AND MMU_PTE_PHYS_MASK = 0"
  proof -
    have "MMU_PTE_PRESENT AND MMU_PTE_PHYS_MASK = 0" "MMU_PTE_LARGE AND MMU_PTE_PHYS_MASK = 0"
      by (simp_all add: pte_defs push_bit_eq_mult)
    then show ?thesis by (simp add: bit.conj_disj_distrib2 attr_mask)
  qed
  have "bit ?a 0" by (simp add: bit_or_iff bit_present)
  then have "bit (phys OR ?a) 0" by (simp add: bit_or_iff)
  then show "leaf_entry l phys flags \<noteq> 0" unfolding e by (metis bit_0_eq bot_apply bot_bool_def)
  show "large (leaf_entry l phys flags)" if "l \<noteq> 0"
    unfolding e large_or [OF assms] using that by (simp add: large_def test_bit64 bit_or_iff bit_large)
  have "convert_attr_to_flags ?a = kept flags" by (rule attr_flags) simp
  then show "page_info (leaf_entry l phys flags, k) = (phys, kept flags, arch_mm_page_size k)"
    unfolding e page_info_def by (simp add: pbase_or [OF assms m] attr_or [OF assms m] del: or.assoc)
qed

lemma look_level:
  assumes "plain (pm_words mm) r" "xlook mm r (path v) = Some (e, l)"
  shows "l \<le> 2"
proof -
  have "l < 4" "l = 0 \<or> large e" using look_walk [OF assms(2)] by auto
  moreover have "l \<noteq> 3"
  proof
    assume "l = 3"
    then have "large (pm_words mm (slot r (PML4_IDX v)))" using look_walk [OF assms(2)] by (auto simp: path_def)
    then show False using assms(1) idx_less(1) by (simp add: plain_def)
  qed
  ultimately show ?thesis by linarith
qed

lemma page_size_le:
  assumes "l \<le> 2" "k \<le> 2"
  shows "arch_mm_page_size k \<le> arch_mm_page_size l \<longleftrightarrow> k \<le> l"
proof -
  have "l = 0 \<or> l = 1 \<or> l = 2" "k = 0 \<or> k = 1 \<or> k = 2" using assms by linarith+
  then show ?thesis by (elim disjE) (simp_all add: arch_mm_page_size_def)
qed

lemma take_path: "k < 4 \<Longrightarrow> take k (path v) @ [path v ! k] = take (Suc k) (path v)"
  by (simp add: take_Suc_conv_app_nth)

lemma path_nth: "k < 4 \<Longrightarrow> path v ! k < 512"
  using path_ok(1) [of v] unfolding in_range_def by (metis nth_mem path_ok(2))

lemma hd_path: "0 < k \<Longrightarrow> hd (take k (path v)) = PML4_IDX v"
  by (simp add: path_def)

text \<open>What a successful or refused mapping leaves behind.\<close>

definition mapped :: "u64 set \<Rightarrow> physmem \<Rightarrow> vm_context \<Rightarrow> u64 set \<Rightarrow> nat \<Rightarrow> u64 \<Rightarrow> u64 \<Rightarrow> u32 \<Rightarrow> bool \<Rightarrow> physmem \<Rightarrow> bool" where
  "mapped D mm ctx R l virt phys flags r mm' \<longleftrightarrow> spaces D mm' (pml4_phys ctx) R \<and> keeps D mm mm' \<and>
     (\<forall>v. translation mm' ctx v =
       (if r \<and> same_page l v virt then Some (phys, kept flags, arch_mm_page_size l) else translation mm ctx v)) \<and>
     (\<forall>s \<in> R. \<forall>v. translation mm' \<lparr>pml4_phys = s\<rparr> v = translation mm \<lparr>pml4_phys = s\<rparr> v) \<and>
     (if r then \<forall>v. same_page l v virt \<longrightarrow> translation mm ctx v = None
      else l = 0 \<longrightarrow> translation mm ctx virt \<noteq> None)"

lemma spaces_translation:
  "spaces D mm r R \<Longrightarrow> s \<in> insert r R \<Longrightarrow> translation mm \<lparr>pml4_phys = s\<rparr> v = map_option page_info (xlook mm s (path v))"
  using translation_look [of mm "\<lparr>pml4_phys = s\<rparr>"] by (auto simp: spaces_def)

lemma map_finish:
  assumes sp: "spaces D mm r R" and sp1: "spaces D mm1 r R" and k1: "keeps D mm mm1"
    and same: "\<forall>s \<in> insert r R. \<forall>q. in_range 512 q \<longrightarrow> length q = 4 \<longrightarrow> xlook mm1 s q = xlook mm s q"
    and l: "l \<le> 2" and t: "xwalk mm1 r (take (3 - l) (path virt)) = Some t" and i: "i = path virt ! (3 - l)"
    and phys: "frame phys" and user: "R = {} \<or> PML4_IDX virt < 256"
  shows "rd t i mm1 \<noteq> 0 \<Longrightarrow> mapped D mm \<lparr>pml4_phys = r\<rparr> R l virt phys flags False mm1"
    and "rd t i mm1 = 0 \<Longrightarrow> mapped D mm \<lparr>pml4_phys = r\<rparr> R l virt phys flags True
      (invalidate virt (wr t i (leaf_entry l phys flags) mm1))"
proof -
  let ?p = "take (3 - l) (path virt)"
  have ne: "path virt \<noteq> []" by (simp add: path_def)
  have p: "in_range 512 ?p" "length ?p < 4" "length ?p = 3 - l" "?p \<noteq> []"
    using in_range_take [OF path_ok(1)] l ne by simp_all
  have i5: "i < 512" unfolding i using path_nth [of "3 - l" virt] by simp
  have pi: "?p @ [i] = take (4 - l) (path virt)" 
  proof -
    have "Suc (3 - l) = 4 - l" using l by linarith
    then show ?thesis unfolding i using take_path [of "3 - l" virt] by simp
  qed
  have tr: "translation m \<lparr>pml4_phys = s\<rparr> v = map_option page_info (xlook m s (path v))"
    if "spaces D m r R" "s \<in> insert r R" for m s v using spaces_translation that by blast
  have lk: "xlook mm1 s (path v) = xlook mm s (path v)" if "s \<in> insert r R" for s v using same that by auto
  have sub: "xlook mm1 r (path v) = look large pbase (pm_words mm1) t (i # drop (4 - l) (path v))"
    if "same_page l v virt" for v
  proof -
    have e: "path v = ?p @ i # drop (4 - l) (path v)"
      using that pi append_take_drop_id [of "4 - l" "path v"] unfolding same_page_def
      by (metis append.assoc append_Cons append_Nil)
    show ?thesis using look_append [OF t, of "i # drop (4 - l) (path v)"] e by simp
  qed
  show "mapped D mm \<lparr>pml4_phys = r\<rparr> R l virt phys flags False mm1" if nz: "rd t i mm1 \<noteq> 0"
  proof -
    have "translation mm \<lparr>pml4_phys = r\<rparr> virt \<noteq> None" if "l = 0"
      using sub [of virt] that nz unfolding tr [OF sp, of r, simplified] lk [of r virt, simplified, symmetric]
      by (simp add: same_page_def rd_def Let_def)
    then show ?thesis unfolding mapped_def using sp1 k1 tr [OF sp1] tr [OF sp] lk by simp
  qed
  show "mapped D mm \<lparr>pml4_phys = r\<rparr> R l virt phys flags True (invalidate virt (wr t i (leaf_entry l phys flags) mm1))"
    if z: "rd t i mm1 = 0"
  proof -
    let ?v = "leaf_entry l phys flags"
    note v = leaf_entry_info [OF phys]
    have new: "Suc (length ?p) = 4 \<or> ?v = 0 \<or> large ?v" using v(2) [of l flags] p(3) by (cases "l = 0") auto
    have old: "Suc (length ?p) = 4 \<or> pm_words mm1 (slot t i) = 0 \<or> large (pm_words mm1 (slot t i))" using z by (simp add: rd_def)
    have us: "R = {} \<or> hd ?p < 256" using user hd_path [of "3 - l" virt] l by simp
    note pl = put_leaf [OF sp1 p(1,2) t p(4) i5 old new us]
    let ?mm = "invalidate virt (wr t i ?v mm1)"
    have sp2: "spaces D ?mm r R" using pl(1) by simp
    have k2: "keeps D mm ?mm" using keeps_trans [OF k1 wr_keeps [OF sp1 p(1,2) t i5]] by simp
    have own: "xlook ?mm r (path v) = (if same_page l v virt then Some (?v, l) else xlook mm r (path v))" for v
    proof -
      have "Suc (3 - l) = 4 - l" "3 - (3 - l) = l" using l by simp_all
      then show ?thesis using pl(2) [of "path v"] v(1) lk [of r v] unfolding p(3) pi by (simp add: same_page_def)
    qed
    have none: "xlook mm r (path v) = None" if "same_page l v virt" for v
      using sub [OF that] z lk [of r v] by (simp add: rd_def Let_def)
    have oth: "xlook ?mm s (path v) = xlook mm s (path v)" if "s \<in> R" for s v using pl(3) [OF that] lk that by simp
    show ?thesis unfolding mapped_def
      using sp2 k2 tr [OF sp2] tr [OF sp] own none oth v(3) by simp
  qed
qed

lemma map_result:
  assumes "spaces D mm r R" "spaces D mm1 r R" "keeps D mm mm1"
    and "\<forall>s \<in> insert r R. \<forall>q. in_range 512 q \<longrightarrow> length q = 4 \<longrightarrow> xlook mm1 s q = xlook mm s q"
    and "l \<le> 2" "xwalk mm1 r (take (3 - l) (path virt)) = Some t" "i = path virt ! (3 - l)"
    and "frame phys" "R = {} \<or> PML4_IDX virt < 256" "pm_room n mm1"
    and "x = (if rd t i mm1 \<noteq> 0 then Some (False, mm1)
      else Some (True, invalidate virt (wr t i (leaf_entry l phys flags) mm1)))"
  shows "\<exists>ra mm'. x = Some (ra, mm') \<and> mapped D mm \<lparr>pml4_phys = r\<rparr> R l virt phys flags ra mm' \<and> pm_room n mm'"
proof -
  have "pm_room n (wr t i v mm1)" for v using assms(10) by (simp add: wr_def)
  then show ?thesis
    using map_finish [OF assms(1-9), of flags] assms(10) unfolding assms(11) by (cases "rd t i mm1 = 0") auto
qed

lemma not_large:
  assumes t: "xwalk mm1 r (take k (path virt)) = Some t" "k < 3"
    and same: "xlook mm1 r (path virt) = xlook mm r (path virt)"
    and small: "\<And>e j. xlook mm r (path virt) = Some (e, j) \<Longrightarrow> j \<le> l" and l: "l < 3 - k"
  shows "\<not> large (rd t (path virt ! k) mm1)"
proof
  let ?e = "rd t (path virt ! k) mm1"
  assume e: "large ?e"
  have nz: "?e \<noteq> 0" using e by (auto simp: large_def)
  have "path virt = take k (path virt) @ path virt ! k # drop (Suc k) (path virt)"
    using t(2) by (simp add: id_take_nth_drop)
  then have "xlook mm1 r (path virt) = look large pbase (pm_words mm1) t (path virt ! k # drop (Suc k) (path virt))"
    using look_append [OF t(1), of "path virt ! k # drop (Suc k) (path virt)"] by simp
  also have "\<dots> = Some (?e, 3 - k)" using e nz by (simp add: rd_def Let_def)
  finally show False using small [of ?e "3 - k"] same l by simp
qed

lemma map_ok:
  assumes sp: "spaces D mm (pml4_phys ctx) R" and room: "pm_room (n + 3) mm" and l: "l \<le> 2" and phys: "frame phys"
    and small: "\<And>a f sz. translation mm ctx virt = Some (a, f, sz) \<Longrightarrow> sz \<le> arch_mm_page_size l"
    and user: "R = {} \<or> PML4_IDX virt < 256"
  shows "\<exists>r mm'. arch_mm_virtual_map ctx virt phys (arch_mm_page_size l) flags mm = Some (r, mm') \<and>
    mapped D mm ctx R l virt phys flags r mm' \<and> pm_room n mm'"
proof -
  define r where "r = pml4_phys ctx"
  have ctx: "ctx = \<lparr>pml4_phys = r\<rparr>" by (simp add: r_def)
  have sp: "spaces D mm r R" using sp by (simp add: r_def)
  have plain: "plain (pm_words mm) r" by (rule spacesD(4) [OF sp])
  have rm: "pm_room (Suc (n + 2)) mm" using room by (simp add: eval_nat_numeral)
  have small: "j \<le> l" if "xlook mm r (path virt) = Some (e, j)" for e j
    using small that spaces_translation [OF sp, of r virt] look_level [OF plain that] page_size_le [OF l]
    unfolding ctx by (simp add: page_info_def)
  note i = idx_less [of virt]
  have h: "R = {} \<or> hd ([] @ [PML4_IDX virt]) < 256" "R = {} \<or> hd ([PML4_IDX virt] @ x) < 256" for x using user by auto
  have "\<not> large (rd r (PML4_IDX virt) mm)" using plain i(1) by (simp add: plain_def rd_def)
  from get_table_ok [OF sp rm _ _ _ i(1) this h(1)] obtain pdpt mm1 where
    1: "get_table r (PML4_IDX virt) mm = Some (pdpt, mm1)" "spaces D mm1 r R" "pm_room (Suc (n + 1)) mm1" "xwalk mm1 r [PML4_IDX virt] = Some pdpt"
      "\<forall>s \<in> insert r R. \<forall>q. in_range 512 q \<longrightarrow> length q = 4 \<longrightarrow> xlook mm1 s q = xlook mm s q"
      "keeps D mm mm1"
    by auto
  have n1: "pm_room n mm1" by (rule pm_room_le [OF 1(3)]) simp
  show ?thesis
  proof (cases "l = 2")
    case True
    have t: "xwalk mm1 r (take (3 - l) (path virt)) = Some pdpt" and j: "PDPT_IDX virt = path virt ! (3 - l)"
      using 1(4) by (simp_all add: True path_def)
    show ?thesis unfolding ctx
      by (rule map_result [OF sp 1(2,6,5) l t j phys user n1]) (simp add: arch_mm_virtual_map_def 1(1) True leaf_entry_def)
  next
    case False
    then have l1: "l < 2" using l by simp
    have ps2: "arch_mm_page_size l \<noteq> arch_mm_page_size 2" using l1 page_size_le [of l 2] by auto
    have "xlook mm1 r (path virt) = xlook mm r (path virt)" using 1(5) by simp
    from not_large [OF _ _ this small, of 1 pdpt] have "\<not> large (rd pdpt (PDPT_IDX virt) mm1)"
      using 1(4) l1 by (simp add: path_def)
    from get_table_ok [OF 1(2,3) _ _ 1(4) i(2) this h(2)] obtain pd mm2 where
      2: "get_table pdpt (PDPT_IDX virt) mm1 = Some (pd, mm2)" "spaces D mm2 r R" "pm_room (Suc n) mm2"
        "xwalk mm2 r [PML4_IDX virt, PDPT_IDX virt] = Some pd"
        "\<forall>s \<in> insert r R. \<forall>q. in_range 512 q \<longrightarrow> length q = 4 \<longrightarrow> xlook mm2 s q = xlook mm1 s q"
        "keeps D mm1 mm2"
      using i by auto
    have n2: "pm_room n mm2" by (rule pm_room_le [OF 2(3)]) simp
    note k2 = keeps_trans [OF 1(6) 2(6)]
    have same2: "\<forall>s \<in> insert r R. \<forall>q. in_range 512 q \<longrightarrow> length q = 4 \<longrightarrow> xlook mm2 s q = xlook mm s q"
      using 1(5) 2(5) by simp
    show ?thesis
    proof (cases "l = 1")
      case True
      have t: "xwalk mm2 r (take (3 - l) (path virt)) = Some pd" and j: "PD_IDX virt = path virt ! (3 - l)"
        using 2(4) by (simp_all add: True path_def numeral_2_eq_2)
      show ?thesis unfolding ctx
        by (rule map_result [OF sp 2(2) k2 same2 l t j phys user n2])
          (use ps2 in \<open>simp add: arch_mm_virtual_map_def 1(1) 2(1) True leaf_entry_def\<close>)
    next
      case False
      then have l0: "l = 0" using l1 by simp
      have ps1: "arch_mm_page_size l \<noteq> arch_mm_page_size 1" using l0 page_size_le [of l 1] by auto
      have "xlook mm2 r (path virt) = xlook mm r (path virt)" using same2 by simp
      from not_large [OF _ _ this small, of 2 pd] have "\<not> large (rd pd (PD_IDX virt) mm2)"
        using 2(4) l0 by (simp add: path_def)
      from get_table_ok [OF 2(2,3) _ _ 2(4) i(3) this] obtain pt mm3 where
        3: "get_table pd (PD_IDX virt) mm2 = Some (pt, mm3)" "spaces D mm3 r R" "pm_room n mm3" "keeps D mm2 mm3"
          "xwalk mm3 r [PML4_IDX virt, PDPT_IDX virt, PD_IDX virt] = Some pt"
          "\<forall>s \<in> insert r R. \<forall>q. in_range 512 q \<longrightarrow> length q = 4 \<longrightarrow> xlook mm3 s q = xlook mm2 s q"
        using i user by auto
      note k3 = keeps_trans [OF k2 3(4)]
      have same3: "\<forall>s \<in> insert r R. \<forall>q. in_range 512 q \<longrightarrow> length q = 4 \<longrightarrow> xlook mm3 s q = xlook mm s q"
        using same2 3(6) by simp
      have t: "xwalk mm3 r (take (3 - l) (path virt)) = Some pt" and j: "PT_IDX virt = path virt ! (3 - l)"
        using 3(5) by (simp_all add: l0 path_def numeral_3_eq_3)
      show ?thesis unfolding ctx
        by (rule map_result [OF sp 3(2) k3 same3 l t j phys user 3(3)])
          (use ps1 ps2 in \<open>simp add: arch_mm_virtual_map_def 1(1) 2(1) 3(1) l0 leaf_entry_def\<close>)
    qed
  qed
qed

text \<open>C2: mapping a page of any of the three sizes, when no larger page covers the address and
  three pages are left for tables, ends without a panic. It succeeds exactly by adding the page
  to the translations of the address space, where no address of the page was translated before,
  with the flags it was asked for except \<open>MAP_DIRTY\<close>; when it is refused no translation changes.
  For an address of the lower half no other address space sees a change. The contents of the
  pages that hold no tables stay, and no page is given back.\<close>

theorem arch_mm_virtual_map_correct:
  assumes sp: "spaces D mm (pml4_phys ctx) R" and room: "pm_room (n + 3) mm" and l: "l \<le> 2" and phys: "frame phys"
    and small: "\<And>a f sz. translation mm ctx virt = Some (a, f, sz) \<Longrightarrow> sz \<le> arch_mm_page_size l"
    and user: "R = {} \<or> PML4_IDX virt < 256"
  shows "\<exists>r mm'. arch_mm_virtual_map ctx virt phys (arch_mm_page_size l) flags mm = Some (r, mm') \<and>
    mapped D mm ctx R l virt phys flags r mm' \<and> pm_room n mm'"
  using map_ok [OF assms] .

section \<open>Unmapping and changing flags\<close>

text \<open>The entry that maps an address, and a store to it.\<close>

lemma look_entry:
  assumes sp: "spaces D mm r R" and e: "xlook mm r (path virt) = Some (e, l)" and v: "v = 0 \<or> l = 0 \<or> large v"
    and user: "R = {} \<or> PML4_IDX virt < 256"
  shows "\<exists>t. xwalk mm r (take (3 - l) (path virt)) = Some t \<and> e = rd t (path virt ! (3 - l)) mm \<and> l \<le> 2 \<and>
    spaces D (wr t (path virt ! (3 - l)) v mm) r R \<and> keeps D mm (wr t (path virt ! (3 - l)) v mm) \<and>
    (\<forall>w. translation (wr t (path virt ! (3 - l)) v mm) \<lparr>pml4_phys = r\<rparr> w =
      (if same_page l w virt then if v = 0 then None else Some (page_info (v, l))
       else translation mm \<lparr>pml4_phys = r\<rparr> w)) \<and>
    (\<forall>s \<in> R. \<forall>w. translation (wr t (path virt ! (3 - l)) v mm) \<lparr>pml4_phys = s\<rparr> w =
      translation mm \<lparr>pml4_phys = s\<rparr> w)"
proof -
  have plain: "plain (pm_words mm) r" using sp by (simp add: spaces_def)
  have l: "l \<le> 2" by (rule look_level [OF plain e])
  have four: "length (path virt) - Suc l = 3 - l" "Suc (3 - l) = 4 - l" using l by simp_all
  obtain t where t: "e \<noteq> 0" "l = 0 \<or> large e" "xwalk mm r (take (3 - l) (path virt)) = Some t"
    "e = rd t (path virt ! (3 - l)) mm" using look_walk [OF e] unfolding four by (auto simp: rd_def)
  let ?p = "take (3 - l) (path virt)" let ?i = "path virt ! (3 - l)"
  have ne: "path virt \<noteq> []" by (simp add: path_def)
  have p: "in_range 512 ?p" "length ?p < 4" "?p \<noteq> []" "length ?p = 3 - l" using in_range_take [OF path_ok(1)] l ne by simp_all
  have i: "?i < 512" using path_nth [of "3 - l" virt] by simp
  have pi: "?p @ [?i] = take (4 - l) (path virt)" using take_path [of "3 - l" virt] four by simp
  have us: "R = {} \<or> hd ?p < 256" using user hd_path [of "3 - l" virt] l by simp
  have old: "Suc (length ?p) = 4 \<or> pm_words mm (slot t ?i) = 0 \<or> large (pm_words mm (slot t ?i))"
    using t(2,4) p(4) by (auto simp: rd_def)
  have new: "Suc (length ?p) = 4 \<or> v = 0 \<or> large v" using v p(4) by auto
  note pl = put_leaf [OF sp p(1,2) t(3) p(3) i old new us]
  have "xlook (wr t ?i v mm) r (path w) =
      (if same_page l w virt then if v = 0 then None else Some (v, l) else xlook mm r (path w))" for w
    using pl(2) [of "path w"] l unfolding p(4) four pi by (simp add: same_page_def)
  then have "translation (wr t ?i v mm) \<lparr>pml4_phys = r\<rparr> w =
      (if same_page l w virt then if v = 0 then None else Some (page_info (v, l))
       else translation mm \<lparr>pml4_phys = r\<rparr> w)" for w
    using spaces_translation [OF pl(1), of r] spaces_translation [OF sp, of r] by simp
  moreover have "translation (wr t ?i v mm) \<lparr>pml4_phys = s\<rparr> w = translation mm \<lparr>pml4_phys = s\<rparr> w" if "s \<in> R" for s w
    using spaces_translation [OF pl(1), of s] spaces_translation [OF sp, of s] pl(3) [OF that] that by simp
  moreover have "keeps D mm (wr t ?i v mm)" by (rule wr_keeps [OF sp p(1,2) t(3) i])
  ultimately show ?thesis using t(3,4) l pl(1) by blast
qed

text \<open>The walk of the operations, in terms of the entry that maps the address.\<close>

lemma unmap_entry:
  assumes "plain (pm_words mm) r" "xlook mm r (path virt) = Some (e, l)" "xwalk mm r (take (3 - l) (path virt)) = Some t"
  shows "arch_mm_virtual_unmap \<lparr>pml4_phys = r\<rparr> virt mm = (pbase e, invalidate virt (wr t (path virt ! (3 - l)) 0 mm))"
    and "arch_mm_virtual_chattr \<lparr>pml4_phys = r\<rparr> virt flags mm =
      (True, invalidate virt (wr t (path virt ! (3 - l)) (leaf_entry l (pbase e) flags) mm))"
proof -
  have np: "\<not> large (pm_words mm (slot r (PML4_IDX virt)))" using assms(1) idx_less(1) by (simp add: plain_def)
  have "l \<le> 2" by (rule look_level [OF assms(1,2)])
  then have "l = 0 \<or> l = 1 \<or> l = 2" by linarith
  then show "arch_mm_virtual_unmap \<lparr>pml4_phys = r\<rparr> virt mm = (pbase e, invalidate virt (wr t (path virt ! (3 - l)) 0 mm))"
    "arch_mm_virtual_chattr \<lparr>pml4_phys = r\<rparr> virt flags mm =
      (True, invalidate virt (wr t (path virt ! (3 - l)) (leaf_entry l (pbase e) flags) mm))"
    using assms(2,3) np
    by (auto simp: path_def arch_mm_virtual_unmap_def arch_mm_virtual_chattr_def rd_def Let_def leaf_entry_def
        numeral_2_eq_2 numeral_3_eq_3 simp flip: pbase_def large_def split: if_splits)
qed

lemma unmap_nothing:
  assumes sp: "spaces D mm r R" "xlook mm r (path virt) = None" "R = {} \<or> PML4_IDX virt < 256"
  shows "fst (arch_mm_virtual_unmap \<lparr>pml4_phys = r\<rparr> virt mm) = 0"
    and "pm_words (snd (arch_mm_virtual_unmap \<lparr>pml4_phys = r\<rparr> virt mm)) = pm_words mm"
    and "spaces D (snd (arch_mm_virtual_unmap \<lparr>pml4_phys = r\<rparr> virt mm)) r R"
    and "keeps D mm (snd (arch_mm_virtual_unmap \<lparr>pml4_phys = r\<rparr> virt mm))"
    and "arch_mm_virtual_chattr \<lparr>pml4_phys = r\<rparr> virt flags mm = (False, mm)"
proof -
  have np: "\<not> large (pm_words mm (slot r (PML4_IDX virt)))"
    using sp(1) idx_less(1) by (simp add: spaces_def plain_def)
  have z: "pm_words mm (slot t i) = 0 \<Longrightarrow> wr t i 0 mm = mm" for t i by (simp add: wr_def fun_upd_idem)
  have "fst (arch_mm_virtual_unmap \<lparr>pml4_phys = r\<rparr> virt mm) = 0 \<and>
    (snd (arch_mm_virtual_unmap \<lparr>pml4_phys = r\<rparr> virt mm) = mm \<or>
     snd (arch_mm_virtual_unmap \<lparr>pml4_phys = r\<rparr> virt mm) = invalidate virt mm) \<and>
    arch_mm_virtual_chattr \<lparr>pml4_phys = r\<rparr> virt flags mm = (False, mm)"
    using sp(2) np z
    by (auto simp: path_def arch_mm_virtual_unmap_def arch_mm_virtual_chattr_def rd_def Let_def
        simp flip: pbase_def large_def split: if_splits)
  then show "fst (arch_mm_virtual_unmap \<lparr>pml4_phys = r\<rparr> virt mm) = 0"
    "pm_words (snd (arch_mm_virtual_unmap \<lparr>pml4_phys = r\<rparr> virt mm)) = pm_words mm"
    "spaces D (snd (arch_mm_virtual_unmap \<lparr>pml4_phys = r\<rparr> virt mm)) r R"
    "keeps D mm (snd (arch_mm_virtual_unmap \<lparr>pml4_phys = r\<rparr> virt mm))"
    "arch_mm_virtual_chattr \<lparr>pml4_phys = r\<rparr> virt flags mm = (False, mm)" using sp(1) by auto
qed

lemma unmap_ok:
  assumes sp: "spaces D mm (pml4_phys ctx) R" and user: "R = {} \<or> PML4_IDX virt < 256"
    and run: "arch_mm_virtual_unmap ctx virt mm = (ret, mm')"
  shows "spaces D mm' (pml4_phys ctx) R \<and> keeps D mm mm' \<and>
    (case translation mm ctx virt of
       None \<Rightarrow> ret = 0 \<and> pm_words mm' = pm_words mm
     | Some (phys, flags, sz) \<Rightarrow> ret = phys \<and> hd (pm_invalidated mm') = virt \<and>
         (\<exists>l \<le> 2. sz = arch_mm_page_size l \<and>
           (\<forall>v. translation mm' ctx v = (if same_page l v virt then None else translation mm ctx v)))) \<and>
    (\<forall>s \<in> R. \<forall>v. translation mm' \<lparr>pml4_phys = s\<rparr> v = translation mm \<lparr>pml4_phys = s\<rparr> v)"
proof -
  define r where "r = pml4_phys ctx"
  have ctx: "ctx = \<lparr>pml4_phys = r\<rparr>" by (simp add: r_def)
  have sp: "spaces D mm r R" using sp by (simp add: r_def)
  have plain: "plain (pm_words mm) r" using sp by (simp add: spaces_def)
  note tr = spaces_translation [OF sp, of r virt, simplified]
  show ?thesis
  proof (cases "xlook mm r (path virt)")
    case None
    note u = unmap_nothing [OF sp None user]
    have m: "ret = 0" "pm_words mm' = pm_words mm" "spaces D mm' r R" "keeps D mm mm'" using u run unfolding ctx by auto
    have "translation mm' \<lparr>pml4_phys = s\<rparr> v = translation mm \<lparr>pml4_phys = s\<rparr> v" for s v
      by (rule translation_cong) (rule m(2))
    then show ?thesis using m tr None unfolding ctx by simp
  next
    case (Some x)
    then obtain e l where e: "xlook mm r (path virt) = Some (e, l)" by (cases x) auto
    obtain t where t: "xwalk mm r (take (3 - l) (path virt)) = Some t" "l \<le> 2"
      "spaces D (wr t (path virt ! (3 - l)) 0 mm) r R" "keeps D mm (wr t (path virt ! (3 - l)) 0 mm)"
      "\<And>w. translation (wr t (path virt ! (3 - l)) 0 mm) \<lparr>pml4_phys = r\<rparr> w =
        (if same_page l w virt then None else translation mm \<lparr>pml4_phys = r\<rparr> w)"
      "\<And>s w. s \<in> R \<Longrightarrow> translation (wr t (path virt ! (3 - l)) 0 mm) \<lparr>pml4_phys = s\<rparr> w = translation mm \<lparr>pml4_phys = s\<rparr> w"
      using look_entry [OF sp e _ user, of 0] by auto
    have m: "ret = pbase e" "mm' = invalidate virt (wr t (path virt ! (3 - l)) 0 mm)"
      using unmap_entry(1) [OF plain e t(1)] run unfolding ctx by auto
    have i: "translation (invalidate virt mm0) c v = translation mm0 c v" for mm0 c v
      by (rule translation_cong) simp
    have "translation mm \<lparr>pml4_phys = r\<rparr> virt = Some (page_info (e, l))" using tr e by simp
    then show ?thesis using m t i unfolding ctx by (auto simp: page_info_def)
  qed
qed

text \<open>C32: unmapping an address returns the physical page it was translated to, 0 if it was not
  translated, removes the translations of exactly the addresses of that page, and invalidates
  them; no other address space sees a change when the address is of the lower half, and the contents of
  the pages that hold no tables stay.\<close>

theorem arch_mm_virtual_unmap_correct:
  assumes sp: "spaces D mm (pml4_phys ctx) R" and user: "R = {} \<or> PML4_IDX virt < 256"
    and run: "arch_mm_virtual_unmap ctx virt mm = (ret, mm')"
  shows "spaces D mm' (pml4_phys ctx) R \<and> keeps D mm mm' \<and>
    (case translation mm ctx virt of
       None \<Rightarrow> ret = 0 \<and> pm_words mm' = pm_words mm
     | Some (phys, flags, sz) \<Rightarrow> ret = phys \<and> hd (pm_invalidated mm') = virt \<and>
         (\<exists>l \<le> 2. sz = arch_mm_page_size l \<and>
           (\<forall>v. translation mm' ctx v = (if same_page l v virt then None else translation mm ctx v)))) \<and>
    (\<forall>s \<in> R. \<forall>v. translation mm' \<lparr>pml4_phys = s\<rparr> v = translation mm \<lparr>pml4_phys = s\<rparr> v)"
  using unmap_ok [OF assms] .

text \<open>Changing the flags of an address succeeds exactly when it is translated, and then the
  whole page keeps its physical address and size and has the new flags, but for \<open>MAP_DIRTY\<close>;
  nothing else changes, in this address space or, for an address of the lower half, in any other.\<close>

theorem arch_mm_virtual_chattr_correct:
  assumes sp: "spaces D mm (pml4_phys ctx) R" and user: "R = {} \<or> PML4_IDX virt < 256"
    and run: "arch_mm_virtual_chattr ctx virt flags mm = (r, mm')"
  shows "spaces D mm' (pml4_phys ctx) R \<and> keeps D mm mm' \<and> (r \<longleftrightarrow> translation mm ctx virt \<noteq> None) \<and>
    (case translation mm ctx virt of
       None \<Rightarrow> mm' = mm
     | Some (phys, _, sz) \<Rightarrow>
         \<exists>l \<le> 2. sz = arch_mm_page_size l \<and>
           (\<forall>v. translation mm' ctx v = (if same_page l v virt then Some (phys, kept flags, sz) else translation mm ctx v))) \<and>
    (\<forall>s \<in> R. \<forall>v. translation mm' \<lparr>pml4_phys = s\<rparr> v = translation mm \<lparr>pml4_phys = s\<rparr> v)"
proof -
  define rt where "rt = pml4_phys ctx"
  have ctx: "ctx = \<lparr>pml4_phys = rt\<rparr>" by (simp add: rt_def)
  have sp: "spaces D mm rt R" using sp by (simp add: rt_def)
  have plain: "plain (pm_words mm) rt" using sp by (simp add: spaces_def)
  note tr = spaces_translation [OF sp, of rt virt, simplified]
  show ?thesis
  proof (cases "xlook mm rt (path virt)")
    case None
    then show ?thesis using unmap_nothing(5) [OF sp None user] run sp tr unfolding ctx by auto
  next
    case (Some x)
    then obtain e l where e: "xlook mm rt (path virt) = Some (e, l)" by (cases x) auto
    let ?v = "leaf_entry l (pbase e) flags"
    note le = leaf_entry_info [OF frame_pbase, of l e flags]
    have "?v = 0 \<or> l = 0 \<or> large ?v" using le(2) by blast
    from look_entry [OF sp e this user] le(1) obtain t where t: "xwalk mm rt (take (3 - l) (path virt)) = Some t" "l \<le> 2"
      "spaces D (wr t (path virt ! (3 - l)) ?v mm) rt R" "keeps D mm (wr t (path virt ! (3 - l)) ?v mm)"
      "\<And>w. translation (wr t (path virt ! (3 - l)) ?v mm) \<lparr>pml4_phys = rt\<rparr> w =
        (if same_page l w virt then Some (page_info (?v, l)) else translation mm \<lparr>pml4_phys = rt\<rparr> w)"
      "\<And>s w. s \<in> R \<Longrightarrow> translation (wr t (path virt ! (3 - l)) ?v mm) \<lparr>pml4_phys = s\<rparr> w = translation mm \<lparr>pml4_phys = s\<rparr> w"
      by auto
    have m: "r" "mm' = invalidate virt (wr t (path virt ! (3 - l)) ?v mm)"
      using unmap_entry(2) [OF plain e t(1), of flags] run unfolding ctx by auto
    have i: "translation (invalidate virt mm0) c v = translation mm0 c v" for mm0 c v
      by (rule translation_cong) simp
    have "translation mm \<lparr>pml4_phys = rt\<rparr> virt = Some (page_info (e, l))" using tr e by simp
    moreover have "page_info (?v, l) = (pbase e, kept flags, arch_mm_page_size l)" by (rule le(3))
    ultimately show ?thesis using m t i unfolding ctx by (auto simp: page_info_def)
  qed
qed

section \<open>New address spaces\<close>

lemma clear_entries_words:
  assumes "frame t" "\<forall>i \<in> set is. i < 512"
  shows "pm_words (clear_entries t is mm) = (\<lambda>x. if \<exists>i \<in> set is. x = slot t i then 0 else pm_words mm x)"
  using assms
proof (induction "is" arbitrary: mm)
  case (Cons i "is")
  then show ?case by (auto simp: wr_def fun_eq_iff)
qed simp

lemma copy_entries_words:
  assumes "frame t" "frame s" "t \<noteq> s" "\<forall>i \<in> set is. i < 512" "distinct is" "k < 512"
  shows "pm_words (copy_entries t s is mm) (slot t k) =
    (if k \<in> set is then pm_words mm (slot s k) else pm_words mm (slot t k))"
  using assms(4,5)
proof (induction "is" arbitrary: mm)
  case (Cons i "is")
  have "slot s k \<noteq> slot t i" "slot t k = slot t i \<longleftrightarrow> k = i"
    using slot_unique [OF assms(2,1) assms(6), of i] slot_unique [OF assms(1,1) assms(6), of i] assms(3) Cons.prems by auto
  then show ?case using Cons by (auto simp: wr_def rd_def)
qed simp

lemma copy_entries_other:
  assumes "\<And>i. i \<in> set is \<Longrightarrow> x \<noteq> slot t i"
  shows "pm_words (copy_entries t s is mm) x = pm_words mm x"
  using assms by (induction "is" arbitrary: mm) (auto simp: wr_def)

lemma entries_frame [simp]:
  "taken (clear_entries t is mm) = taken mm" "pm_inv (clear_entries t is mm) = pm_inv mm"
  "taken (copy_entries t s is mm) = taken mm" "pm_inv (copy_entries t s is mm) = pm_inv mm"
  by (induction "is" arbitrary: mm) (simp_all add: wr_def)

lemma entries_room [simp]:
  "pages (clear_entries t is mm) = pages mm" "pages (copy_entries t s is mm) = pages mm"
  "pm_early (clear_entries t is mm) = pm_early mm" "pm_early (copy_entries t s is mm) = pm_early mm"
  "pm_room n (clear_entries t is mm) = pm_room n mm" "pm_room n (copy_entries t s is mm) = pm_room n mm"
  by (induction "is" arbitrary: mm) (simp_all add: wr_def)

text \<open>The words of a new top level.\<close>

lemma new_top:
  assumes a: "frame a" and r: "frame r" "a \<noteq> r" and m1: "pm_words mm1 = clear_words a 0x1000 (pm_words mm)"
  defines "m \<equiv> copy_entries a r [256..<512] (clear_entries a [0..<256] mm1)"
  shows "frame t \<Longrightarrow> t \<noteq> a \<Longrightarrow> i < 512 \<Longrightarrow> pm_words m (slot t i) = pm_words mm (slot t i)"
    and "i < 512 \<Longrightarrow> pm_words m (slot a i) = (if 256 \<le> i then pm_words mm (slot r i) else 0)"
proof -
  define lo hi where "lo = [0..<256 :: nat]" and "hi = [256..<512 :: nat]"
  have m: "m = copy_entries a r hi (clear_entries a lo mm1)" by (simp only: m_def lo_def hi_def)
  have lo: "j \<in> set lo \<longleftrightarrow> j < 256" for j unfolding lo_def by (simp only: set_upt atLeastLessThan_iff) simp
  have hi: "j \<in> set hi \<longleftrightarrow> 256 \<le> j \<and> j < 512" for j unfolding hi_def by (simp only: set_upt atLeastLessThan_iff)
  have dh: "distinct hi" unfolding hi_def by (rule distinct_upt)
  have lo5: "\<forall>j \<in> set lo. j < 512" and hi5: "\<forall>j \<in> set hi. j < 512" using lo hi by auto
  have cl: "pm_words (clear_entries a lo mm1) (slot t i) = pm_words mm (slot t i)" if "frame t" "t \<noteq> a" "i < 512" for t i
  proof -
    have "pm_words (clear_entries a lo mm1) (slot t i) = pm_words mm1 (slot t i)"
      using slot_unique [OF that(1) a that(3)] that(2) by (subst clear_entries_words [OF a lo5]) (fastforce simp: lo)
    then show ?thesis using slot_outside [OF that(1) a that(3,2)] by (simp add: m1 clear_words_def)
  qed
  show "pm_words m (slot t i) = pm_words mm (slot t i)" if t: "frame t" "t \<noteq> a" "i < 512" for t i
  proof -
    have "slot t i \<noteq> slot a j" if "j \<in> set hi" for j using slot_unique [OF t(1) a t(3), of j] t(2) hi that by blast
    then have "pm_words m (slot t i) = pm_words (clear_entries a lo mm1) (slot t i)"
      unfolding m by (rule copy_entries_other)
    then show ?thesis using cl [OF t] by simp
  qed
  show "pm_words m (slot a i) = (if 256 \<le> i then pm_words mm (slot r i) else 0)" if i: "i < 512" for i
  proof -
    have "pm_words (clear_entries a lo mm1) (slot a i) = 0" if "i < 256"
      using that by (subst clear_entries_words [OF a lo5]) (auto simp: lo)
    then show ?thesis
      unfolding m using copy_entries_words [OF a r(1) r(2) hi5 dh i] cl [OF r(1) _ i] r(2) i by (auto simp: hi)
  qed
qed

text \<open>A new top level with the entries of the upper half of an old one.\<close>

lemma new_root:
  assumes sp: "spaces D mm r R" and a: "frame a" "a \<notin> taken mm" "insert a (taken mm) \<subseteq> taken mm'"
    and pg: "pages mm \<subseteq> pages mm'" and inv: "pm_inv mm'"
    and keep: "\<And>t i. t \<in> taken mm \<Longrightarrow> frame t \<Longrightarrow> i < 512 \<Longrightarrow> pm_words mm' (slot t i) = pm_words mm (slot t i)"
    and ent: "\<And>i. i < 512 \<Longrightarrow> pm_words mm' (slot a i) = (if 256 \<le> i then pm_words mm (slot r i) else 0)"
  shows "spaces D mm' a (insert r R)"
    and "in_range 512 (i # q) \<Longrightarrow> length q \<le> 3 \<Longrightarrow> xlook mm' a (i # q) = (if 256 \<le> i then xlook mm r (i # q) else None)"
    and "s \<in> insert r R \<Longrightarrow> in_range 512 q \<Longrightarrow> length q \<le> 4 \<Longrightarrow> xlook mm' s q = xlook mm s q"
proof -
  have T: "\<And>t. frame t \<Longrightarrow> t \<in> taken mm - D \<Longrightarrow> t \<in> taken mm' - D" and D: "D \<subseteq> pages mm'" and aD: "a \<notin> D"
    using a pg spacesD(2) [OF sp] pages_taken [of mm] by auto
  have kp: "pm_words mm' (slot t i) = pm_words mm (slot t i)" if "t \<in> taken mm - D" "frame t" "i < 512" for t i
    using keep that by auto
  note ag = spaces_agree [OF sp T D inv kp]
  have old: "xwalk mm' s q = xwalk mm s q \<and> xlook mm' s q = xlook mm s q"
    if "s \<in> insert r R" "in_range 512 q" "length q \<le> 4" for s q by (rule ag(2)) (use that in auto)
  then show "s \<in> insert r R \<Longrightarrow> in_range 512 q \<Longrightarrow> length q \<le> 4 \<Longrightarrow> xlook mm' s q = xlook mm s q" by blast
  note xr = spacesD(5,4) [OF sp]
  have fr: "frame r" "r \<in> taken mm" using px.tree_frame [OF xr(1), of "[]" r] by auto
  have new: "xwalk mm' a (i # q) = (if 256 \<le> i then xwalk mm r (i # q) else None) \<and>
      xlook mm' a (i # q) = (if 256 \<le> i then xlook mm r (i # q) else None)"
    if "in_range 512 (i # q)" "length q \<le> 3" for i q
  proof -
    have "xwalk mm' r (i # q) = xwalk mm r (i # q) \<and> xlook mm' r (i # q) = xlook mm r (i # q)"
      using old [of r "i # q"] that by simp
    moreover have "pm_words mm' (slot r i) = pm_words mm (slot r i)" using keep [OF fr(2,1)] that by simp
    ultimately show ?thesis using ent [of i] that(1) by (auto simp: Let_def)
  qed
  then show "in_range 512 (i # q) \<Longrightarrow> length q \<le> 3 \<Longrightarrow> xlook mm' a (i # q) = (if 256 \<le> i then xlook mm r (i # q) else None)"
    by blast
  have notin: "xwalk mm s q \<noteq> Some a" if "s \<in> insert r R" "in_range 512 q" "length q < 4" for s q
    using px.tree_frame [OF spacesD(7) [OF sp that(1)] that(2,3)] a(2) by auto
  have wn: "xwalk mm' a p = Some t \<longleftrightarrow> (p = [] \<and> t = a) \<or> (p \<noteq> [] \<and> 256 \<le> hd p \<and> xwalk mm r p = Some t)"
    if "in_range 512 p" "length p < 4" for p t using new that by (cases p) auto
  have "xtree D mm' a" unfolding tree_def
  proof (intro conjI allI impI)
    fix p t assume p: "in_range 512 p" "length p < 4" "xwalk mm' a p = Some t"
    from wn [OF p(1,2)] p(3) have "t = a \<or> xwalk mm r p = Some t" by blast
    then have "frame t \<and> t \<in> taken mm' - D" using a aD T px.tree_frame [OF xr(1) p(1,2)] by blast
    then show "frame t" "t \<in> taken mm' - D" by auto
  next
    fix p q t assume p: "in_range 512 p" "length p < 4" and q: "in_range 512 q" "length q < 4"
      and w: "xwalk mm' a p = Some t" "xwalk mm' a q = Some t"
    show "p = q" using w wn [OF p] wn [OF q] notin [of r p] notin [of r q] p q px.tree_inj [OF xr(1) p q] by auto
  qed
  moreover have "plain (pm_words mm') a" using ent xr(2) by (auto simp: plain_def large_def)
  moreover have ap: "apart (pm_words mm') a s \<and> apart (pm_words mm') s a" if s: "s \<in> insert r R" for s
  proof -
    have "p = q \<and> p \<noteq> [] \<and> 256 \<le> hd p"
      if p: "in_range 512 p" "length p < 4" and q: "in_range 512 q" "length q < 4"
        and w: "xwalk mm' a p = Some t" "xwalk mm' s q = Some t" for p q t
    proof -
      have sq: "xwalk mm s q = Some t" using old [OF s q(1)] q(2) w(2) by simp
      then have rp: "p \<noteq> []" "256 \<le> hd p" "xwalk mm r p = Some t" using wn [OF p] w(1) notin [OF s q] by auto
      have "p = q"
      proof (cases "s = r")
        case True
        then show ?thesis using px.tree_inj [OF xr(1) p q rp(3)] sq by simp
      next
        case False
        then show ?thesis using apartD [OF spacesD(8) [OF sp _ s] p q rp(3) sq] by simp
      qed
      then show ?thesis using rp by simp
    qed
    then show ?thesis unfolding apart_def by metis
  qed
  moreover have "spaces D mm' r R" by (rule ag(1)) auto
  moreover have "a \<notin> insert r R" using notin [of _ "[]"] by auto
  ultimately show "spaces D mm' a (insert r R)" unfolding spaces_def by auto
qed

text \<open>C33: a new address space translates the addresses of the upper half exactly as the kernel
  does, and no others, shares only the tables of that half with the existing ones, and changes
  none of them.\<close>

theorem arch_mm_context_create_correct:
  assumes sp: "spaces D mm (pml4_phys kctx) R" and room: "pm_room (Suc n) mm"
  shows "\<exists>ctx mm'. arch_mm_context_create kctx mm = Some (ctx, mm') \<and> pm_room n mm' \<and> keeps D mm mm' \<and>
    spaces D mm' (pml4_phys ctx) (insert (pml4_phys kctx) R) \<and>
    (\<forall>v. translation mm' ctx v = (if 256 \<le> PML4_IDX v then translation mm kctx v else None)) \<and>
    (\<forall>s \<in> insert (pml4_phys kctx) R. \<forall>v. translation mm' \<lparr>pml4_phys = s\<rparr> v = translation mm \<lparr>pml4_phys = s\<rparr> v)"
proof -
  define r where "r = pml4_phys kctx"
  have kc: "kctx = \<lparr>pml4_phys = r\<rparr>" by (simp add: r_def)
  have sp: "spaces D mm r R" using sp by (simp add: r_def)
  obtain a mm1 where a: "mm_physical_allocate 0x1000 True mm = Some (a, mm1)" "frame a" "a \<notin> taken mm"
    "insert a (taken mm) \<subseteq> taken mm1" "pm_inv mm1" "pm_words mm1 = clear_words a 0x1000 (pm_words mm)"
    "pm_room n mm1" "pages mm \<subseteq> pages mm1" "pm_early mm1 = pm_early mm"
    using page_allocate [OF spacesD(1) [OF sp] room] by (auto simp: pages_def split: if_splits)
  define m where "m = copy_entries a r [256..<512] (clear_entries a [0..<256] mm1)"
  have m: "pm_inv m" "insert a (taken mm) \<subseteq> taken m" "pages mm \<subseteq> pages m" "pm_early m = pm_early mm"
    using a(4,5,8,9) unfolding m_def by (simp_all del: upt_rec_numeral)
  have fr: "frame r" "a \<noteq> r" using px.tree_frame [OF spacesD(5) [OF sp], of "[]" r] a(3) by auto
  note nt = new_top [OF a(2) fr a(6), folded m_def]
  have keep: "pm_words m (slot t i) = pm_words mm (slot t i)" if "t \<in> taken mm" "frame t" "i < 512" for t i
    using nt(1) [OF that(2) _ that(3)] that(1) a(3) by blast
  note nr = new_root [OF sp a(2,3) m(2,3,1) keep nt(2)]
  have s: "spaces D m a (insert r R)" by (rule nr(1)) auto
  have own: "xlook m a (i # q) = (if 256 \<le> i then xlook mm r (i # q) else None)"
    if "in_range 512 (i # q)" "length q \<le> 3" for i q by (rule nr(2)) (use that in auto)
  have oth: "xlook m s' (path v) = xlook mm s' (path v)" if "s' \<in> insert r R" for s' v by (rule nr(3)) (use that in auto)
  have "keeps D mm m" unfolding keeps_def
    using m(2,4) keep spacesD(2) [OF sp] pages_taken [of mm] pages_frame [of _ mm] by blast
  moreover have "pm_room n m" using a(7) unfolding m_def by (simp del: upt_rec_numeral)
  moreover have "translation m \<lparr>pml4_phys = a\<rparr> v = (if 256 \<le> PML4_IDX v then translation mm kctx v else None)" for v
    using spaces_translation [OF s, of a v] spaces_translation [OF sp, of r v] own [of "PML4_IDX v" "tl (path v)"] idx_less [of v]
    unfolding kc by (simp add: path_def)
  moreover have "translation m \<lparr>pml4_phys = s'\<rparr> v = translation mm \<lparr>pml4_phys = s'\<rparr> v" if "s' \<in> insert r R" for s' v
    using spaces_translation [OF s, of s' v] spaces_translation [OF sp that, of v] oth [OF that] that by simp
  moreover have "arch_mm_context_create kctx mm = Some (\<lparr>pml4_phys = a\<rparr>, m)"
    using a(1) by (simp add: arch_mm_context_create_def r_def m_def del: upt_rec_numeral)
  ultimately show ?thesis using s by (auto simp: r_def)
qed

section \<open>A small state\<close>

text \<open>Early memory with an empty top level at the second page.\<close>

definition mm0 :: physmem where
  "mm0 = \<lparr>pm_early = True, pm_start = 0x2000, pm_buddy = buddy0, pm_words = \<lambda>_. 0, pm_invalidated = []\<rparr>"

lemma frame_page: "k < 2 ^ 51 \<Longrightarrow> frame (of_nat (4096 * k))"
  unfolding frame_iff by blast

lemma mm0_spaces: "spaces {} mm0 0x1000 {}" "pm_room 3 mm0" "pm_room 1 mm0"
proof -
  have f: "frame 0x1000" "frame 0x2000" using frame_page [of 1] frame_page [of 2] by simp_all
  have w: "xwalk mm0 0x1000 p = (if p = [] then Some 0x1000 else None)" for p
    by (cases p) (simp_all add: mm0_def)
  have t: "xtree {} mm0 0x1000" using f unfolding tree_def w
    by (auto simp: taken_def mm0_def split: if_splits)
  have "pm_inv mm0" "plain (pm_words mm0) 0x1000"
    using f by (simp_all add: plain_def large_def pm_inv_def mm0_def)
  with t show "spaces {} mm0 0x1000 {}" by (simp add: spaces_def)
  show "pm_room 3 mm0" "pm_room 1 mm0" by (simp_all add: pm_room_def mm0_def)
qed

lemma mm0_empty: "translation mm0 c v = None"
  by (simp add: translation_def arch_mm_virtual_getmap_def rd_def mm0_def)

abbreviation ctx0 :: vm_context where "ctx0 \<equiv> \<lparr>pml4_phys = 0x1000\<rparr>"

theorem arch_mm_virtual_map_correct_witness:
  "\<exists>mm'. arch_mm_virtual_map ctx0 0x400000 0x5000 (arch_mm_page_size 0) (MAP_USER OR MAP_WRITE) mm0 = Some (True, mm') \<and>
    translation mm' ctx0 0x400000 = Some (0x5000, MAP_USER OR MAP_WRITE, arch_mm_page_size 0)"
proof -
  have f: "frame 0x5000" using frame_page [of 5] by simp
  obtain r mm' where m: "arch_mm_virtual_map ctx0 0x400000 0x5000 (arch_mm_page_size 0) (MAP_USER OR MAP_WRITE) mm0 = Some (r, mm')"
    "mapped {} mm0 ctx0 {} 0 0x400000 0x5000 (MAP_USER OR MAP_WRITE) r mm'"
    using arch_mm_virtual_map_correct [of "{}" mm0 ctx0 "{}" 0 0 "0x5000" "0x400000" "MAP_USER OR MAP_WRITE"] f mm0_spaces mm0_empty
    by auto
  then have "r" using mm0_empty by (auto simp: mapped_def split: if_splits)
  moreover have "kept (MAP_USER OR MAP_WRITE) = MAP_USER OR MAP_WRITE" by (simp add: kept_def map_defs)
  ultimately show ?thesis using m by (auto simp: mapped_def same_page_def)
qed

lemma mm1_exists:
  "\<exists>mm1. spaces {} mm1 0x1000 {} \<and> (\<forall>v. translation mm1 ctx0 v =
     (if same_page 0 v 0x600000 then Some (0x200000, MAP_WRITE, arch_mm_page_size 0) else None))"
proof -
  have f: "frame 0x200000" using frame_page [of 512] by simp
  obtain r mm' where m: "mapped {} mm0 ctx0 {} 0 0x600000 0x200000 MAP_WRITE r mm'"
    using map_ok [of "{}" mm0 ctx0 "{}" 0 0 "0x200000" "0x600000" "MAP_WRITE"] f mm0_spaces mm0_empty by auto
  have "r" using m mm0_empty by (auto simp: mapped_def split: if_splits)
  moreover have "kept MAP_WRITE = MAP_WRITE" by (simp add: kept_def map_defs)
  ultimately show ?thesis using m mm0_empty by (auto simp: mapped_def)
qed

theorem arch_mm_virtual_unmap_correct_witness:
  "\<exists>mm1 mm'. translation mm1 ctx0 0x600000 = Some (0x200000, MAP_WRITE, arch_mm_page_size 0) \<and>
     arch_mm_virtual_unmap ctx0 0x600000 mm1 = (0x200000, mm') \<and> translation mm' ctx0 0x600000 = None"
proof -
  obtain mm1 where m: "spaces {} mm1 0x1000 {}" "\<forall>v. translation mm1 ctx0 v =
     (if same_page 0 v 0x600000 then Some (0x200000, MAP_WRITE, arch_mm_page_size 0) else None)"
    using mm1_exists by blast
  obtain ret mm' where u: "arch_mm_virtual_unmap ctx0 0x600000 mm1 = (ret, mm')" by (cases "arch_mm_virtual_unmap ctx0 0x600000 mm1")
  have t: "translation mm1 ctx0 0x600000 = Some (0x200000, MAP_WRITE, arch_mm_page_size 0)" using m(2) by (simp add: same_page_def)
  have "ret = 0x200000 \<and> translation mm' ctx0 0x600000 = None"
    using arch_mm_virtual_unmap_correct [of "{}" mm1 ctx0 "{}" "0x600000" ret mm'] m(1) u t by (auto simp: same_page_def)
  with u t show ?thesis by blast
qed

theorem arch_mm_virtual_chattr_correct_witness:
  "\<exists>mm1 mm'. translation mm1 ctx0 0x600000 = Some (0x200000, MAP_WRITE, arch_mm_page_size 0) \<and>
     arch_mm_virtual_chattr ctx0 0x600000 MAP_USER mm1 = (True, mm') \<and>
     translation mm' ctx0 0x600000 = Some (0x200000, MAP_USER, arch_mm_page_size 0)"
proof -
  obtain mm1 where m: "spaces {} mm1 0x1000 {}" "\<forall>v. translation mm1 ctx0 v =
     (if same_page 0 v 0x600000 then Some (0x200000, MAP_WRITE, arch_mm_page_size 0) else None)"
    using mm1_exists by blast
  obtain r mm' where u: "arch_mm_virtual_chattr ctx0 0x600000 MAP_USER mm1 = (r, mm')"
    by (cases "arch_mm_virtual_chattr ctx0 0x600000 MAP_USER mm1")
  have t: "translation mm1 ctx0 0x600000 = Some (0x200000, MAP_WRITE, arch_mm_page_size 0)" using m(2) by (simp add: same_page_def)
  have "kept MAP_USER = MAP_USER" by (simp add: kept_def map_defs)
  then have "r \<and> translation mm' ctx0 0x600000 = Some (0x200000, MAP_USER, arch_mm_page_size 0)"
    using arch_mm_virtual_chattr_correct [of "{}" mm1 ctx0 "{}" "0x600000" MAP_USER r mm'] m(1) u t by (auto simp: same_page_def)
  with u t show ?thesis by auto
qed

theorem arch_mm_context_create_correct_witness:
  "\<exists>ctx mm'. arch_mm_context_create ctx0 mm0 = Some (ctx, mm') \<and> spaces {} mm' (pml4_phys ctx) {0x1000}"
  using arch_mm_context_create_correct [of "{}" mm0 ctx0 "{}" 0] mm0_spaces by auto

end
