(* ===== verification/RamFs.thy ===== *)
theory RamFs
  imports Hash
begin

text \<open>
  The memory file system of \<open>kernel/fs/ramfs.c\<close>. The hash tables of inodes and of data blocks are
  the finite maps that they implement (see \<open>Hash\<close>); the table of the entries of a directory is
  the list of its entries in the order of its iterator, bucket by bucket and the latest insertion
  of a bucket first, because \<open>getdents\<close> shows that order. An operation holds the lock of the inode
  while it runs. A missing inode is an assertion, so None.
\<close>

section \<open>Structures\<close>

type_synonym name = key

definition page_len :: nat where "page_len = 4096"

type_synonym page = "u8 list"

definition zero_page :: page where "zero_page = replicate page_len 0"

text \<open>The \<open>int\<close> members are signed words of 32 bits.\<close>

record ramfs_inode =
  ri_data :: "u32 \<Rightarrow> page option"
  ri_dirents :: "(name \<times> u64) list"
  ri_mode :: u32
  ri_atime :: u32
  ri_mtime :: u32
  ri_ctime :: u32
  ri_links :: u32
  ri_uid :: u32
  ri_gid :: u32
  ri_id :: u64
  ri_major :: u32
  ri_minor :: u32
  ri_length :: u64

record ramfs_data =
  rfs_inodes :: "u64 \<Rightarrow> ramfs_inode option"
  rfs_next_id :: u64

text \<open>The attributes of \<open>struct inode\<close> (include/fs/inode.h).\<close>

record inode =
  in_id :: u64
  in_mode :: u16
  in_links :: u16
  in_length :: u64
  in_atime :: u64
  in_mtime :: u64
  in_ctime :: u64
  in_uid :: u32
  in_gid :: u32
  in_major :: u32
  in_minor :: u32
  in_dirty :: bool

record gd_dirent =
  d_ino :: u64
  d_off :: u64
  d_reclen :: u16
  d_type :: u8
  d_name :: "u8 list"

section \<open>Inodes\<close>

definition ramfs_inode_init :: "ramfs_inode \<Rightarrow> ramfs_inode" where
  "ramfs_inode_init i = i\<lparr>ri_mode := 0, ri_length := 0, ri_major := 0, ri_minor := 0, ri_links := 0\<rparr>"

definition ramfs_inode_create :: "ramfs_inode \<Rightarrow> ramfs_inode" where
  "ramfs_inode_create i = ramfs_inode_init (i\<lparr>ri_data := \<lambda>_. None, ri_dirents := []\<rparr>)"

text \<open>Emptying an inode that is given back.\<close>

definition ramfs_inode_put :: "ramfs_inode \<Rightarrow> ramfs_inode" where
  "ramfs_inode_put i = i\<lparr>ri_data := \<lambda>_. None, ri_dirents := []\<rparr>"

definition upd_ri :: "ramfs_inode \<Rightarrow> u64 \<Rightarrow> ramfs_data \<Rightarrow> ramfs_data" where
  "upd_ri ri ino rfs = rfs\<lparr>rfs_inodes := (rfs_inodes rfs)(ino := Some ri)\<rparr>"

definition ramfs_read_page :: "u64 \<Rightarrow> u32 \<Rightarrow> ramfs_data \<Rightarrow> (int \<times> page \<times> ramfs_data) option" where
  "ramfs_read_page ino pagenumber rfs = do {
     ri \<leftarrow> rfs_inodes rfs ino;
     let ri = (case ri_data ri pagenumber of
                 None \<Rightarrow> ri\<lparr>ri_data := (ri_data ri)(pagenumber := Some zero_page)\<rparr>
               | Some _ \<Rightarrow> ri);
     block \<leftarrow> ri_data ri pagenumber;
     Some (0, block, upd_ri ri ino rfs) }"

definition ramfs_write_page :: "u64 \<Rightarrow> u32 \<Rightarrow> page \<Rightarrow> ramfs_data \<Rightarrow> (int \<times> ramfs_data) option" where
  "ramfs_write_page ino pagenumber data rfs = do {
     ri \<leftarrow> rfs_inodes rfs ino;
     let ri = (case ri_data ri pagenumber of
                 None \<Rightarrow> ri\<lparr>ri_data := (ri_data ri)(pagenumber := Some zero_page)\<rparr>
               | Some _ \<Rightarrow> ri);
     let ri = ri\<lparr>ri_data := (ri_data ri)(pagenumber := Some data)\<rparr>;
     Some (0, upd_ri ri ino rfs) }"

definition ramfs_load_inode :: "u64 \<Rightarrow> inode \<Rightarrow> ramfs_data \<Rightarrow> int \<times> inode" where
  "ramfs_load_inode ino node rfs =
    (case rfs_inodes rfs ino of
       None \<Rightarrow> (- ENOENT, node)
     | Some ri \<Rightarrow> (0, node\<lparr>in_mode := ucast (ri_mode ri), in_atime := scast (ri_atime ri),
         in_mtime := scast (ri_mtime ri), in_ctime := scast (ri_ctime ri), in_links := ucast (ri_links ri),
         in_length := ri_length ri, in_uid := ri_uid ri, in_gid := ri_gid ri, in_id := ino,
         in_major := ri_major ri, in_minor := ri_minor ri\<rparr>))"

definition ramfs_update_inode :: "inode \<Rightarrow> ramfs_data \<Rightarrow> (int \<times> ramfs_data) option" where
  "ramfs_update_inode node rfs = do {
     ri \<leftarrow> rfs_inodes rfs (in_id node);
     let ri = ri\<lparr>ri_mode := ucast (in_mode node), ri_atime := ucast (in_atime node),
       ri_mtime := ucast (in_mtime node), ri_ctime := ucast (in_ctime node), ri_links := ucast (in_links node),
       ri_length := in_length node, ri_uid := in_uid node, ri_gid := in_gid node,
       ri_major := in_major node, ri_minor := in_minor node\<rparr>;
     Some (0, upd_ri ri (in_id node) rfs) }"

text \<open>\<open>obj\<close> is the object that the allocation of the inode returns.\<close>

definition ramfs_alloc_inode :: "ramfs_inode \<Rightarrow> ramfs_data \<Rightarrow> u64 \<times> ramfs_data" where
  "ramfs_alloc_inode obj rfs =
    (let id = rfs_next_id rfs + 1;
         rfs = rfs\<lparr>rfs_next_id := id\<rparr>;
         ri = (ramfs_inode_init obj)\<lparr>ri_id := id\<rparr>
     in (id, if rfs_inodes rfs id = None then upd_ri ri id rfs else rfs))"

definition ramfs_release_inode :: "inode \<Rightarrow> ramfs_data \<Rightarrow> ramfs_data option" where
  "ramfs_release_inode node rfs = do {
     ri \<leftarrow> rfs_inodes rfs (in_id node);
     Some (rfs\<lparr>rfs_inodes := (rfs_inodes rfs)(in_id node := None)\<rparr>) }"

section \<open>Directories\<close>

definition bucket :: "name \<times> u64 \<Rightarrow> nat" where
  "bucket e = hashfn (fst e) 256"

text \<open>Insertion at the head of the bucket of the entry, in iteration order.\<close>

definition dir_insert :: "name \<times> u64 \<Rightarrow> (name \<times> u64) list \<Rightarrow> (name \<times> u64) list" where
  "dir_insert e es = takeWhile (\<lambda>x. bucket x < bucket e) es @ e # dropWhile (\<lambda>x. bucket x < bucket e) es"

definition dir_delete :: "name \<Rightarrow> (name \<times> u64) list \<Rightarrow> (name \<times> u64) list" where
  "dir_delete n es = filter (\<lambda>x. fst x \<noteq> n) es"

text \<open>The result is the return value and the inode number found.\<close>

definition ramfs_lookup :: "u64 \<Rightarrow> name \<Rightarrow> ramfs_data \<Rightarrow> (int \<times> u64 option) option" where
  "ramfs_lookup dir n rfs = do {
     ri \<leftarrow> rfs_inodes rfs dir;
     Some (case map_of (ri_dirents ri) n of
             None \<Rightarrow> (- ENOENT, None)
           | Some ino \<Rightarrow> (0, Some ino)) }"

definition ramfs_unlink :: "u64 \<Rightarrow> name \<Rightarrow> ramfs_data \<Rightarrow> (int \<times> ramfs_data) option" where
  "ramfs_unlink dir n rfs = do {
     ri \<leftarrow> rfs_inodes rfs dir;
     Some (0, case map_of (ri_dirents ri) n of
                None \<Rightarrow> rfs
              | Some _ \<Rightarrow> upd_ri (ri\<lparr>ri_dirents := dir_delete n (ri_dirents ri)\<rparr>) dir rfs) }"

definition ramfs_do_link :: "u64 \<Rightarrow> name \<Rightarrow> u64 \<Rightarrow> ramfs_data \<Rightarrow> (int \<times> ramfs_data) option" where
  "ramfs_do_link dir n target rfs = do {
     ri \<leftarrow> rfs_inodes rfs dir;
     if map_of (ri_dirents ri) n \<noteq> None then Some (- EEXIST, rfs)
     else do {
       rt \<leftarrow> rfs_inodes rfs target;
       let rfs = upd_ri (ri\<lparr>ri_dirents := dir_insert (n, ri_id rt) (ri_dirents ri)\<rparr>) dir rfs;
       rt \<leftarrow> rfs_inodes rfs target;
       Some (0, upd_ri (rt\<lparr>ri_links := ri_links rt + 1\<rparr>) target rfs) } }"

definition ramfs_link :: "u64 \<Rightarrow> name \<Rightarrow> u64 \<Rightarrow> ramfs_data \<Rightarrow> (int \<times> ramfs_data) option" where
  "ramfs_link dir n target rfs = do {
     ri \<leftarrow> rfs_inodes rfs dir;
     rt \<leftarrow> rfs_inodes rfs target;
     ramfs_do_link dir n target rfs }"

definition S_IFDIR :: u32 where "S_IFDIR = 0x4000"

text \<open>A new file system: \<open>obj\<close> is the object that the allocation of the root inode returns.\<close>

definition ramfs_create :: "u32 \<Rightarrow> ramfs_inode \<Rightarrow> ramfs_data option" where
  "ramfs_create now obj = do {
     let root = (ramfs_inode_create obj)\<lparr>ri_id := 1, ri_mode := S_IFDIR OR 0x1ED, ri_uid := 0, ri_gid := 0,
       ri_atime := now, ri_mtime := now, ri_ctime := now\<rparr>;
     let rfs = \<lparr>rfs_inodes = [1 \<mapsto> root], rfs_next_id = 1\<rparr>;
     (r, rfs) \<leftarrow> ramfs_do_link 1 [46] 1 rfs;
     (r, rfs) \<leftarrow> ramfs_do_link 1 [46, 46] 1 rfs;
     Some rfs }"

definition ramfs_mount :: "ptr \<Rightarrow> u32 \<Rightarrow> ramfs_inode \<Rightarrow> int \<times> ramfs_data option" where
  "ramfs_mount bd now obj = (if bd \<noteq> NULL then (- EINVAL, None) else (0, ramfs_create now obj))"

section \<open>Listing a directory\<close>

definition sizeof_gd_dirent :: nat where "sizeof_gd_dirent = 24"

definition reclen :: "name \<Rightarrow> nat" where
  "reclen n = (let len = length n + sizeof_gd_dirent + 1 in (len div 16) * 16 + 16)"

text \<open>The loop of \<open>getdents\<close>: \<open>read\<close> counts the records passed, \<open>acc\<close> holds the records written
  from the start of the buffer.\<close>

fun getdents_loop :: "nat \<Rightarrow> nat \<Rightarrow> (name \<times> u64) list \<Rightarrow> nat \<Rightarrow> gd_dirent list \<Rightarrow> gd_dirent list" where
  "getdents_loop start cnt [] read acc = acc"
| "getdents_loop start cnt (e # es) read acc =
     (let rl = reclen (fst e) in
      if read \<ge> start then
        if rl + (read - start) > cnt then acc
        else getdents_loop start cnt es (read + rl)
          (acc @ [\<lparr>d_ino = snd e, d_off = of_nat (read + rl + start), d_reclen = of_nat rl, d_type = 0,
                   d_name = fst e @ [0]\<rparr>])
      else getdents_loop start cnt es (read + rl) acc)"

text \<open>The result is the records, the new offset and the number of bytes written.\<close>

definition recs_len :: "gd_dirent list \<Rightarrow> nat" where
  "recs_len ds = sum_list (map (\<lambda>d. unat (d_reclen d)) ds)"

definition ramfs_getdents :: "u64 \<Rightarrow> nat \<Rightarrow> nat \<Rightarrow> ramfs_data \<Rightarrow> (gd_dirent list \<times> nat \<times> nat) option" where
  "ramfs_getdents dir start cnt rfs = do {
     ri \<leftarrow> rfs_inodes rfs dir;
     let ds = getdents_loop start cnt (ri_dirents ri) 0 [];
     Some (ds, start + recs_len ds, recs_len ds) }"

section \<open>Directories are maps\<close>

text \<open>The entries of a directory have distinct names and lie in the order of their buckets.\<close>

definition dir_ok :: "(name \<times> u64) list \<Rightarrow> bool" where
  "dir_ok es \<longleftrightarrow> distinct (map fst es) \<and> sorted (map bucket es)"

definition rfs_inv :: "ramfs_data \<Rightarrow> bool" where
  "rfs_inv rfs \<longleftrightarrow> (\<forall>ino ri. rfs_inodes rfs ino = Some ri \<longrightarrow> dir_ok (ri_dirents ri) \<and> ri_id ri = ino)"

definition dir_map :: "ramfs_data \<Rightarrow> u64 \<Rightarrow> name \<Rightarrow> u64 option" where
  "dir_map rfs dir = (case rfs_inodes rfs dir of None \<Rightarrow> Map.empty | Some ri \<Rightarrow> map_of (ri_dirents ri))"

lemma map_of_middle:
  "fst e \<notin> fst ` set xs \<Longrightarrow> map_of (xs @ e # ys) = (map_of (xs @ ys))(fst e \<mapsto> snd e)"
  by (induction xs) (auto simp: fun_eq_iff)

lemma dir_insert_split:
  obtains xs ys where "es = xs @ ys" "dir_insert e es = xs @ e # ys" "\<forall>x \<in> set xs. bucket x < bucket e"
    "ys \<noteq> [] \<Longrightarrow> bucket e \<le> bucket (hd ys)"
proof
  let ?P = "\<lambda>x. bucket x < bucket e"
  show "es = takeWhile ?P es @ dropWhile ?P es" by simp
  show "dir_insert e es = takeWhile ?P es @ e # dropWhile ?P es" by (simp add: dir_insert_def)
  show "\<forall>x \<in> set (takeWhile ?P es). ?P x" by (blast dest: set_takeWhileD)
  show "bucket e \<le> bucket (hd (dropWhile ?P es))" if "dropWhile ?P es \<noteq> []"
    using hd_dropWhile [OF that] by simp
qed

lemma map_of_dir_insert:
  assumes "map_of es (fst e) = None"
  shows "map_of (dir_insert e es) = (map_of es)(fst e \<mapsto> snd e)"
proof -
  obtain xs ys where s: "es = xs @ ys" "dir_insert e es = xs @ e # ys" using dir_insert_split by blast
  have "fst e \<notin> fst ` set xs" using assms unfolding s(1) map_of_eq_None_iff by auto
  from map_of_middle [OF this] show ?thesis unfolding s(2) by (simp add: s(1))
qed

lemma map_of_dir_delete: "map_of (dir_delete n es) = (map_of es)(n := None)"
  by (induction es) (auto simp: dir_delete_def fun_eq_iff)

lemma dir_ok_insert:
  assumes "dir_ok es" "map_of es (fst e) = None"
  shows "dir_ok (dir_insert e es)"
proof -
  obtain xs ys where s: "es = xs @ ys" "dir_insert e es = xs @ e # ys" "\<forall>x \<in> set xs. bucket x < bucket e"
    "ys \<noteq> [] \<Longrightarrow> bucket e \<le> bucket (hd ys)" using dir_insert_split by blast
  have d: "distinct (map fst (xs @ ys))" "sorted (map bucket (xs @ ys))" "fst e \<notin> fst ` set (xs @ ys)"
    using assms unfolding s(1) map_of_eq_None_iff dir_ok_def by auto
  have "\<forall>x \<in> set ys. bucket e \<le> bucket x"
  proof (cases ys)
    case (Cons y zs)
    then show ?thesis using s(4) d(2) by (auto simp: sorted_append)
  qed simp
  then show ?thesis unfolding s(2) dir_ok_def using d s(3) by (auto simp: sorted_append)
qed

lemma dir_ok_delete: "dir_ok es \<Longrightarrow> dir_ok (dir_delete n es)"
  unfolding dir_ok_def dir_delete_def by (auto intro: sorted_filter distinct_map_filter)


lemma rfs_invD: "rfs_inv rfs \<Longrightarrow> rfs_inodes rfs ino = Some ri \<Longrightarrow> dir_ok (ri_dirents ri) \<and> ri_id ri = ino"
  by (simp add: rfs_inv_def)

lemma rfs_inv_upd:
  "rfs_inv rfs \<Longrightarrow> dir_ok (ri_dirents ri) \<Longrightarrow> ri_id ri = ino \<Longrightarrow> rfs_inv (upd_ri ri ino rfs)"
  by (auto simp: rfs_inv_def upd_ri_def)

text \<open>The contract of a directory: a finite map from names to inode numbers, which a link
  extends, an unlink restricts and a lookup reads.\<close>

lemma link_ok:
  assumes "rfs_inv rfs" "rfs_inodes rfs dir = Some ri" "rfs_inodes rfs target = Some rt"
  shows "\<exists>r rfs'. ramfs_link dir n target rfs = Some (r, rfs') \<and> rfs_inv rfs' \<and>
    (if dir_map rfs dir n = None
     then r = 0 \<and> dir_map rfs' = (dir_map rfs)(dir := (dir_map rfs dir)(n \<mapsto> target)) \<and>
       map_option ri_links (rfs_inodes rfs' target) = Some (ri_links rt + 1)
     else r = - EEXIST \<and> rfs' = rfs) \<and>
    dom (rfs_inodes rfs') = dom (rfs_inodes rfs)"
proof (cases "map_of (ri_dirents ri) n")
  case (Some x)
  then show ?thesis using assms by (simp add: ramfs_link_def ramfs_do_link_def dir_map_def)
next
  case None
  let ?ri = "ri\<lparr>ri_dirents := dir_insert (n, target) (ri_dirents ri)\<rparr>"
  let ?r1 = "upd_ri ?ri dir rfs"
  have t: "ri_id rt = target" "ri_id ri = dir" "dir_ok (ri_dirents ri)" using rfs_invD assms by blast+
  have ok: "dir_ok (ri_dirents ?ri)" using dir_ok_insert [OF t(3), of "(n, target)"] None by simp
  then have i1: "rfs_inv ?r1" using rfs_inv_upd [OF assms(1)] t(2) by simp
  obtain rt1 where rt1: "rfs_inodes ?r1 target = Some rt1" "ri_links rt1 = ri_links rt"
    using assms(2,3) by (cases "target = dir") (auto simp: upd_ri_def)
  let ?rt = "rt1\<lparr>ri_links := ri_links rt1 + 1\<rparr>"
  let ?r2 = "upd_ri ?rt target ?r1"
  have i2: "rfs_inv ?r2" using rfs_inv_upd [OF i1, of ?rt target] rfs_invD [OF i1 rt1(1)] by simp
  have "ramfs_link dir n target rfs = Some (0, ?r2)"
    using assms None rt1 t by (simp add: ramfs_link_def ramfs_do_link_def Let_def)
  moreover have "dir_map ?r1 = (dir_map rfs)(dir := (dir_map rfs dir)(n \<mapsto> target))"
    using assms(2) map_of_dir_insert [of "ri_dirents ri" "(n, target)"] None
    by (auto simp: dir_map_def upd_ri_def fun_eq_iff)
  moreover have "dir_map ?r2 = dir_map ?r1"
    using rt1(1) by (auto simp: dir_map_def upd_ri_def fun_eq_iff)
  moreover have "dom (rfs_inodes ?r2) = dom (rfs_inodes rfs)" using assms(2,3) by (auto simp: upd_ri_def)
  moreover have "rfs_inodes ?r2 target = Some ?rt" by (simp add: upd_ri_def)
  ultimately show ?thesis using i2 None assms(2) rt1(2) by (simp add: dir_map_def)
qed

lemma unlink_ok:
  assumes "rfs_inv rfs" "rfs_inodes rfs dir = Some ri"
  shows "\<exists>rfs'. ramfs_unlink dir n rfs = Some (0, rfs') \<and> rfs_inv rfs' \<and>
    dir_map rfs' = (dir_map rfs)(dir := (dir_map rfs dir)(n := None)) \<and> dom (rfs_inodes rfs') = dom (rfs_inodes rfs)"
proof (cases "map_of (ri_dirents ri) n")
  case None
  then have "dir_map rfs = (dir_map rfs)(dir := (dir_map rfs dir)(n := None))"
    using assms(2) by (auto simp: dir_map_def fun_eq_iff)
  then show ?thesis using assms None by (simp add: ramfs_unlink_def)
next
  case (Some x)
  let ?r = "upd_ri (ri\<lparr>ri_dirents := dir_delete n (ri_dirents ri)\<rparr>) dir rfs"
  have t: "ri_id ri = dir" "dir_ok (ri_dirents ri)" using rfs_invD assms by blast+
  have "rfs_inv ?r" using rfs_inv_upd [OF assms(1)] dir_ok_delete [OF t(2)] t(1) by simp
  moreover have "dir_map ?r = (dir_map rfs)(dir := (dir_map rfs dir)(n := None))"
    using assms(2) map_of_dir_delete [of n "ri_dirents ri"] by (auto simp: dir_map_def upd_ri_def fun_eq_iff)
  moreover have "dom (rfs_inodes ?r) = dom (rfs_inodes rfs)" using assms(2) by (auto simp: upd_ri_def)
  ultimately show ?thesis using assms Some by (simp add: ramfs_unlink_def)
qed

lemma lookup_ok:
  assumes "rfs_inodes rfs dir = Some ri"
  shows "ramfs_lookup dir n rfs = Some (case dir_map rfs dir n of None \<Rightarrow> (- ENOENT, None) | Some i \<Rightarrow> (0, Some i))"
  using assms by (simp add: ramfs_lookup_def dir_map_def)

text \<open>A sequence of links and unlinks, against the maps it stands for.\<close>

datatype dir_op = Link u64 name u64 | Unlink u64 name

fun op_inodes :: "dir_op \<Rightarrow> u64 set" where
  "op_inodes (Link d n t) = {d, t}"
| "op_inodes (Unlink d n) = {d}"

fun run_op :: "dir_op \<Rightarrow> ramfs_data \<Rightarrow> (int \<times> ramfs_data) option" where
  "run_op (Link d n t) rfs = ramfs_link d n t rfs"
| "run_op (Unlink d n) rfs = ramfs_unlink d n rfs"

fun run_ops :: "dir_op list \<Rightarrow> ramfs_data \<Rightarrow> (int list \<times> ramfs_data) option" where
  "run_ops [] rfs = Some ([], rfs)"
| "run_ops (x # xs) rfs = do {
     (r, rfs) \<leftarrow> run_op x rfs;
     (rs, rfs) \<leftarrow> run_ops xs rfs;
     Some (r # rs, rfs) }"

fun spec_op :: "dir_op \<Rightarrow> (u64 \<Rightarrow> name \<Rightarrow> u64 option) \<Rightarrow> int \<times> (u64 \<Rightarrow> name \<Rightarrow> u64 option)" where
  "spec_op (Link d n t) m = (if m d n = None then (0, m(d := (m d)(n \<mapsto> t))) else (- EEXIST, m))"
| "spec_op (Unlink d n) m = (0, m(d := (m d)(n := None)))"

fun spec_ops :: "dir_op list \<Rightarrow> (u64 \<Rightarrow> name \<Rightarrow> u64 option) \<Rightarrow> int list \<times> (u64 \<Rightarrow> name \<Rightarrow> u64 option)" where
  "spec_ops [] m = ([], m)"
| "spec_ops (x # xs) m = (let (r, m) = spec_op x m; (rs, m) = spec_ops xs m in (r # rs, m))"

lemma run_op_refines:
  assumes "rfs_inv rfs" "op_inodes x \<subseteq> dom (rfs_inodes rfs)"
  shows "\<exists>r rfs'. run_op x rfs = Some (r, rfs') \<and> rfs_inv rfs' \<and> spec_op x (dir_map rfs) = (r, dir_map rfs') \<and>
    dom (rfs_inodes rfs') = dom (rfs_inodes rfs)"
proof (cases x)
  case (Link d n t)
  then obtain ri rt where "rfs_inodes rfs d = Some ri" "rfs_inodes rfs t = Some rt" using assms(2) by auto
  from link_ok [OF assms(1) this, of n] obtain r rfs' where
    "ramfs_link d n t rfs = Some (r, rfs')" "rfs_inv rfs'" "dom (rfs_inodes rfs') = dom (rfs_inodes rfs)"
    "if dir_map rfs d n = None then r = 0 \<and> dir_map rfs' = (dir_map rfs)(d := (dir_map rfs d)(n \<mapsto> t))
     else r = - EEXIST \<and> rfs' = rfs" by (metis (no_types, lifting))
  then show ?thesis unfolding Link by (cases "dir_map rfs d n") auto
next
  case (Unlink d n)
  then obtain ri where "rfs_inodes rfs d = Some ri" using assms(2) by auto
  from unlink_ok [OF assms(1) this, of n] obtain rfs' where
    "ramfs_unlink d n rfs = Some (0, rfs')" "rfs_inv rfs'" "dir_map rfs' = (dir_map rfs)(d := (dir_map rfs d)(n := None))"
    "dom (rfs_inodes rfs') = dom (rfs_inodes rfs)" by blast
  then show ?thesis unfolding Unlink by simp
qed

text \<open>C34: any sequence of links and unlinks between existing inodes runs without a panic, returns
  what finite maps from names to inode numbers return (0, or \<open>-EEXIST\<close> for a name that is
  present), and leaves the directories as those maps; lookups then read them.\<close>

theorem ramfs_refines_maps:
  assumes "rfs_inv rfs" and "\<forall>x \<in> set xs. op_inodes x \<subseteq> dom (rfs_inodes rfs)"
  shows "\<exists>rs rfs'. run_ops xs rfs = Some (rs, rfs') \<and> rfs_inv rfs' \<and> spec_ops xs (dir_map rfs) = (rs, dir_map rfs') \<and>
    (\<forall>dir \<in> dom (rfs_inodes rfs). \<forall>n. ramfs_lookup dir n rfs' =
      Some (case snd (spec_ops xs (dir_map rfs)) dir n of None \<Rightarrow> (- ENOENT, None) | Some i \<Rightarrow> (0, Some i)))"
proof -
  have "\<exists>rs rfs'. run_ops xs rfs = Some (rs, rfs') \<and> rfs_inv rfs' \<and> spec_ops xs (dir_map rfs) = (rs, dir_map rfs') \<and>
    dom (rfs_inodes rfs') = dom (rfs_inodes rfs)"
    using assms
  proof (induction xs arbitrary: rfs)
    case (Cons x xs)
    obtain r r1 where 1: "run_op x rfs = Some (r, r1)" "rfs_inv r1" "spec_op x (dir_map rfs) = (r, dir_map r1)"
      "dom (rfs_inodes r1) = dom (rfs_inodes rfs)" using run_op_refines [OF Cons.prems(1), of x] Cons.prems(2) by auto
    from Cons.IH [OF 1(2)] 1(4) Cons.prems(2) obtain rs r2 where
      "run_ops xs r1 = Some (rs, r2)" "rfs_inv r2" "spec_ops xs (dir_map r1) = (rs, dir_map r2)"
      "dom (rfs_inodes r2) = dom (rfs_inodes rfs)" by auto
    then show ?case using 1 by simp
  qed simp
  then obtain rs rfs' where r: "run_ops xs rfs = Some (rs, rfs')" "rfs_inv rfs'" "spec_ops xs (dir_map rfs) = (rs, dir_map rfs')"
    "dom (rfs_inodes rfs') = dom (rfs_inodes rfs)" by blast
  have "ramfs_lookup dir n rfs' = Some (case dir_map rfs' dir n of None \<Rightarrow> (- ENOENT, None) | Some i \<Rightarrow> (0, Some i))"
    if "dir \<in> dom (rfs_inodes rfs)" for dir n
    using lookup_ok [of rfs' dir] that r(4) by blast
  then show ?thesis using r(1-3) by auto
qed

section \<open>Attributes and pages\<close>

lemma sint_word_of_int32: "- (2 ^ 31) \<le> k \<Longrightarrow> k < 2 ^ 31 \<Longrightarrow> sint (word_of_int k :: u32) = k"
  by (simp add: signed_take_bit_int_eq_self sint_sbintrunc')


text \<open>The largest time is read back as a negative one.\<close>

lemma ramfs_time_wraps:
  assumes "rfs_inodes rfs (in_id node) = Some ri" "in_mtime node = 2 ^ 31"
  shows "\<exists>rfs'. ramfs_update_inode node rfs = Some (0, rfs') \<and>
    in_mtime (snd (ramfs_load_inode (in_id node) node' rfs')) = - (2 ^ 31)"
  using assms by (simp add: ramfs_update_inode_def ramfs_load_inode_def upd_ri_def)

definition page_of :: "ramfs_data \<Rightarrow> u64 \<Rightarrow> u32 \<Rightarrow> page" where
  "page_of rfs ino p = (case rfs_inodes rfs ino of None \<Rightarrow> zero_page | Some ri \<Rightarrow>
     (case ri_data ri p of None \<Rightarrow> zero_page | Some b \<Rightarrow> b))"

lemma read_page_ok:
  assumes "rfs_inodes rfs ino = Some ri"
  shows "\<exists>rfs'. ramfs_read_page ino p rfs = Some (0, page_of rfs ino p, rfs') \<and> page_of rfs' = page_of rfs \<and>
    dom (rfs_inodes rfs') = dom (rfs_inodes rfs)"
  using assms
  by (auto simp: ramfs_read_page_def page_of_def upd_ri_def fun_eq_iff Let_def split: option.splits)

lemma write_page_ok:
  assumes "rfs_inodes rfs ino = Some ri"
  shows "\<exists>rfs'. ramfs_write_page ino p data rfs = Some (0, rfs') \<and>
    page_of rfs' = (page_of rfs)(ino := (page_of rfs ino)(p := data)) \<and> dom (rfs_inodes rfs') = dom (rfs_inodes rfs)"
  using assms
  by (auto simp: ramfs_write_page_def page_of_def upd_ri_def fun_eq_iff Let_def split: option.splits)

section \<open>Listing\<close>

text \<open>The offset of an entry is the length of the records before it.\<close>

definition dir_off :: "(name \<times> u64) list \<Rightarrow> nat" where
  "dir_off es = sum_list (map (\<lambda>e. reclen (fst e)) es)"

lemma dir_off_simps [simp]:
  "dir_off [] = 0" "dir_off (e # es) = reclen (fst e) + dir_off es" "dir_off (es @ fs) = dir_off es + dir_off fs"
  by (simp_all add: dir_off_def)

lemma reclen_bounds: "length n + sizeof_gd_dirent + 1 < reclen n" "reclen n \<le> length n + sizeof_gd_dirent + 17" "16 dvd reclen n"
proof -
  define x where "x = length n + sizeof_gd_dirent + 1"
  have r: "reclen n = x div 16 * 16 + 16" by (simp add: reclen_def x_def Let_def)
  have "x = x div 16 * 16 + x mod 16" "x mod 16 < 16" by simp_all
  then have "x < reclen n" "reclen n \<le> x + 16" unfolding r by linarith+
  then show "length n + sizeof_gd_dirent + 1 < reclen n" "reclen n \<le> length n + sizeof_gd_dirent + 17" by (simp_all add: x_def)
  show "16 dvd reclen n" unfolding r by simp
qed

text \<open>The entries that fit into \<open>cnt\<close> bytes.\<close>

fun fitting :: "nat \<Rightarrow> (name \<times> u64) list \<Rightarrow> (name \<times> u64) list" where
  "fitting cnt [] = []"
| "fitting cnt (e # es) = (if reclen (fst e) \<le> cnt then e # fitting (cnt - reclen (fst e)) es else [])"

lemma fitting_prefix: "\<exists>ys. es = fitting cnt es @ ys"
  by (induction es arbitrary: cnt) auto

lemma fitting_len: "dir_off (fitting cnt es) \<le> cnt"
proof (induction es arbitrary: cnt)
  case (Cons e es)
  show ?case using Cons [of "cnt - reclen (fst e)"] by auto
qed simp

lemma fitting_max: "es = fitting cnt es @ e # ys \<Longrightarrow> dir_off (fitting cnt es) + reclen (fst e) > cnt"
proof (induction es arbitrary: cnt)
  case (Cons x es)
  show ?case
  proof (cases "reclen (fst x) \<le> cnt")
    case True
    then show ?thesis using Cons.IH [of "cnt - reclen (fst x)"] Cons.prems by auto
  next
    case False
    then show ?thesis using Cons.prems by simp
  qed
qed simp

definition same_rec :: "gd_dirent \<Rightarrow> name \<times> u64 \<Rightarrow> bool" where
  "same_rec d e \<longleftrightarrow> d_ino d = snd e \<and> d_name d = fst e @ [0] \<and> unat (d_reclen d) = reclen (fst e)"

lemma getdents_loop_out:
  assumes "\<forall>e \<in> set es. length (fst e) < 2 ^ 15"
  shows "start \<le> read \<Longrightarrow> read - start \<le> cnt \<Longrightarrow>
    \<exists>ds. getdents_loop start cnt es read acc = acc @ ds \<and> list_all2 same_rec ds (fitting (cnt - (read - start)) es)"
  using assms
proof (induction es arbitrary: read acc)
  case (Cons e es)
  have l: "reclen (fst e) < 2 ^ 16" using Cons.prems(3) reclen_bounds(2) [of "fst e"] by (simp add: sizeof_gd_dirent_def)
  then have u: "unat (of_nat (reclen (fst e)) :: u16) = reclen (fst e)" by (simp add: unat_of_nat take_bit_nat_eq_self)
  show ?case
  proof (cases "reclen (fst e) + (read - start) > cnt")
    case True
    then show ?thesis using Cons.prems by (auto simp: Let_def)
  next
    case False
    let ?d = "\<lparr>d_ino = snd e, d_off = of_nat (read + reclen (fst e) + start), d_reclen = of_nat (reclen (fst e)), d_type = 0,
                   d_name = fst e @ [0]\<rparr>"
    have "start \<le> read + reclen (fst e)" "read + reclen (fst e) - start \<le> cnt" using Cons.prems False by simp_all
    from Cons.IH [OF this, of "acc @ [?d]"] Cons.prems(3) obtain ds where
      ds: "getdents_loop start cnt es (read + reclen (fst e)) (acc @ [?d]) = acc @ [?d] @ ds"
        "list_all2 same_rec ds (fitting (cnt - (read + reclen (fst e) - start)) es)" by auto
    have "same_rec ?d e" using u by (simp add: same_rec_def)
    moreover have "cnt - (read + reclen (fst e) - start) = cnt - (read - start) - reclen (fst e)" using Cons.prems by simp
    ultimately have "list_all2 same_rec (?d # ds) (fitting (cnt - (read - start)) (e # es))" using ds(2) False by auto
    moreover have "getdents_loop start cnt (e # es) read acc = acc @ ?d # ds" using ds(1) False Cons.prems(1) by (simp add: Let_def)
    ultimately show ?thesis by blast
  qed
qed simp

lemma getdents_loop_skip:
  assumes "read + dir_off es \<le> start"
  shows "getdents_loop start cnt (es @ fs) read acc = getdents_loop start cnt fs (read + dir_off es) acc"
  using assms
proof (induction es arbitrary: read)
  case (Cons e es)
  have "0 < reclen (fst e)" using reclen_bounds(1) [of "fst e"] by simp
  then have "\<not> start \<le> read" using Cons.prems by simp
  then show ?case using Cons by (simp add: Let_def add.assoc)
qed simp

lemma recs_len_same: "list_all2 same_rec ds es \<Longrightarrow> recs_len ds = dir_off es"
  by (induction ds es rule: list_all2_induct) (auto simp: recs_len_def same_rec_def)

text \<open>C36: listing a directory from the offset of one of its entries writes the records of the
  longest run of entries from there that fits into the buffer and never more than the buffer
  holds; each record has room for its header, its name and the terminating zero; and the new
  offset is the offset of the next entry, so that successive calls list every entry once.\<close>

theorem ramfs_getdents_correct:
  assumes "rfs_inodes rfs dir = Some ri" and "ri_dirents ri = es @ fs" and "\<forall>e \<in> set fs. length (fst e) < 2 ^ 15"
  shows "\<exists>ds. ramfs_getdents dir (dir_off es) cnt rfs = Some (ds, dir_off (es @ fitting cnt fs), dir_off (fitting cnt fs)) \<and>
    list_all2 same_rec ds (fitting cnt fs) \<and> dir_off (fitting cnt fs) \<le> cnt \<and>
    (\<forall>d \<in> set ds. sizeof_gd_dirent + length (d_name d) < unat (d_reclen d)) \<and>
    (\<forall>e ys. fs = fitting cnt fs @ e # ys \<longrightarrow> cnt < dir_off (fitting cnt fs) + reclen (fst e))"
proof -
  obtain ds where ds: "getdents_loop (dir_off es) cnt fs (dir_off es) [] = ds" "list_all2 same_rec ds (fitting cnt fs)"
    using getdents_loop_out [OF assms(3), of "dir_off es" "dir_off es" cnt "[]"] by auto
  have "getdents_loop (dir_off es) cnt (es @ fs) 0 [] = ds" using getdents_loop_skip [of 0 es "dir_off es" cnt fs "[]"] ds(1) by simp
  then have run: "ramfs_getdents dir (dir_off es) cnt rfs = Some (ds, dir_off es + recs_len ds, recs_len ds)"
    using assms(1,2) by (simp add: ramfs_getdents_def Let_def)
  have len: "recs_len ds = dir_off (fitting cnt fs)" using recs_len_same [OF ds(2)] .
  have room: "sizeof_gd_dirent + length (d_name d) < unat (d_reclen d)" if "d \<in> set ds" for d
  proof -
    obtain i where "i < length ds" "d = ds ! i" using \<open>d \<in> set ds\<close> by (auto simp: in_set_conv_nth)
    then obtain e where "same_rec d e" using list_all2_nthD [OF ds(2)] by blast
    then show ?thesis using reclen_bounds(1) [of "fst e"] by (simp add: same_rec_def)
  qed
  show ?thesis
  proof (intro exI conjI ballI allI impI)
    show "ramfs_getdents dir (dir_off es) cnt rfs = Some (ds, dir_off (es @ fitting cnt fs), dir_off (fitting cnt fs))"
      unfolding run len by simp
    show "list_all2 same_rec ds (fitting cnt fs)" by (rule ds(2))
    show "dir_off (fitting cnt fs) \<le> cnt" by (rule fitting_len)
    show "sizeof_gd_dirent + length (d_name d) < unat (d_reclen d)" if "d \<in> set ds" for d by (rule room [OF that])
    show "cnt < dir_off (fitting cnt fs) + reclen (fst e)" if "fs = fitting cnt fs @ e # ys" for e ys
      by (rule fitting_max [OF that])
  qed
qed

section \<open>A small file system\<close>

definition blank_inode :: ramfs_inode where
  "blank_inode = \<lparr>ri_data = \<lambda>_. None, ri_dirents = [], ri_mode = 0, ri_atime = 0, ri_mtime = 0, ri_ctime = 0,
     ri_links = 0, ri_uid = 0, ri_gid = 0, ri_id = 0, ri_major = 0, ri_minor = 0, ri_length = 0\<rparr>"

definition rfs0 :: ramfs_data where
  "rfs0 = \<lparr>rfs_inodes = [1 \<mapsto> blank_inode\<lparr>ri_id := 1, ri_links := 2, ri_dirents := [([46, 46], 1), ([46], 1)]\<rparr>,
     2 \<mapsto> blank_inode\<lparr>ri_id := 2\<rparr>], rfs_next_id = 2\<rparr>"

lemma rfs0_inv: "rfs_inv rfs0" "dom (rfs_inodes rfs0) = {1, 2}"
  by (auto simp: rfs_inv_def rfs0_def dir_ok_def blank_inode_def bucket_def hashfn_def split: if_splits)

theorem ramfs_refines_maps_witness:
  "\<exists>rfs'. run_ops [Link 1 [97] 2, Link 1 [97] 1, Unlink 1 [46]] rfs0 = Some ([0, - EEXIST, 0], rfs') \<and>
    ramfs_lookup 1 [97] rfs' = Some (0, Some 2) \<and> ramfs_lookup 1 [46] rfs' = Some (- ENOENT, None)"
proof -
  let ?xs = "[Link 1 [97] 2, Link 1 [97] 1, Unlink 1 [46]]"
  have "\<forall>x \<in> set ?xs. op_inodes x \<subseteq> dom (rfs_inodes rfs0)" using rfs0_inv(2) by simp
  from ramfs_refines_maps [OF rfs0_inv(1) this] obtain rs rfs' where
    r: "run_ops ?xs rfs0 = Some (rs, rfs')" "spec_ops ?xs (dir_map rfs0) = (rs, dir_map rfs')"
      "\<forall>n. ramfs_lookup 1 n rfs' = Some (case snd (spec_ops ?xs (dir_map rfs0)) 1 n of None \<Rightarrow> (- ENOENT, None) | Some i \<Rightarrow> (0, Some i))"
    using rfs0_inv(2) by blast
  have m: "dir_map rfs0 1 = [[46] \<mapsto> 1, [46, 46] \<mapsto> 1]" by (auto simp: dir_map_def rfs0_def blank_inode_def)
  have "rs = [0, - EEXIST, 0]" using r(2) m by (auto simp: Let_def)
  moreover have "snd (spec_ops ?xs (dir_map rfs0)) 1 [97] = Some 2" "snd (spec_ops ?xs (dir_map rfs0)) 1 [46] = None"
    using m by (simp_all add: Let_def)
  then have "ramfs_lookup 1 [97] rfs' = Some (0, Some 2)" "ramfs_lookup 1 [46] rfs' = Some (- ENOENT, None)"
    unfolding r(3) [rule_format] by simp_all
  ultimately show ?thesis using r(1) by blast
qed


theorem ramfs_getdents_correct_witness:
  "\<exists>ds. ramfs_getdents 1 0 40 rfs0 = Some (ds, 32, 32) \<and> map d_name ds = [[46, 46, 0]]"
proof -
  have r: "rfs_inodes rfs0 1 = Some (blank_inode\<lparr>ri_id := 1, ri_links := 2, ri_dirents := [([46, 46], 1), ([46], 1)]\<rparr>)"
    by (simp add: rfs0_def)
  have f: "fitting 40 [([46, 46], 1), ([46], 1)] = [([46, 46], 1 :: u64)]" "reclen [46, 46] = 32"
    by (simp_all add: reclen_def sizeof_gd_dirent_def)
  from ramfs_getdents_correct [OF r, of "[]" "[([46, 46], 1), ([46], 1)]" 40] f show ?thesis
    by (auto simp: same_rec_def list_all2_Cons2)
qed

end
