(* ===== verification/KobjLru.thy ===== *)
theory KobjLru
  imports LinkedList
begin

text \<open>
  The cache of reference-counted objects of \<open>kernel/kobj_lru.c\<close>. Its hash table is the list of its
  entries, the two linked lists are the lists they represent, and the headers of the objects are a
  function of the address. Objects are numbered in the order of their allocation. The lock of the
  cache is held around each group of steps; the functions \<open>init\<close> and \<open>release\<close> of a client run
  without it and are parameters here. Calls follow one another: where the code would wait for
  another thread to finish loading or releasing an object, the result is \<open>Waits\<close>. A panic is None.
\<close>

section \<open>Structures\<close>

definition KOBJ_LRU_INIT :: u32 where "KOBJ_LRU_INIT = 1"
definition KOBJ_LRU_ERR :: u32 where "KOBJ_LRU_ERR = 2"
definition KOBJ_LRU_DESTROY :: u32 where "KOBJ_LRU_DESTROY = 4"
definition KOBJ_LRU :: u32 where "KOBJ_LRU = 1024"

record 'i kobj_header =
  koh_refs :: int
  koh_flags :: u32
  koh_id :: 'i

record 'i kobj_lru =
  lru_max :: nat
  lru_hash :: "('i \<times> ptr) list"
  lru_lru :: "ptr list"
  lru_active :: "ptr list"
  lru_hdr :: "ptr \<Rightarrow> 'i kobj_header"
  lru_next :: ptr

datatype lru_result = Object ptr | Waits

definition upd_hdr :: "ptr \<Rightarrow> ('i kobj_header \<Rightarrow> 'i kobj_header) \<Rightarrow> 'i kobj_lru \<Rightarrow> 'i kobj_lru" where
  "upd_hdr p f l = l\<lparr>lru_hdr := (lru_hdr l)(p := f (lru_hdr l p))\<rparr>"

definition has_flag :: "ptr \<Rightarrow> u32 \<Rightarrow> 'i kobj_lru \<Rightarrow> bool" where
  "has_flag p f l \<longleftrightarrow> koh_flags (lru_hdr l p) AND f \<noteq> 0"

definition hash_add :: "'i \<Rightarrow> ptr \<Rightarrow> 'i kobj_lru \<Rightarrow> 'i kobj_lru" where
  "hash_add i p l = (if map_of (lru_hash l) i = None then l\<lparr>lru_hash := (i, p) # lru_hash l\<rparr> else l)"

definition hash_del :: "'i \<Rightarrow> 'i kobj_lru \<Rightarrow> 'i kobj_lru" where
  "hash_del i l = l\<lparr>lru_hash := filter (\<lambda>e. fst e \<noteq> i) (lru_hash l)\<rparr>"

section \<open>Operations\<close>

definition kobj_lru_create :: "nat \<Rightarrow> 'i kobj_lru \<Rightarrow> 'i kobj_lru" where
  "kobj_lru_create mx l = l\<lparr>lru_max := mx, lru_hash := [], lru_lru := [], lru_active := []\<rparr>"

text \<open>The value is the number of references that are left.\<close>

definition lru_putref :: "ptr \<Rightarrow> 'i kobj_lru \<Rightarrow> (int \<times> 'i kobj_lru) option" where
  "lru_putref p l = do {
     let c = koh_refs (lru_hdr l p);
     kassert (c > 0);
     Some (c - 1, upd_hdr p (\<lambda>h. h\<lparr>koh_refs := koh_refs h - 1\<rparr>) l) }"

definition lru_getref :: "ptr \<Rightarrow> 'i kobj_lru \<Rightarrow> 'i kobj_lru" where
  "lru_getref p l = upd_hdr p (\<lambda>h. h\<lparr>koh_refs := koh_refs h + 1\<rparr>) l"

definition kobj_lru_mark_ready :: "ptr \<Rightarrow> 'i \<Rightarrow> 'i kobj_lru \<Rightarrow> 'i kobj_lru" where
  "kobj_lru_mark_ready obj i l =
    (let l = upd_hdr obj (\<lambda>h. h\<lparr>koh_id := i\<rparr>) l;
         l = hash_del i l;
         l = hash_add i obj l
     in upd_hdr obj (\<lambda>h. h\<lparr>koh_flags := koh_flags h OR KOBJ_LRU_INIT\<rparr>) l)"

definition kobj_lru_mark_error :: "ptr \<Rightarrow> 'i \<Rightarrow> 'i kobj_lru \<Rightarrow> 'i kobj_lru option" where
  "kobj_lru_mark_error obj i l = do {
     let l = hash_del i l;
     a \<leftarrow> ls_remove obj (lru_active l);
     let l = l\<lparr>lru_active := a\<rparr>;
     let l = upd_hdr obj (\<lambda>h. h\<lparr>koh_id := i, koh_flags := koh_flags h OR KOBJ_LRU_ERR OR KOBJ_LRU_INIT\<rparr>) l;
     (c, l) \<leftarrow> lru_putref obj l;
     (c, l) \<leftarrow> lru_putref obj l;
     Some l }"

definition kobj_lru_reclaim :: "(ptr \<Rightarrow> 'w \<Rightarrow> 'w option) \<Rightarrow> 'i kobj_lru \<times> 'w \<Rightarrow> ('i kobj_lru \<times> 'w) option" where
  "kobj_lru_reclaim release lw = (case lw of (l, w) \<Rightarrow>
     if lru_lru l = [] then Some (l, w)
     else do {
       let obj = last (lru_lru l);
       let l = l\<lparr>lru_lru := butlast (lru_lru l)\<rparr>;
       kassert (koh_refs (lru_hdr l obj) = 2);
       let l = upd_hdr obj (\<lambda>h. h\<lparr>koh_flags := koh_flags h OR KOBJ_LRU_DESTROY\<rparr>) l;
       (c, l) \<leftarrow> lru_putref obj l;
       w \<leftarrow> release obj w;
       let i = koh_id (lru_hdr l obj);
       let found = map_of (lru_hash l) i \<noteq> None;
       let l = hash_del i l;
       let l = upd_hdr obj (\<lambda>h. h\<lparr>koh_flags := koh_flags h AND NOT KOBJ_LRU_DESTROY\<rparr>) l;
       kassert found;
       (c, l) \<leftarrow> lru_putref obj l;
       Some (l, w) })"

text \<open>What \<open>kobj_lru_get\<close> and \<open>kobj_lru_lookup_cached\<close> do with an object that is in the table. The
  tests that follow a wait in the code see the same flags when there is no wait.\<close>

definition lru_found :: "ptr \<Rightarrow> 'i kobj_lru \<Rightarrow> (lru_result \<times> 'i kobj_lru) option" where
  "lru_found obj l = do {
     kassert (has_flag obj KOBJ_LRU l);
     if has_flag obj KOBJ_LRU_DESTROY l then Some (Waits, l)
     else do {
       let ref = koh_refs (lru_hdr l obj);
       let l = lru_getref obj l;
       if \<not> has_flag obj KOBJ_LRU_INIT l then Some (Waits, l)
       else if has_flag obj KOBJ_LRU_ERR l then do {
         (c, l) \<leftarrow> lru_putref obj l;
         Some (Object NULL, l) }
       else do {
         kassert (koh_refs (lru_hdr l obj) > 2);
         if ref = 2 then do {
           kassert (lru_lru l \<noteq> []);
           ls \<leftarrow> ls_remove obj (lru_lru l);
           Some (Object obj, l\<lparr>lru_lru := ls, lru_active := obj # lru_active l\<rparr>) }
         else Some (Object obj, l) } } }"

text \<open>The allocation of an object with its two references from the lists and the table.\<close>

definition lru_alloc :: "'i \<Rightarrow> 'i kobj_lru \<Rightarrow> (ptr \<times> 'i kobj_lru) option" where
  "lru_alloc i l = do {
     let obj = lru_next l;
     let l = l\<lparr>lru_next := lru_next l + 1\<rparr>;
     let l = upd_hdr obj (\<lambda>h. h\<lparr>koh_refs := 1, koh_flags := 0\<rparr>) l;
     let l = upd_hdr obj (\<lambda>h. h\<lparr>koh_flags := KOBJ_LRU\<rparr>) l;
     let l = lru_getref obj l;
     let l = l\<lparr>lru_active := obj # lru_active l\<rparr>;
     let l = lru_getref obj l;
     let l = hash_add i obj l;
     kassert (koh_refs (lru_hdr l obj) = 3);
     Some (obj, l) }"

function kobj_lru_get_loop :: "(ptr \<Rightarrow> 'i \<Rightarrow> 'i kobj_lru \<times> 'w \<Rightarrow> (bool \<times> 'i kobj_lru \<times> 'w) option)
    \<Rightarrow> (ptr \<Rightarrow> 'w \<Rightarrow> 'w option) \<Rightarrow> bool \<Rightarrow> 'i \<Rightarrow> 'i kobj_lru \<times> 'w \<Rightarrow> (lru_result \<times> 'i kobj_lru \<times> 'w) option" where
  "kobj_lru_get_loop init release tried i lw =
    (case map_of (lru_hash (fst lw)) i of
       Some obj \<Rightarrow> do {
         (r, l) \<leftarrow> lru_found obj (fst lw);
         Some (r, l, snd lw) }
     | None \<Rightarrow>
         if length (lru_hash (fst lw)) \<ge> lru_max (fst lw) \<and> lru_max (fst lw) > 0 \<and> \<not> tried then do {
           lw \<leftarrow> kobj_lru_reclaim release lw;
           kobj_lru_get_loop init release True i lw }
         else do {
           (obj, l) \<leftarrow> lru_alloc i (fst lw);
           (ok, l, w) \<leftarrow> init obj i (l, snd lw);
           if \<not> ok then do {
             (c, l) \<leftarrow> lru_putref obj l;
             Some (Object NULL, l, w) }
           else Some (Object obj, l, w) })"
  by auto
termination by (relation "measure (\<lambda>(init, release, tried, i, lw). if tried then 0 else 1)") auto

declare kobj_lru_get_loop.simps [simp del]

definition kobj_lru_get :: "(ptr \<Rightarrow> 'i \<Rightarrow> 'i kobj_lru \<times> 'w \<Rightarrow> (bool \<times> 'i kobj_lru \<times> 'w) option)
    \<Rightarrow> (ptr \<Rightarrow> 'w \<Rightarrow> 'w option) \<Rightarrow> 'i \<Rightarrow> 'i kobj_lru \<times> 'w \<Rightarrow> (lru_result \<times> 'i kobj_lru \<times> 'w) option" where
  "kobj_lru_get init release i lw = kobj_lru_get_loop init release False i lw"

definition kobj_lru_lookup_cached :: "'i \<Rightarrow> 'i kobj_lru \<Rightarrow> (lru_result \<times> 'i kobj_lru) option" where
  "kobj_lru_lookup_cached i l =
    (case map_of (lru_hash l) i of
       Some obj \<Rightarrow> lru_found obj l
     | None \<Rightarrow> Some (Object NULL, l))"

definition kobj_lru_remove :: "ptr \<Rightarrow> 'i kobj_lru \<Rightarrow> 'i kobj_lru option" where
  "kobj_lru_remove obj l = do {
     let l = hash_del (koh_id (lru_hdr l obj)) l;
     a \<leftarrow> ls_remove obj (lru_active l);
     let l = l\<lparr>lru_active := a\<rparr>;
     let l = upd_hdr obj (\<lambda>h. h\<lparr>koh_flags := koh_flags h AND NOT KOBJ_LRU\<rparr>) l;
     (c, l) \<leftarrow> lru_putref obj l;
     (c, l) \<leftarrow> lru_putref obj l;
     Some l }"

text \<open>No client has a \<open>drop\<close> function.\<close>

definition kobj_lru_put :: "ptr \<Rightarrow> 'i kobj_lru \<Rightarrow> 'i kobj_lru option" where
  "kobj_lru_put obj l = do {
     kassert (\<not> has_flag obj KOBJ_LRU_DESTROY l);
     (ref, l) \<leftarrow> lru_putref obj l;
     kassert (\<not> (koh_refs (lru_hdr l obj) < 2 \<or> ref < 2));
     if ref = 2 \<and> has_flag obj KOBJ_LRU l then do {
       kassert (lru_active l \<noteq> []);
       a \<leftarrow> ls_remove obj (lru_active l);
       Some (l\<lparr>lru_active := a, lru_lru := obj # lru_lru l\<rparr>) }
     else Some l }"

section \<open>Invariant\<close>

text \<open>A loaded object of the cache has a reference from the table and one from a list; it is on
  the list of unused objects exactly when it has no others.\<close>

definition obj_ok :: "'i kobj_lru \<Rightarrow> 'i \<Rightarrow> ptr \<Rightarrow> bool" where
  "obj_ok l i p \<longleftrightarrow> 0 < p \<and> p < lru_next l \<and> koh_id (lru_hdr l p) = i \<and> koh_flags (lru_hdr l p) = KOBJ_LRU OR KOBJ_LRU_INIT \<and>
     koh_refs (lru_hdr l p) \<ge> 2 \<and> (p \<in> set (lru_lru l) \<longleftrightarrow> koh_refs (lru_hdr l p) = 2)"

definition lru_inv :: "'i kobj_lru \<Rightarrow> bool" where
  "lru_inv l \<longleftrightarrow> distinct (map fst (lru_hash l)) \<and> distinct (map snd (lru_hash l)) \<and>
     distinct (lru_lru l @ lru_active l) \<and> set (lru_lru l @ lru_active l) = snd ` set (lru_hash l) \<and>
     0 < lru_next l \<and> (\<forall>i p. (i, p) \<in> set (lru_hash l) \<longrightarrow> obj_ok l i p)"

text \<open>The object cached under an identifier.\<close>

abbreviation cached :: "'i kobj_lru \<Rightarrow> 'i \<Rightarrow> ptr option" where
  "cached l \<equiv> map_of (lru_hash l)"

lemma flag_simps:
  "(KOBJ_LRU OR KOBJ_LRU_INIT) AND KOBJ_LRU \<noteq> 0" "(KOBJ_LRU OR KOBJ_LRU_INIT) AND KOBJ_LRU_INIT \<noteq> 0"
  "(KOBJ_LRU OR KOBJ_LRU_INIT) AND KOBJ_LRU_DESTROY = 0" "(KOBJ_LRU OR KOBJ_LRU_INIT) AND KOBJ_LRU_ERR = 0"
  by (simp_all add: KOBJ_LRU_def KOBJ_LRU_INIT_def KOBJ_LRU_DESTROY_def KOBJ_LRU_ERR_def)

lemma upd_hdr_simps [simp]:
  "lru_hash (upd_hdr p f l) = lru_hash l" "lru_lru (upd_hdr p f l) = lru_lru l" "lru_active (upd_hdr p f l) = lru_active l"
  "lru_next (upd_hdr p f l) = lru_next l" "lru_max (upd_hdr p f l) = lru_max l"
  "lru_hdr (upd_hdr p f l) = (lru_hdr l)(p := f (lru_hdr l p))"
  by (simp_all add: upd_hdr_def)

lemma obj_okD: "lru_inv l \<Longrightarrow> cached l i = Some p \<Longrightarrow> obj_ok l i p"
  by (auto simp: lru_inv_def dest: map_of_SomeD)

lemma lru_invD:
  assumes "lru_inv l"
  shows "distinct (map fst (lru_hash l))" "distinct (map snd (lru_hash l))" "distinct (lru_lru l)" "distinct (lru_active l)"
    "set (lru_lru l) \<inter> set (lru_active l) = {}" "set (lru_lru l) \<union> set (lru_active l) = snd ` set (lru_hash l)" "0 < lru_next l"
  using assms by (auto simp: lru_inv_def)

lemma cached_iff: "lru_inv l \<Longrightarrow> cached l i = Some p \<longleftrightarrow> (i, p) \<in> set (lru_hash l)"
  using lru_invD(1) by (metis map_of_eq_Some_iff)

lemma cached_inj: "lru_inv l \<Longrightarrow> cached l i = Some p \<Longrightarrow> cached l j = Some p \<Longrightarrow> i = j"
  using obj_okD [of l i p] obj_okD [of l j p] by (auto simp: obj_ok_def)

lemma cached_lists: "lru_inv l \<Longrightarrow> cached l i = Some p \<Longrightarrow> p \<in> set (lru_lru l) \<union> set (lru_active l)"
  using lru_invD(6) cached_iff by (metis image_eqI snd_conv)

text \<open>Changing the header of one object and moving it between the lists.\<close>

lemma lru_inv_upd:
  assumes inv: "lru_inv l" and p: "cached l i = Some p"
    and hash: "lru_hash l' = lru_hash l" "lru_next l' = lru_next l"
    and hdr: "\<And>q. q \<noteq> p \<Longrightarrow> lru_hdr l' q = lru_hdr l q" and ok: "obj_ok l' i p"
    and lists: "distinct (lru_lru l' @ lru_active l')" "set (lru_lru l' @ lru_active l') = set (lru_lru l @ lru_active l)"
      "set (lru_lru l') - {p} = set (lru_lru l) - {p}"
  shows "lru_inv l'"
proof -
  have "obj_ok l' j q" if "(j, q) \<in> set (lru_hash l)" for j q
  proof (cases "q = p")
    case True
    then have "j = i" using cached_inj [OF inv p] cached_iff [OF inv] that by blast
    then show ?thesis using ok True by simp
  next
    case False
    then have "q \<in> set (lru_lru l') \<longleftrightarrow> q \<in> set (lru_lru l)" using lists(3) by blast
    then show ?thesis using inv that hdr [OF False] hash(2) by (auto simp: lru_inv_def obj_ok_def)
  qed
  then show ?thesis using inv hash lists unfolding lru_inv_def by simp
qed

lemma found_ok:
  assumes inv: "lru_inv l" and p: "cached l i = Some p"
  shows "\<exists>l'. lru_found p l = Some (Object p, l') \<and> lru_inv l' \<and> lru_hash l' = lru_hash l \<and> lru_max l' = lru_max l \<and>
    koh_refs (lru_hdr l' p) = koh_refs (lru_hdr l p) + 1 \<and> (\<forall>q. q \<noteq> p \<longrightarrow> lru_hdr l' q = lru_hdr l q)"
proof -
  have ok: "obj_ok l i p" by (rule obj_okD [OF inv p])
  have fl: "has_flag p KOBJ_LRU l" "\<not> has_flag p KOBJ_LRU_DESTROY l" "has_flag p KOBJ_LRU_INIT (lru_getref p l)"
    "\<not> has_flag p KOBJ_LRU_ERR (lru_getref p l)"
    using ok flag_simps by (simp_all add: has_flag_def obj_ok_def lru_getref_def)
  have r: "koh_refs (lru_hdr (lru_getref p l) p) = koh_refs (lru_hdr l p) + 1" "koh_refs (lru_hdr l p) \<ge> 2"
    using ok by (simp_all add: lru_getref_def obj_ok_def)
  note d = lru_invD [OF inv]
  show ?thesis
  proof (cases "koh_refs (lru_hdr l p) = 2")
    case True
    let ?l = "lru_getref p l\<lparr>lru_lru := remove1 p (lru_lru l), lru_active := p # lru_active l\<rparr>"
    have m: "p \<in> set (lru_lru l)" using ok True by (simp add: obj_ok_def)
    then have "lru_found p l = Some (Object p, ?l)"
      using fl r True unfolding lru_found_def by (simp add: Let_def lru_getref_def) (auto simp: lru_getref_def)
    moreover have "lru_inv ?l"
      by (rule lru_inv_upd [OF inv p]) (use ok m d True in \<open>auto simp: lru_getref_def obj_ok_def\<close>)
    ultimately show ?thesis by (simp add: lru_getref_def)
  next
    case False
    have n: "p \<notin> set (lru_lru l)" using ok False by (simp add: obj_ok_def)
    have "lru_found p l = Some (Object p, lru_getref p l)"
      using fl r False unfolding lru_found_def by (simp add: Let_def)
    moreover have "lru_inv (lru_getref p l)"
      by (rule lru_inv_upd [OF inv p]) (use ok n d False r in \<open>auto simp: lru_getref_def obj_ok_def\<close>)
    ultimately show ?thesis by (simp add: lru_getref_def)
  qed
qed

lemma put_ok:
  assumes inv: "lru_inv l" and p: "cached l i = Some p" and r: "koh_refs (lru_hdr l p) > 2"
  shows "\<exists>l'. kobj_lru_put p l = Some l' \<and> lru_inv l' \<and> lru_hash l' = lru_hash l \<and> lru_max l' = lru_max l \<and>
    koh_refs (lru_hdr l' p) = koh_refs (lru_hdr l p) - 1 \<and> (\<forall>q. q \<noteq> p \<longrightarrow> lru_hdr l' q = lru_hdr l q)"
proof -
  have ok: "obj_ok l i p" by (rule obj_okD [OF inv p])
  let ?l = "upd_hdr p (\<lambda>h. h\<lparr>koh_refs := koh_refs h - 1\<rparr>) l"
  have fl: "has_flag p KOBJ_LRU ?l" "\<not> has_flag p KOBJ_LRU_DESTROY l"
    using ok flag_simps by (simp_all add: has_flag_def obj_ok_def)
  note d = lru_invD [OF inv]
  have n: "p \<notin> set (lru_lru l)" using ok r by (simp add: obj_ok_def)
  then have a: "p \<in> set (lru_active l)" using cached_lists [OF inv p] by blast
  show ?thesis
  proof (cases "koh_refs (lru_hdr l p) = 3")
    case True
    let ?l' = "?l\<lparr>lru_active := remove1 p (lru_active l), lru_lru := p # lru_lru l\<rparr>"
    have "kobj_lru_put p l = Some ?l'"
      using fl True a unfolding kobj_lru_put_def lru_putref_def by auto
    moreover have "lru_inv ?l'"
      by (rule lru_inv_upd [OF inv p]) (use ok n a d True in \<open>auto simp: obj_ok_def\<close>)
    ultimately show ?thesis using True by simp
  next
    case False
    have "kobj_lru_put p l = Some ?l"
      using fl False r unfolding kobj_lru_put_def lru_putref_def by auto
    moreover have "lru_inv ?l"
      by (rule lru_inv_upd [OF inv p]) (use ok n d False r in \<open>auto simp: obj_ok_def\<close>)
    ultimately show ?thesis by simp
  qed
qed

text \<open>Taking an object out of the cache.\<close>

lemma map_of_hash_del: "map_of (filter (\<lambda>e. fst e \<noteq> i) xs) = (map_of xs)(i := None)"
  by (induction xs) (auto simp: fun_eq_iff)

lemma lru_inv_del:
  assumes inv: "lru_inv l" and p: "cached l i = Some p"
    and hash: "lru_hash l' = filter (\<lambda>e. fst e \<noteq> i) (lru_hash l)" "lru_next l' = lru_next l"
    and hdr: "\<And>q. q \<noteq> p \<Longrightarrow> lru_hdr l' q = lru_hdr l q"
    and lists: "lru_lru l' = remove1 p (lru_lru l)" "lru_active l' = remove1 p (lru_active l)"
  shows "lru_inv l'"
proof -
  note d = lru_invD [OF inv]
  have ne: "q \<noteq> p" if "(j, q) \<in> set (lru_hash l)" "j \<noteq> i" for j q
    using cached_inj [OF inv p, of j] cached_iff [OF inv, of j q] that by auto
  have im: "snd ` set (filter (\<lambda>e. fst e \<noteq> i) (lru_hash l)) = snd ` set (lru_hash l) - {p}"
  proof -
    have "q = p" if "(i, q) \<in> set (lru_hash l)" for q using cached_iff [OF inv, of i q] that p by simp
    then show ?thesis using ne by force
  qed
  have "obj_ok l' j q" if "(j, q) \<in> set (lru_hash l)" "j \<noteq> i" for j q
    using inv that ne [OF that] hdr hash(2) d(3) by (auto simp: lru_inv_def obj_ok_def lists)
  then show ?thesis unfolding lru_inv_def hash lists im set_append using d by (auto intro: distinct_map_filter)
qed

lemma reclaim_ok:
  assumes inv: "lru_inv l" and ne: "lru_lru l \<noteq> []"
  shows "\<exists>i p. cached l i = Some p \<and> koh_refs (lru_hdr l p) = 2 \<and> (\<forall>w w'. release p w = Some w' \<longrightarrow>
    (\<exists>l'. kobj_lru_reclaim release (l, w) = Some (l', w') \<and> lru_inv l' \<and> cached l' = (cached l)(i := None) \<and>
      lru_max l' = lru_max l \<and> lru_next l' = lru_next l \<and> (\<forall>q. q \<noteq> p \<longrightarrow> lru_hdr l' q = lru_hdr l q)))"
proof -
  let ?p = "last (lru_lru l)"
  note d = lru_invD [OF inv]
  have m: "?p \<in> set (lru_lru l)" using ne by simp
  then have "?p \<in> snd ` set (lru_hash l)" using d(6) by blast
  then obtain i where "(i, ?p) \<in> set (lru_hash l)" by auto
  then have p: "cached l i = Some ?p" using cached_iff [OF inv] by blast
  have ok: "obj_ok l i ?p" by (rule obj_okD [OF inv p])
  then have two: "koh_refs (lru_hdr l ?p) = 2" "koh_id (lru_hdr l ?p) = i" using m by (simp_all add: obj_ok_def)
  have e: "lru_lru l = butlast (lru_lru l) @ [?p]" using ne by simp
  have r1: "remove1 ?p (lru_lru l) = butlast (lru_lru l)"
  proof -
    have "distinct (butlast (lru_lru l) @ [?p])" using d(3) e by simp
    then have "remove1 ?p (butlast (lru_lru l) @ [?p]) = butlast (lru_lru l)" by (simp add: remove1_append)
    then show ?thesis using e by simp
  qed
  have r2: "remove1 ?p (lru_active l) = lru_active l" 
  proof (rule remove1_idem)
    show "?p \<notin> set (lru_active l)" using m d(5) by blast
  qed
  have "\<exists>l'. kobj_lru_reclaim release (l, w) = Some (l', w') \<and> lru_inv l' \<and> cached l' = (cached l)(i := None) \<and>
      lru_max l' = lru_max l \<and> lru_next l' = lru_next l \<and> (\<forall>q. q \<noteq> ?p \<longrightarrow> lru_hdr l' q = lru_hdr l q)"
    if rel: "release ?p w = Some w'" for w w'
  proof -
    obtain l' where l': "kobj_lru_reclaim release (l, w) = Some (l', w')"
      "lru_hash l' = filter (\<lambda>e. fst e \<noteq> i) (lru_hash l)" "lru_lru l' = butlast (lru_lru l)" "lru_active l' = lru_active l"
      "lru_max l' = lru_max l" "lru_next l' = lru_next l" "\<forall>q. q \<noteq> ?p \<longrightarrow> lru_hdr l' q = lru_hdr l q"
      using ne two p rel by (simp add: kobj_lru_reclaim_def lru_putref_def hash_del_def Let_def)
    have "lru_inv l'" by (rule lru_inv_del [OF inv p l'(2) l'(6)]) (use l' r1 r2 in auto)
    moreover have "cached l' = (cached l)(i := None)" unfolding l'(2) by (rule map_of_hash_del)
    ultimately show ?thesis using l' by blast
  qed
  with p two(1) show ?thesis by blast
qed

text \<open>Adding an object.\<close>

lemma alloc_ready:
  assumes inv: "lru_inv l" and n: "cached l i = None"
  shows "\<exists>l1. lru_alloc i l = Some (lru_next l, l1) \<and> 0 < lru_next l \<and> lru_next l \<notin> ran (cached l) \<and>
    lru_inv (kobj_lru_mark_ready (lru_next l) i l1) \<and>
    cached (kobj_lru_mark_ready (lru_next l) i l1) = (cached l)(i \<mapsto> lru_next l) \<and>
    koh_refs (lru_hdr (kobj_lru_mark_ready (lru_next l) i l1) (lru_next l)) = 3 \<and>
    (\<forall>q. q \<noteq> lru_next l \<longrightarrow> lru_hdr (kobj_lru_mark_ready (lru_next l) i l1) q = lru_hdr l q)"
proof -
  let ?p = "lru_next l"
  note d = lru_invD [OF inv]
  have ni: "i \<notin> fst ` set (lru_hash l)" using n by (simp add: map_of_eq_None_iff)
  then have fi: "filter (\<lambda>e. fst e \<noteq> i) (lru_hash l) = lru_hash l" by (auto simp: filter_id_conv)
  have lt: "q < ?p" if "(j, q) \<in> set (lru_hash l)" for j q using inv that by (auto simp: lru_inv_def obj_ok_def)
  then have np: "?p \<notin> snd ` set (lru_hash l)" by fastforce
  obtain l1 where l1: "lru_alloc i l = Some (?p, l1)" "lru_hash l1 = (i, ?p) # lru_hash l" "lru_lru l1 = lru_lru l"
    "lru_active l1 = ?p # lru_active l" "lru_next l1 = ?p + 1" "koh_refs (lru_hdr l1 ?p) = 3" "koh_flags (lru_hdr l1 ?p) = KOBJ_LRU"
    "\<forall>q. q \<noteq> ?p \<longrightarrow> lru_hdr l1 q = lru_hdr l q"
    using n by (simp add: lru_alloc_def lru_getref_def hash_add_def Let_def)
  let ?l = "kobj_lru_mark_ready ?p i l1"
  have r: "lru_hash ?l = (i, ?p) # lru_hash l" "lru_lru ?l = lru_lru l" "lru_active ?l = ?p # lru_active l" "lru_next ?l = ?p + 1"
    "koh_refs (lru_hdr ?l ?p) = 3" "koh_flags (lru_hdr ?l ?p) = KOBJ_LRU OR KOBJ_LRU_INIT" "koh_id (lru_hdr ?l ?p) = i"
    "\<And>q. q \<noteq> ?p \<Longrightarrow> lru_hdr ?l q = lru_hdr l q"
    using l1(2-8) n fi by (simp_all add: kobj_lru_mark_ready_def hash_del_def hash_add_def Let_def)
  have "obj_ok ?l j q" if "(j, q) \<in> set (lru_hash l)" for j q
  proof -
    have "q \<noteq> ?p" using lt [OF that] by simp
    moreover have "obj_ok l j q" using inv that by (simp add: lru_inv_def)
    ultimately show ?thesis using r(8) by (simp add: obj_ok_def r(2,4))
  qed
  moreover have "?p \<notin> set (lru_lru l) \<union> set (lru_active l)" using np d(6) by blast
  moreover have "obj_ok ?l i ?p" using calculation(2) d(7) by (simp add: obj_ok_def r)
  ultimately have "lru_inv ?l" unfolding lru_inv_def r using d np ni by auto
  moreover have "?p \<notin> ran (cached l)"
  proof
    assume "?p \<in> ran (cached l)"
    then obtain j where "cached l j = Some ?p" by (auto simp: ran_def)
    then show False using np map_of_SomeD by (metis image_eqI snd_conv)
  qed
  ultimately show ?thesis using l1(1) r d(7) by simp
qed

lemma alloc_error:
  assumes inv: "lru_inv l" and n: "cached l i = None"
  shows "\<exists>l1 l2 l3. lru_alloc i l = Some (lru_next l, l1) \<and> kobj_lru_mark_error (lru_next l) i l1 = Some l2 \<and>
    lru_putref (lru_next l) l2 = Some (0, l3) \<and> lru_inv l3 \<and> cached l3 = cached l \<and>
    (\<forall>q. q \<noteq> lru_next l \<longrightarrow> lru_hdr l3 q = lru_hdr l q)"
proof -
  let ?p = "lru_next l"
  note d = lru_invD [OF inv]
  have ni: "i \<notin> fst ` set (lru_hash l)" using n by (simp add: map_of_eq_None_iff)
  then have fi: "filter (\<lambda>e. fst e \<noteq> i) (lru_hash l) = lru_hash l" by (auto simp: filter_id_conv)
  have lt: "q < ?p" if "(j, q) \<in> set (lru_hash l)" for j q using inv that by (auto simp: lru_inv_def obj_ok_def)
  obtain l1 where l1: "lru_alloc i l = Some (?p, l1)" "lru_hash l1 = (i, ?p) # lru_hash l" "lru_lru l1 = lru_lru l"
    "lru_active l1 = ?p # lru_active l" "lru_next l1 = ?p + 1" "koh_refs (lru_hdr l1 ?p) = 3"
    "\<forall>q. q \<noteq> ?p \<longrightarrow> lru_hdr l1 q = lru_hdr l q"
    using n by (simp add: lru_alloc_def lru_getref_def hash_add_def Let_def)
  obtain l2 where l2: "kobj_lru_mark_error ?p i l1 = Some l2" "lru_hash l2 = lru_hash l" "lru_lru l2 = lru_lru l"
    "lru_active l2 = lru_active l" "lru_next l2 = ?p + 1" "koh_refs (lru_hdr l2 ?p) = 1"
    "\<forall>q. q \<noteq> ?p \<longrightarrow> lru_hdr l2 q = lru_hdr l q"
    using l1 fi by (simp add: kobj_lru_mark_error_def lru_putref_def hash_del_def ls_remove_def Let_def)
  obtain l3 where l3: "lru_putref ?p l2 = Some (0, l3)" "lru_hash l3 = lru_hash l" "lru_lru l3 = lru_lru l"
    "lru_active l3 = lru_active l" "lru_next l3 = ?p + 1" "\<forall>q. q \<noteq> ?p \<longrightarrow> lru_hdr l3 q = lru_hdr l q"
    using l2 by (simp add: lru_putref_def Let_def)
  have "obj_ok l3 j q" if "(j, q) \<in> set (lru_hash l)" for j q
  proof -
    have "q \<noteq> ?p" using lt [OF that] by simp
    moreover have "obj_ok l j q" using inv that by (simp add: lru_inv_def)
    ultimately show ?thesis using l3 by (simp add: obj_ok_def)
  qed
  then have "lru_inv l3" using inv l3 by (simp add: lru_inv_def)
  then show ?thesis using l1(1) l2(1) l3 by auto
qed

section \<open>Clients\<close>

text \<open>What a client of the cache promises: loading an object for a valid identifier ends by marking it
  ready or failed, and releasing an object succeeds; both keep the relation \<open>good\<close> between the cached
  objects and the rest of the state.\<close>

locale lru_client =
  fixes init :: "ptr \<Rightarrow> 'i \<Rightarrow> 'i kobj_lru \<times> 'w \<Rightarrow> (bool \<times> 'i kobj_lru \<times> 'w) option"
    and release :: "ptr \<Rightarrow> 'w \<Rightarrow> 'w option"
    and valid :: "'i \<Rightarrow> bool"
    and good :: "('i \<Rightarrow> ptr option) \<Rightarrow> 'w \<Rightarrow> bool"
  assumes load: "good c w \<Longrightarrow> valid i \<Longrightarrow> c i = None \<Longrightarrow> p \<notin> ran c \<Longrightarrow>
      \<exists>b w'. (\<forall>l. init p i (l, w) = (if b then Some (True, kobj_lru_mark_ready p i l, w')
        else map_option (\<lambda>l'. (False, l', w')) (kobj_lru_mark_error p i l))) \<and> good (if b then c(i \<mapsto> p) else c) w'"
    and unload: "good c w \<Longrightarrow> c i = Some p \<Longrightarrow> \<exists>w'. release p w = Some w' \<and> good (c(i := None)) w'"
begin

definition may_fail :: "'i \<Rightarrow> bool" where
  "may_fail i \<longleftrightarrow> (\<exists>c w p l l' w'. good c w \<and> c i = None \<and> p \<notin> ran c \<and> init p i (l, w) = Some (False, l', w'))"

definition served :: "'i \<Rightarrow> 'i kobj_lru \<Rightarrow> lru_result \<Rightarrow> 'i kobj_lru \<Rightarrow> 'w \<Rightarrow> bool" where
  "served i l r l' w' \<longleftrightarrow> lru_inv l' \<and> good (cached l') w' \<and>
     (case r of Waits \<Rightarrow> False
      | Object p \<Rightarrow> if p = NULL then may_fail i \<and> cached l i = None \<and> cached l' i = None
          else cached l' i = Some p \<and> koh_refs (lru_hdr l' p) = (if cached l i = Some p then koh_refs (lru_hdr l p) + 1 else 3)) \<and>
     (\<forall>j q. j \<noteq> i \<longrightarrow> cached l' j = Some q \<longrightarrow> cached l j = Some q \<and> lru_hdr l' q = lru_hdr l q) \<and>
     (\<forall>j q. j \<noteq> i \<longrightarrow> cached l j = Some q \<longrightarrow> koh_refs (lru_hdr l q) > 2 \<longrightarrow> cached l' j = Some q)"

lemma servedD:
  assumes "served i l r l' w'"
  shows "lru_inv l'" "good (cached l') w'" "r \<noteq> Waits"
    "\<And>p. r = Object p \<Longrightarrow> p \<noteq> NULL \<Longrightarrow> cached l' i = Some p \<and>
      koh_refs (lru_hdr l' p) = (if cached l i = Some p then koh_refs (lru_hdr l p) + 1 else 3)"
    "r = Object NULL \<Longrightarrow> may_fail i \<and> cached l i = None \<and> cached l' i = None"
    "\<And>j q. j \<noteq> i \<Longrightarrow> cached l' j = Some q \<Longrightarrow> cached l j = Some q \<and> lru_hdr l' q = lru_hdr l q"
    "\<And>j q. j \<noteq> i \<Longrightarrow> cached l j = Some q \<Longrightarrow> koh_refs (lru_hdr l q) > 2 \<Longrightarrow> cached l' j = Some q"
proof -
  let ?R = "case r of Waits \<Rightarrow> False | Object p \<Rightarrow> if p = NULL then may_fail i \<and> cached l i = None \<and> cached l' i = None
    else cached l' i = Some p \<and> koh_refs (lru_hdr l' p) = (if cached l i = Some p then koh_refs (lru_hdr l p) + 1 else 3)"
  have r: ?R using assms unfolding served_def by (elim conjE)
  show "lru_inv l'" using assms unfolding served_def by (elim conjE)
  show "good (cached l') w'" using assms unfolding served_def by (elim conjE)
  show "r \<noteq> Waits" using r by (cases r) simp_all
  show "cached l' i = Some p \<and> koh_refs (lru_hdr l' p) = (if cached l i = Some p then koh_refs (lru_hdr l p) + 1 else 3)"
    if "r = Object p" "p \<noteq> NULL" for p using r that by simp
  show "r = Object NULL \<Longrightarrow> may_fail i \<and> cached l i = None \<and> cached l' i = None" using r by simp
  show "cached l j = Some q \<and> lru_hdr l' q = lru_hdr l q" if "j \<noteq> i" "cached l' j = Some q" for j q
    using assms that unfolding served_def by (elim conjE) blast
  show "cached l' j = Some q" if "j \<noteq> i" "cached l j = Some q" "koh_refs (lru_hdr l q) > 2" for j q
    using assms that unfolding served_def by (elim conjE) blast
qed

lemma get_hit:
  assumes "lru_inv l" "good (cached l) w" "cached l i = Some p"
  shows "\<exists>l'. kobj_lru_get_loop init release t i (l, w) = Some (Object p, l', w) \<and> served i l (Object p) l' w"
proof -
  obtain l' where l': "lru_found p l = Some (Object p, l')" "lru_inv l'" "lru_hash l' = lru_hash l"
    "koh_refs (lru_hdr l' p) = koh_refs (lru_hdr l p) + 1" "\<forall>q. q \<noteq> p \<longrightarrow> lru_hdr l' q = lru_hdr l q"
    using found_ok [OF assms(1,3)] by blast
  have "p \<noteq> NULL" using obj_okD [OF assms(1,3)] by (simp add: obj_ok_def)
  moreover have "q \<noteq> p" if "cached l j = Some q" "j \<noteq> i" for j q using cached_inj [OF assms(1,3), of j] that by blast
  ultimately have "served i l (Object p) l' w" unfolding served_def using l' assms by simp
  moreover have "kobj_lru_get_loop init release t i (l, w) = Some (Object p, l', w)"
    using assms(3) l'(1) by (subst kobj_lru_get_loop.simps) simp
  ultimately show ?thesis by blast
qed

lemma get_load:
  assumes inv: "lru_inv l" and g: "good (cached l) w" and v: "valid i" and n: "cached l i = None"
    and full: "\<not> (length (lru_hash l) \<ge> lru_max l \<and> lru_max l > 0 \<and> \<not> t)"
  shows "\<exists>r l' w'. kobj_lru_get_loop init release t i (l, w) = Some (r, l', w') \<and> served i l r l' w'"
proof -
  have u: "kobj_lru_get_loop init release t i (l, w) = do {
           (obj, l) \<leftarrow> lru_alloc i l;
           (ok, l, w) \<leftarrow> init obj i (l, w);
           if \<not> ok then do {
             (c, l) \<leftarrow> lru_putref obj l;
             Some (Object NULL, l, w) }
           else Some (Object obj, l, w) }"
    using n full by (subst kobj_lru_get_loop.simps) auto
  obtain l1 where a: "lru_alloc i l = Some (lru_next l, l1)" "0 < lru_next l" "lru_next l \<notin> ran (cached l)"
    "lru_inv (kobj_lru_mark_ready (lru_next l) i l1)"
    "cached (kobj_lru_mark_ready (lru_next l) i l1) = (cached l)(i \<mapsto> lru_next l)"
    "koh_refs (lru_hdr (kobj_lru_mark_ready (lru_next l) i l1) (lru_next l)) = 3"
    "\<forall>q. q \<noteq> lru_next l \<longrightarrow> lru_hdr (kobj_lru_mark_ready (lru_next l) i l1) q = lru_hdr l q"
    using alloc_ready [OF inv n] by blast
  obtain b w' where b: "init (lru_next l) i (l1, w) = (if b then Some (True, kobj_lru_mark_ready (lru_next l) i l1, w')
        else map_option (\<lambda>l'. (False, l', w')) (kobj_lru_mark_error (lru_next l) i l1))"
    "good (if b then (cached l)(i \<mapsto> lru_next l) else cached l) w'" using load [OF g v n a(3)] by blast
  have old: "q \<noteq> lru_next l" if "cached l j = Some q" for j q using a(3) that by (auto simp: ran_def)
  show ?thesis
  proof (cases b)
    case True
    have "served i l (Object (lru_next l)) (kobj_lru_mark_ready (lru_next l) i l1) w'"
      unfolding served_def using True a b(2) n old by simp
    then show ?thesis unfolding u using a(1) b(1) True by simp
  next
    case False
    obtain l2 l3 where e: "kobj_lru_mark_error (lru_next l) i l1 = Some l2" "lru_putref (lru_next l) l2 = Some (0, l3)"
      "lru_inv l3" "cached l3 = cached l" "\<forall>q. q \<noteq> lru_next l \<longrightarrow> lru_hdr l3 q = lru_hdr l q"
      using alloc_error [OF inv n] a(1) by auto
    have "init (lru_next l) i (l1, w) = Some (False, l2, w')" using b(1) False e(1) by simp
    then have "may_fail i" unfolding may_fail_def using g n a(3) by blast
    then have "served i l (Object NULL) l3 w'" unfolding served_def using False e b(2) n old by simp
    then show ?thesis unfolding u using a(1) b(1) e False by simp
  qed
qed

text \<open>Getting an object never panics or waits, and leaves every other object alone, except that an
  unused one may be released to make room.\<close>

lemma get_ok:
  assumes inv: "lru_inv l" and g: "good (cached l) w" and v: "valid i"
  shows "\<exists>r l' w'. kobj_lru_get init release i (l, w) = Some (r, l', w') \<and> served i l r l' w'"
proof (cases "cached l i")
  case (Some p)
  then show ?thesis using get_hit [OF inv g Some, of False] unfolding kobj_lru_get_def by blast
next
  case None
  show ?thesis
  proof (cases "length (lru_hash l) \<ge> lru_max l \<and> lru_max l > 0 \<and> lru_lru l \<noteq> []")
    case False
    show ?thesis
    proof (cases "length (lru_hash l) \<ge> lru_max l \<and> lru_max l > 0")
      case True
      then have "kobj_lru_reclaim release (l, w) = Some (l, w)" using False by (simp add: kobj_lru_reclaim_def)
      then have "kobj_lru_get_loop init release False i (l, w) = kobj_lru_get_loop init release True i (l, w)"
        using None True by (subst kobj_lru_get_loop.simps) simp
      then show ?thesis using get_load [OF inv g v None, of True] by (simp add: kobj_lru_get_def)
    next
      case no: False
      then have "\<not> (length (lru_hash l) \<ge> lru_max l \<and> lru_max l > 0 \<and> \<not> False)" by blast
      from get_load [OF inv g v None this] show ?thesis by (simp add: kobj_lru_get_def)
    qed
  next
    case True
    then have ne: "lru_lru l \<noteq> []" by blast
    obtain k p where k: "cached l k = Some p" "koh_refs (lru_hdr l p) = 2"
      "\<And>w w'. release p w = Some w' \<Longrightarrow> \<exists>l'. kobj_lru_reclaim release (l, w) = Some (l', w') \<and> lru_inv l' \<and>
        cached l' = (cached l)(k := None) \<and> lru_max l' = lru_max l \<and> lru_next l' = lru_next l \<and>
        (\<forall>q. q \<noteq> p \<longrightarrow> lru_hdr l' q = lru_hdr l q)" using reclaim_ok [OF inv ne, of release] by blast
    obtain w1 where w1: "release p w = Some w1" "good ((cached l)(k := None)) w1" using unload [OF g k(1)] by blast
    obtain l1 where l1: "kobj_lru_reclaim release (l, w) = Some (l1, w1)" "lru_inv l1" "cached l1 = (cached l)(k := None)"
      "\<forall>q. q \<noteq> p \<longrightarrow> lru_hdr l1 q = lru_hdr l q" using k(3) [OF w1(1)] by blast
    have n1: "cached l1 i = None" using l1(3) None by simp
    have g1: "good (cached l1) w1" using w1(2) l1(3) by simp
    from get_load [OF l1(2) g1 v n1, of True] obtain r l' w' where
      r: "kobj_lru_get_loop init release True i (l1, w1) = Some (r, l', w')" "served i l1 r l' w'" by auto
    have "kobj_lru_get_loop init release False i (l, w) = Some (r, l', w')"
      using None True l1(1) r(1) by (subst kobj_lru_get_loop.simps) simp
    moreover have "served i l r l' w'"
    proof -
      have np: "q \<noteq> p" if "cached l j = Some q" "j \<noteq> k" for j q using cached_inj [OF inv k(1), of j] that by blast
      have older: "cached l j = Some q \<and> lru_hdr l' q = lru_hdr l q" if "j \<noteq> i" "cached l' j = Some q" for j q
      proof -
        have s: "cached l1 j = Some q" "lru_hdr l' q = lru_hdr l1 q" 
          using servedD(6) [OF r(2) that] by blast+
        have "((cached l)(k := None)) j = Some q" using s(1) unfolding l1(3) .
        then have jk: "j \<noteq> k" "cached l j = Some q" by (simp_all split: if_splits)
        then show ?thesis using s(2) l1(4) np by simp
      qed
      have stay: "cached l' j = Some q" if "j \<noteq> i" "cached l j = Some q" "koh_refs (lru_hdr l q) > 2" for j q
      proof -
        have "j \<noteq> k" using that k by auto
        then have "cached l1 j = Some q" "lru_hdr l1 q = lru_hdr l q" unfolding l1(3) using l1(4) that np by simp_all
        then show ?thesis using servedD(7) [OF r(2) that(1)] that(3) by simp
      qed
      have "case r of Waits \<Rightarrow> False | Object p \<Rightarrow> if p = NULL then may_fail i \<and> cached l i = None \<and> cached l' i = None
          else cached l' i = Some p \<and> koh_refs (lru_hdr l' p) = (if cached l i = Some p then koh_refs (lru_hdr l p) + 1 else 3)"
        using servedD(3-5) [OF r(2)] None n1 by (cases r) simp_all
      then show ?thesis using servedD(1,2) [OF r(2)] older stay unfolding served_def by blast
    qed
    ultimately show ?thesis unfolding kobj_lru_get_def by blast
  qed
qed

end

text \<open>An object that was removed while one user still held it cannot be put by that user: the last
  reference is below the two that \<open>kobj_lru_put\<close> insists on.\<close>

lemma put_after_remove:
  assumes inv: "lru_inv l" and p: "cached l i = Some p" and r: "koh_refs (lru_hdr l p) = 3"
  shows "\<exists>l'. kobj_lru_remove p l = Some l' \<and> kobj_lru_put p l' = None"
proof -
  have ok: "obj_ok l i p" by (rule obj_okD [OF inv p])
  then have a: "p \<in> set (lru_active l)" using cached_lists [OF inv p] r by (auto simp: obj_ok_def)
  obtain l' where l': "kobj_lru_remove p l = Some l'" "koh_refs (lru_hdr l' p) = 1"
    using a r by (simp add: kobj_lru_remove_def lru_putref_def hash_del_def Let_def)
  then show ?thesis by (auto simp: kobj_lru_put_def lru_putref_def has_flag_def)
qed

end
