(* ===== verification/InodeData.thy ===== *)
theory InodeData
  imports RamFs KobjLru
begin

text \<open>
  Reading and writing the data of files: \<open>kernel/fs/inoderw.c\<close> over the page cache of
  \<open>kernel/fs/inode.c\<close>, which is a client of \<open>KobjLru\<close>, with \<open>RamFs\<close> as the driver below it. The
  contents of a page frame are kept with the page object. A frame is allocated without being
  cleared, so its contents are arbitrary at first; the members of a page object that its loading
  does not set keep their old values. Inodes stay in memory here: their own cache and reference
  counts are not modelled, and neither are the mappings of page frames into address spaces.
\<close>

section \<open>Structures\<close>

text \<open>File system, inode and page number.\<close>

type_synonym page_id = "u64 \<times> u64 \<times> u64"

definition INODEPAGE_DIRTY :: u32 where "INODEPAGE_DIRTY = 1"

record inodepage =
  pg_id :: page_id
  pg_frame :: page
  pg_flags :: u32

record pworld =
  pw_pages :: "ptr \<Rightarrow> inodepage"
  pw_fs :: "u64 \<Rightarrow> ramfs_data"
  pw_nodes :: "u64 \<times> u64 \<Rightarrow> inode"
  pw_junk :: page

type_synonym pstate = "page_id kobj_lru \<times> pworld"

section \<open>The page cache (kernel/fs/inode.c)\<close>

definition PAGE :: u64 where "PAGE = 0x1000"

definition set_page :: "ptr \<Rightarrow> inodepage \<Rightarrow> pworld \<Rightarrow> pworld" where
  "set_page p pg w = w\<lparr>pw_pages := (pw_pages w)(p := pg)\<rparr>"

definition set_fs :: "u64 \<Rightarrow> ramfs_data \<Rightarrow> pworld \<Rightarrow> pworld" where
  "set_fs f rfs w = w\<lparr>pw_fs := (pw_fs w)(f := rfs)\<rparr>"

definition thispagelen :: "u64 \<Rightarrow> u64 \<Rightarrow> nat" where
  "thispagelen len page =
    (let t = sint (len - page * PAGE);
         t = (if t < 0 then 0 else t)
     in nat (if t > int page_len then int page_len else t))"

definition inode_page_initialize :: "ptr \<Rightarrow> page_id \<Rightarrow> pstate \<Rightarrow> (bool \<times> pstate) option" where
  "inode_page_initialize p i st = (case (st, i) of ((l, w), (f, ino, page)) \<Rightarrow> do {
     let n = thispagelen (in_length (pw_nodes w (f, ino))) page;
     (r, data, w) \<leftarrow> (if n \<noteq> 0 then do {
          (r, data, rfs) \<leftarrow> ramfs_read_page ino (ucast page) (pw_fs w f);
          Some (r, data, set_fs f rfs w) }
        else Some (0, pw_junk w, w));
     if r < 0 then do {
       let w = set_page p ((pw_pages w p)\<lparr>pg_id := i, pg_frame := data\<rparr>) w;
       l \<leftarrow> kobj_lru_mark_error p i l;
       Some (False, l, w) }
     else do {
       let data = take n data @ replicate (page_len - n) 0;
       let w = set_page p ((pw_pages w p)\<lparr>pg_id := i, pg_frame := data\<rparr>) w;
       Some (True, kobj_lru_mark_ready p i l, w) } })"

definition inode_page_release :: "ptr \<Rightarrow> pworld \<Rightarrow> pworld option" where
  "inode_page_release p w = (case pg_id (pw_pages w p) of (f, ino, page) \<Rightarrow>
     if pg_flags (pw_pages w p) AND INODEPAGE_DIRTY \<noteq> 0 then do {
       (r, rfs) \<leftarrow> ramfs_write_page ino (ucast page) (pg_frame (pw_pages w p)) (pw_fs w f);
       Some (set_fs f rfs w) }
     else Some w)"

text \<open>The page number passes through a signed integer of 32 bits.\<close>

definition inode_get_page :: "u64 \<times> u64 \<Rightarrow> u32 \<Rightarrow> pstate \<Rightarrow> (lru_result \<times> pstate) option" where
  "inode_get_page node nodepage st =
     kobj_lru_get inode_page_initialize inode_page_release (fst node, snd node, scast nodepage) st"

definition inode_release_page :: "ptr \<Rightarrow> pstate \<Rightarrow> pstate option" where
  "inode_release_page p st = do { l \<leftarrow> kobj_lru_put p (fst st); Some (l, snd st) }"

section \<open>Data (kernel/fs/inoderw.c)\<close>

text \<open>The loops; None is also a loop that does not end or waits for ever.\<close>

partial_function (option) data_read_loop :: "u64 \<times> u64 \<Rightarrow> u64 \<Rightarrow> u64 \<Rightarrow> u64 \<Rightarrow> u64 \<Rightarrow> u8 list \<Rightarrow> pstate
    \<Rightarrow> (u64 \<times> u8 list \<times> pstate) option" where
  "data_read_loop node pageoff pagenum amount len buf st =
    (if amount < len then do {
       let thisread = PAGE - pageoff;
       let thisread = (if thisread > len - amount then len - amount else thisread);
       (r, st) \<leftarrow> inode_get_page node (ucast pagenum) st;
       (case r of
          Waits \<Rightarrow> None
        | Object p \<Rightarrow>
            if p = NULL then Some (amount, buf, st)
            else do {
              let data = take (unat thisread) (drop (unat pageoff) (pg_frame (pw_pages (snd st) p)));
              st \<leftarrow> inode_release_page p st;
              data_read_loop node 0 (pagenum + 1) (amount + thisread) len (buf @ data) st }) }
     else Some (amount, buf, st))"

definition inode_do_read_data :: "u64 \<times> u64 \<Rightarrow> u64 \<Rightarrow> u64 \<Rightarrow> pstate \<Rightarrow> (u64 \<times> u8 list \<times> pstate) option" where
  "inode_do_read_data node off len st =
    (let pageoff = off mod PAGE;
         pagenum = off div PAGE;
         nlen = in_length (pw_nodes (snd st) node)
     in if off + len > nlen then
          if off \<ge> nlen then Some (0, [], st)
          else data_read_loop node pageoff pagenum 0 (nlen - off) [] st
        else data_read_loop node pageoff pagenum 0 len [] st)"

text \<open>The bytes written to a page, and the growth of the file.\<close>

definition write_bytes :: "ptr \<Rightarrow> nat \<Rightarrow> u8 list \<Rightarrow> pworld \<Rightarrow> pworld" where
  "write_bytes p o' bs w =
    (let pg = pw_pages w p;
         data = take o' (pg_frame pg) @ bs @ drop (o' + length bs) (pg_frame pg)
     in set_page p (pg\<lparr>pg_frame := data\<rparr>) w)"

definition grow :: "u64 \<times> u64 \<Rightarrow> u64 \<Rightarrow> pworld \<Rightarrow> pworld" where
  "grow node end_off w =
    (if end_off > in_length (pw_nodes w node)
     then w\<lparr>pw_nodes := (pw_nodes w)(node := (pw_nodes w node)\<lparr>in_length := end_off, in_dirty := True\<rparr>)\<rparr>
     else w)"

definition mark_page_dirty :: "ptr \<Rightarrow> pworld \<Rightarrow> pworld" where
  "mark_page_dirty p w = set_page p ((pw_pages w p)\<lparr>pg_flags := pg_flags (pw_pages w p) OR INODEPAGE_DIRTY\<rparr>) w"

partial_function (option) data_write_loop :: "u64 \<times> u64 \<Rightarrow> u64 \<Rightarrow> u64 \<Rightarrow> u64 \<Rightarrow> u64 \<Rightarrow> u64 \<Rightarrow> u8 list \<Rightarrow> pstate
    \<Rightarrow> (u64 \<times> pstate) option" where
  "data_write_loop node off pageoff pagenum amount len buf st =
    (if amount < len then do {
       let thiswrite = PAGE - pageoff;
       let thiswrite = (if thiswrite > len - amount then len - amount else thiswrite);
       (r, st) \<leftarrow> inode_get_page node (ucast pagenum) st;
       (case r of
          Waits \<Rightarrow> None
        | Object p \<Rightarrow>
            if p = NULL then Some (amount, st)
            else do {
              let w = write_bytes p (unat pageoff) (take (unat thiswrite) (drop (unat amount) buf)) (snd st);
              let w = grow node (thiswrite + off + amount) w;
              let w = mark_page_dirty p w;
              st \<leftarrow> inode_release_page p (fst st, w);
              data_write_loop node off 0 (pagenum + 1) (amount + thiswrite) len buf st }) }
     else Some (amount, st))"

definition inode_do_write_data :: "u64 \<times> u64 \<Rightarrow> u64 \<Rightarrow> u8 list \<Rightarrow> pstate \<Rightarrow> (u64 \<times> pstate) option" where
  "inode_do_write_data node off buf st =
     data_write_loop node off (off mod PAGE) (off div PAGE) 0 (of_nat (length buf)) buf st"

text \<open>Symbolic links keep their target as data (kernel/fs/ramfs.c); a link of the proc file system,
  whose major number is not zero, is computed instead and is not modelled.\<close>

definition ramfs_readlink :: "u64 \<times> u64 \<Rightarrow> u64 \<Rightarrow> pstate \<Rightarrow> (int \<times> u8 list \<times> pstate) option" where
  "ramfs_readlink node len st = do {
     (r, path, st) \<leftarrow> inode_do_read_data node 0 len st;
     Some (0, path @ [0], st) }"

definition ramfs_writelink :: "u64 \<times> u64 \<Rightarrow> u8 list \<Rightarrow> pstate \<Rightarrow> (int \<times> pstate) option" where
  "ramfs_writelink node path st = do {
     (r, st) \<leftarrow> inode_do_write_data node 0 path st;
     Some (0, st) }"

section \<open>The contents of files\<close>

text \<open>The bytes of page \<open>page\<close> of an inode: those in the cache, or else those of the file system.\<close>

definition eff :: "(page_id \<Rightarrow> ptr option) \<Rightarrow> pworld \<Rightarrow> page_id \<Rightarrow> page" where
  "eff c w i = (case c i of Some p \<Rightarrow> pg_frame (pw_pages w p)
     | None \<Rightarrow> (case i of (f, ino, page) \<Rightarrow> page_of (pw_fs w f) ino (ucast page)))"

text \<open>The relation between cache, file systems and contents: \<open>V\<close> is the inodes that exist, \<open>N\<close>
  their attributes, \<open>E\<close> their pages. Bytes past the length of a file are zero.\<close>

definition small :: "u64 \<Rightarrow> bool" where "small page \<longleftrightarrow> unat page < 2 ^ 31"

definition pc_good :: "(u64 \<times> u64) set \<Rightarrow> (u64 \<times> u64 \<Rightarrow> inode) \<Rightarrow> (page_id \<Rightarrow> page)
    \<Rightarrow> (page_id \<Rightarrow> ptr option) \<Rightarrow> pworld \<Rightarrow> bool" where
  "pc_good V N E c w \<longleftrightarrow>
     (\<forall>f ino. (f, ino) \<in> V \<longleftrightarrow> rfs_inodes (pw_fs w f) ino \<noteq> None) \<and> pw_nodes w = N \<and>
     (\<forall>n. unat (in_length (N n)) \<le> 2 ^ 43) \<and> length (pw_junk w) = page_len \<and>
     (\<forall>f ino q. length (page_of (pw_fs w f) ino q) = page_len) \<and>
     (\<forall>f ino page p. c (f, ino, page) = Some p \<longrightarrow> (f, ino) \<in> V \<and> small page \<and> pg_id (pw_pages w p) = (f, ino, page) \<and>
        length (pg_frame (pw_pages w p)) = page_len \<and>
        (pg_flags (pw_pages w p) AND INODEPAGE_DIRTY = 0 \<longrightarrow>
           pg_frame (pw_pages w p) = page_of (pw_fs w f) ino (ucast page))) \<and>
     (\<forall>f ino page. small page \<longrightarrow> E (f, ino, page) = eff c w (f, ino, page)) \<and>
     (\<forall>f ino page k. (f, ino) \<in> V \<longrightarrow> small page \<longrightarrow> k < page_len \<longrightarrow>
        unat (in_length (N (f, ino))) \<le> unat page * page_len + k \<longrightarrow> E (f, ino, page) ! k = 0)"

lemma pc_goodD:
  assumes "pc_good V N E c w"
  shows "(f, ino) \<in> V \<longleftrightarrow> rfs_inodes (pw_fs w f) ino \<noteq> None" "pw_nodes w = N" "unat (in_length (N n)) \<le> 2 ^ 43"
    "length (pw_junk w) = page_len" "length (page_of (pw_fs w f) ino q) = page_len"
    "c (f, ino, page) = Some p \<Longrightarrow> (f, ino) \<in> V \<and> small page \<and> pg_id (pw_pages w p) = (f, ino, page) \<and>
        length (pg_frame (pw_pages w p)) = page_len"
    "c (f, ino, page) = Some p \<Longrightarrow> pg_flags (pw_pages w p) AND INODEPAGE_DIRTY = 0 \<Longrightarrow>
        pg_frame (pw_pages w p) = page_of (pw_fs w f) ino (ucast page)"
    "small page \<Longrightarrow> E (f, ino, page) = eff c w (f, ino, page)"
    "(f, ino) \<in> V \<Longrightarrow> small page \<Longrightarrow> k < page_len \<Longrightarrow> unat (in_length (N (f, ino))) \<le> unat page * page_len + k \<Longrightarrow>
        E (f, ino, page) ! k = 0"
  using assms unfolding pc_good_def by blast+

lemma small_ucast: "small a \<Longrightarrow> small b \<Longrightarrow> (ucast a :: u32) = ucast b \<longleftrightarrow> a = b"
proof -
  assume s: "small a" "small b"
  have u: "unat (ucast x :: u32) = unat x" if "small x" for x :: u64
    using that by (simp add: small_def unsigned_ucast_eq take_bit_nat_eq_self)
  show ?thesis using u [OF s(1)] u [OF s(2)] by (metis word_unat_eq_iff)
qed

lemma small_scast: "small a \<Longrightarrow> (scast (ucast a :: u32) :: u64) = a"
proof -
  assume "small a"
  then have "uint a < 2 ^ 31" unfolding small_def by (metis of_nat_less_iff of_nat_numeral of_nat_power uint_nat)
  moreover have "- (2 ^ 31) \<le> uint a" by (rule order_trans [OF _ uint_ge_0]) simp
  ultimately have "sint (word_of_int (uint a) :: u32) = uint a" using sint_word_of_int32 by blast
  then have "sint (ucast a :: u32) = uint a" by simp
  then show ?thesis by (simp add: scast_eq)
qed

text \<open>How much of a page lies within the file.\<close>

lemma sint_minus:
  assumes "a \<le> 2 ^ 43" "b < 2 ^ 43"
  shows "sint (of_nat a - of_nat b :: u64) = int a - int b"
proof -
  have "(of_nat a - of_nat b :: u64) = word_of_int (int a - int b)" by simp
  moreover have "- (2 ^ 63) \<le> int a - int b" "int a - int b < 2 ^ 63" using assms by simp_all
  ultimately show ?thesis using sint_word_of_int64 [of "int a - int b"] by (simp only:)
qed

lemma thispagelen_eq:
  assumes "unat len \<le> 2 ^ 43" "small page"
  shows "thispagelen len page = min page_len (unat len - unat page * page_len)"
proof -
  have p: "unat page * 4096 < 2 ^ 43" using assms(2) by (simp add: small_def)
  have "len - page * PAGE = of_nat (unat len) - of_nat (unat page * 4096)" by (simp add: PAGE_def)
  then have "sint (len - page * PAGE) = int (unat len) - int (unat page * 4096)" using sint_minus [OF assms(1) p] by simp
  moreover have "nat (if (if int a - int b < 0 then 0 else int a - int b) > int n then int n
      else (if int a - int b < 0 then 0 else int a - int b)) = min n (a - b)" for a b n :: nat
    by (auto simp: min_def)
  ultimately show ?thesis unfolding thispagelen_def Let_def page_len_def by (simp only:)
qed

lemma page_fill:
  assumes "length E = page_len" "length data = page_len" "\<And>k. k < page_len \<Longrightarrow> n \<le> k \<Longrightarrow> E ! k = 0"
    "\<And>k. k < n \<Longrightarrow> data ! k = E ! k" "n \<le> page_len"
  shows "take n data @ replicate (page_len - n) (0 :: u8) = E"
  using assms by (auto intro!: nth_equalityI simp: nth_append)

lemma load_ok:
  assumes g: "pc_good V N E c w" and v: "(f, ino) \<in> V" "small page" and n: "c (f, ino, page) = None" and p: "p \<notin> ran c"
  shows "\<exists>w'. (\<forall>l. inode_page_initialize p (f, ino, page) (l, w) = Some (True, kobj_lru_mark_ready p (f, ino, page) l, w')) \<and>
    pc_good V N E (c((f, ino, page) \<mapsto> p)) w'"
proof -
  let ?i = "(f, ino, page)"
  note d = pc_goodD [OF g]
  let ?n = "thispagelen (in_length (N (f, ino))) page"
  have len: "?n = min page_len (unat (in_length (N (f, ino))) - unat page * page_len)"
    by (rule thispagelen_eq [OF d(3) v(2)])
  have Ei: "E ?i = page_of (pw_fs w f) ino (ucast page)" using d(8) [OF v(2)] n by (simp add: eff_def)
  have lE: "length (E ?i) = page_len" using Ei d(5) by simp
  have tail: "E ?i ! k = 0" if "k < page_len" "?n \<le> k" for k
    using d(9) [OF v that(1)] that len by (auto simp: min_def split: if_splits)
  have "\<exists>data w1. (if ?n \<noteq> 0 then do {
          (r, data, rfs) \<leftarrow> ramfs_read_page ino (ucast page) (pw_fs w f);
          Some (r, data, set_fs f rfs w) } else Some (0, pw_junk w, w)) = Some (0, data, w1) \<and>
      length data = page_len \<and> (\<forall>k < ?n. data ! k = E ?i ! k) \<and> pw_pages w1 = pw_pages w \<and> pw_nodes w1 = pw_nodes w \<and>
      pw_junk w1 = pw_junk w \<and> (\<forall>g. page_of (pw_fs w1 g) = page_of (pw_fs w g) \<and> dom (rfs_inodes (pw_fs w1 g)) = dom (rfs_inodes (pw_fs w g)))"
  proof (cases "?n = 0")
    case True
    then show ?thesis using d(4) by simp
  next
    case False
    obtain ri where "rfs_inodes (pw_fs w f) ino = Some ri" using d(1) [of f ino] v(1) by auto
    from read_page_ok [OF this, of "ucast page"] obtain rfs where
      "ramfs_read_page ino (ucast page) (pw_fs w f) = Some (0, E ?i, rfs)" "page_of rfs = page_of (pw_fs w f)"
      "dom (rfs_inodes rfs) = dom (rfs_inodes (pw_fs w f))" unfolding Ei by blast
    then show ?thesis using False lE by (simp add: set_fs_def)
  qed
  then obtain data w1 where r: "(if ?n \<noteq> 0 then do {
          (r, data, rfs) \<leftarrow> ramfs_read_page ino (ucast page) (pw_fs w f);
          Some (r, data, set_fs f rfs w) } else Some (0, pw_junk w, w)) = Some (0, data, w1)"
      "length data = page_len" "\<forall>k < ?n. data ! k = E ?i ! k" "pw_pages w1 = pw_pages w" "pw_nodes w1 = pw_nodes w"
      "pw_junk w1 = pw_junk w" "\<And>g. page_of (pw_fs w1 g) = page_of (pw_fs w g)"
      "\<And>g. dom (rfs_inodes (pw_fs w1 g)) = dom (rfs_inodes (pw_fs w g))" by blast
  have fill: "take ?n data @ replicate (page_len - ?n) 0 = E ?i"
    by (rule page_fill [OF lE r(2) tail]) (use r(3) len in auto)
  let ?w = "set_page p ((pw_pages w1 p)\<lparr>pg_id := ?i, pg_frame := E ?i\<rparr>) w1"
  have "inode_page_initialize p ?i (l, w) = Some (True, kobj_lru_mark_ready p ?i l, ?w)" for l
    unfolding inode_page_initialize_def using r(1) fill d(2) by simp
  moreover have "pc_good V N E (c(?i \<mapsto> p)) ?w"
  proof -
    have cp: "q \<noteq> p" if "c j = Some q" for j q using p that by (metis ranI)
    have ex: "rfs_inodes (pw_fs w1 g) i' \<noteq> None \<longleftrightarrow> rfs_inodes (pw_fs w g) i' \<noteq> None" for g i' using r(8) [of g] by blast
    have e: "eff (c(?i \<mapsto> p)) ?w j = eff c w j" for j
      using cp r(4,7) Ei n by (auto simp: eff_def set_page_def split: option.splits prod.splits)
    show ?thesis unfolding pc_good_def
    proof (intro conjI allI impI)
      show "((f', ino') \<in> V) = (rfs_inodes (pw_fs ?w f') ino' \<noteq> None)" for f' ino' using d(1) ex by (simp add: set_page_def)
      show "pw_nodes ?w = N" using r(5) d(2) by (simp add: set_page_def)
      show "unat (in_length (N n)) \<le> 2 ^ 43" for n by (rule d(3))
      show "length (pw_junk ?w) = page_len" using r(6) d(4) by (simp add: set_page_def)
      show "length (page_of (pw_fs ?w f') ino' q) = page_len" for f' ino' q using r(7) d(5) by (simp add: set_page_def)
      fix f' ino' page' q assume a: "(c(?i \<mapsto> p)) (f', ino', page') = Some q"
      have "(f', ino', page') = ?i \<and> q = p \<or> c (f', ino', page') = Some q \<and> q \<noteq> p"
        using a cp by (auto split: if_splits)
      then show "(f', ino') \<in> V" "small page'" "pg_id (pw_pages ?w q) = (f', ino', page')"
        "length (pg_frame (pw_pages ?w q)) = page_len"
        "pg_flags (pw_pages ?w q) AND INODEPAGE_DIRTY = 0 \<Longrightarrow> pg_frame (pw_pages ?w q) = page_of (pw_fs ?w f') ino' (ucast page')"
        using v d(6,7) lE Ei r(4,7) by (auto simp: set_page_def)
    next
      show "E (f', ino', page') = eff (c(?i \<mapsto> p)) ?w (f', ino', page')" if "small page'" for f' ino' page'
        using d(8) [OF that] e by simp
      show "E (f', ino', page') ! k = 0" if "(f', ino') \<in> V" "small page'" "k < page_len"
        "unat (in_length (N (f', ino'))) \<le> unat page' * page_len + k" for f' ino' page' k by (rule d(9) [OF that])
    qed
  qed
  ultimately show ?thesis by blast
qed

lemma unload_ok:
  assumes g: "pc_good V N E c w" and p: "c i = Some p"
  shows "\<exists>w'. inode_page_release p w = Some w' \<and> pc_good V N E (c(i := None)) w'"
proof -
  obtain f ino page where i: "i = (f, ino, page)" by (cases i) auto
  note d = pc_goodD [OF g]
  have pd: "(f, ino) \<in> V" "small page" "pg_id (pw_pages w p) = i" "length (pg_frame (pw_pages w p)) = page_len"
    using d(6) [OF p [unfolded i]] i by auto
  show ?thesis
  proof (cases "pg_flags (pw_pages w p) AND INODEPAGE_DIRTY = 0")
    case True
    have "pg_frame (pw_pages w p) = page_of (pw_fs w f) ino (ucast page)" using d(7) [OF p [unfolded i] True] .
    then have e: "eff (c(i := None)) w j = eff c w j" for j using p i by (auto simp: eff_def)
    have "inode_page_release p w = Some w" using True pd(3) i by (simp add: inode_page_release_def)
    moreover have "pc_good V N E (c(i := None)) w"
      unfolding pc_good_def e
    proof (intro conjI allI impI)
      fix f' ino' page' q assume "(c(i := None)) (f', ino', page') = Some q"
      then have a: "c (f', ino', page') = Some q" by (simp split: if_splits)
      show "(f', ino') \<in> V" "small page'" "pg_id (pw_pages w q) = (f', ino', page')" "length (pg_frame (pw_pages w q)) = page_len"
        using d(6) [OF a] by simp_all
      show "pg_frame (pw_pages w q) = page_of (pw_fs w f') ino' (ucast page')" if "pg_flags (pw_pages w q) AND INODEPAGE_DIRTY = 0"
        using d(7) [OF a that] .
    qed (rule d; assumption)+
    ultimately show ?thesis by blast
  next
    case False
    obtain ri where "rfs_inodes (pw_fs w f) ino = Some ri" using d(1) [of f ino] pd(1) by auto
    from write_page_ok [OF this, of "ucast page" "pg_frame (pw_pages w p)"] obtain rfs where
      rfs: "ramfs_write_page ino (ucast page) (pg_frame (pw_pages w p)) (pw_fs w f) = Some (0, rfs)"
        "page_of rfs = (page_of (pw_fs w f))(ino := (page_of (pw_fs w f) ino)(ucast page := pg_frame (pw_pages w p)))"
        "dom (rfs_inodes rfs) = dom (rfs_inodes (pw_fs w f))" by blast
    let ?w = "set_fs f rfs w"
    have run: "inode_page_release p w = Some ?w" using False pd(3) i rfs(1) by (simp add: inode_page_release_def)
    have ex: "rfs_inodes (pw_fs ?w g) k \<noteq> None \<longleftrightarrow> rfs_inodes (pw_fs w g) k \<noteq> None" for g k
      using rfs(3) by (cases "g = f") (auto simp: set_fs_def)
    have po: "page_of (pw_fs ?w g) k q = (if g = f \<and> k = ino \<and> q = ucast page then pg_frame (pw_pages w p)
        else page_of (pw_fs w g) k q)" for g k q using rfs(2) by (simp add: set_fs_def)
    have ne: "(ucast page' :: u32) \<noteq> ucast page" if "small page'" "page' \<noteq> page" for page' :: u64
      using small_ucast [OF that(1) pd(2)] that(2) by blast
    have e: "eff (c(i := None)) ?w (g, k, page') = eff c w (g, k, page')" if "small page'" for g k page'
      using p i po ne [OF that] by (auto simp: eff_def set_fs_def split: option.splits)
    have "pc_good V N E (c(i := None)) ?w" unfolding pc_good_def
    proof (intro conjI allI impI)
      show "((f', ino') \<in> V) = (rfs_inodes (pw_fs ?w f') ino' \<noteq> None)" for f' ino' using d(1) ex by simp
      show "pw_nodes ?w = N" using d(2) by (simp add: set_fs_def)
      show "unat (in_length (N n)) \<le> 2 ^ 43" for n by (rule d(3))
      show "length (pw_junk ?w) = page_len" using d(4) by (simp add: set_fs_def)
      show "length (page_of (pw_fs ?w f') ino' q) = page_len" for f' ino' q using po d(5) pd(4) by simp
      fix f' ino' page' q assume "(c(i := None)) (f', ino', page') = Some q"
      then have a: "c (f', ino', page') = Some q" "(f', ino', page') \<noteq> (f, ino, page)" by (auto simp: i split: if_splits)
      show "(f', ino') \<in> V" "small page'" "pg_id (pw_pages ?w q) = (f', ino', page')" "length (pg_frame (pw_pages ?w q)) = page_len"
        using d(6) [OF a(1)] by (simp_all add: set_fs_def)
      show "pg_frame (pw_pages ?w q) = page_of (pw_fs ?w f') ino' (ucast page')" if "pg_flags (pw_pages ?w q) AND INODEPAGE_DIRTY = 0"
        using d(7) [OF a(1)] d(6) [OF a(1)] that a(2) po ne by (auto simp: set_fs_def)
    next
      show "E (f', ino', page') = eff (c(i := None)) ?w (f', ino', page')" if "small page'" for f' ino' page'
        using d(8) [OF that] e [OF that] by simp
      show "E (f', ino', page') ! k = 0" if "(f', ino') \<in> V" "small page'" "k < page_len"
        "unat (in_length (N (f', ino'))) \<le> unat page' * page_len + k" for f' ino' page' k by (rule d(9) [OF that])
    qed
    with run show ?thesis by blast
  qed
qed

definition pc_valid :: "(u64 \<times> u64) set \<Rightarrow> page_id \<Rightarrow> bool" where
  "pc_valid V i \<longleftrightarrow> (fst i, fst (snd i)) \<in> V \<and> small (snd (snd i))"

interpretation pc: lru_client inode_page_initialize inode_page_release "pc_valid V" "pc_good V N E" for V N E
proof
  fix c w i p assume a: "pc_good V N E c w" "pc_valid V i" "c i = None" "p \<notin> ran c"
  obtain f ino page where i: "i = (f, ino, page)" by (cases i) auto
  have "\<exists>w'. (\<forall>l. inode_page_initialize p i (l, w) = Some (True, kobj_lru_mark_ready p i l, w')) \<and> pc_good V N E (c(i \<mapsto> p)) w'"
    unfolding i by (rule load_ok) (use a i in \<open>auto simp: pc_valid_def\<close>)
  then obtain w' where "\<forall>l. inode_page_initialize p i (l, w) = Some (True, kobj_lru_mark_ready p i l, w')"
    "pc_good V N E (c(i \<mapsto> p)) w'" by blast
  then show "\<exists>b w'. (\<forall>l. inode_page_initialize p i (l, w) = (if b then Some (True, kobj_lru_mark_ready p i l, w')
        else map_option (\<lambda>l'. (False, l', w')) (kobj_lru_mark_error p i l))) \<and> pc_good V N E (if b then c(i \<mapsto> p) else c) w'"
    by (intro exI [of _ True]) auto
next
  fix c w i p assume "pc_good V N E c w" "c i = Some p"
  then show "\<exists>w'. inode_page_release p w = Some w' \<and> pc_good V N E (c(i := None)) w'" by (rule unload_ok)
qed

text \<open>The invariant of the page cache.\<close>

definition pc_inv :: "(u64 \<times> u64) set \<Rightarrow> (u64 \<times> u64 \<Rightarrow> inode) \<Rightarrow> (page_id \<Rightarrow> page) \<Rightarrow> pstate \<Rightarrow> bool" where
  "pc_inv V N E st \<longleftrightarrow> lru_inv (fst st) \<and> pc_good V N E (cached (fst st)) (snd st)"

lemma pc_total: "pc_valid V i \<Longrightarrow> \<not> pc.may_fail V N E i"
proof
  assume v: "pc_valid V i" and "pc.may_fail V N E i"
  then obtain c w p l l' w' where f: "pc_good V N E c w" "c i = None" "p \<notin> ran c"
    "inode_page_initialize p i (l, w) = Some (False, l', w')" unfolding pc.may_fail_def by blast
  obtain f' ino page where i: "i = (f', ino, page)" by (cases i) auto
  have "(f', ino) \<in> V" "small page" using v i by (simp_all add: pc_valid_def)
  from load_ok [OF f(1) this f(2) [unfolded i] f(3)] f(4) show False unfolding i by auto
qed

lemma get_page_ok:
  assumes inv: "pc_inv V N E st" and v: "(f, ino) \<in> V" "small page"
  shows "\<exists>p st'. inode_get_page (f, ino) (ucast page) st = Some (Object p, st') \<and> p \<noteq> NULL \<and> pc_inv V N E st' \<and>
    cached (fst st') (f, ino, page) = Some p \<and> koh_refs (lru_hdr (fst st') p) > 2"
proof -
  obtain l w where st: "st = (l, w)" by (cases st)
  let ?i = "(f, ino, page)"
  have i: "pc_valid V ?i" using v by (simp add: pc_valid_def)
  have g: "lru_inv l" "pc_good V N E (cached l) w" using inv by (simp_all add: pc_inv_def st)
  obtain r l' w' where r: "kobj_lru_get inode_page_initialize inode_page_release ?i (l, w) = Some (r, l', w')"
    "pc.served V N E ?i l r l' w'" using pc.get_ok [OF g i] by blast
  note s = pc.servedD [OF r(2)]
  obtain p where p: "r = Object p" using s(3) by (cases r) auto
  have n: "p \<noteq> NULL" using s(5) p pc_total [OF i, of N E] by auto
  have "koh_refs (lru_hdr l p) \<ge> 2" if "cached l ?i = Some p" using obj_okD [OF g(1) that] by (simp add: obj_ok_def)
  then have "koh_refs (lru_hdr l' p) > 2" using s(4) [OF p n] by (auto split: if_splits)
  then have "inode_get_page (f, ino) (ucast page) st = Some (Object p, l', w') \<and> p \<noteq> NULL \<and> pc_inv V N E (l', w') \<and>
    cached l' ?i = Some p \<and> koh_refs (lru_hdr l' p) > 2"
    using r(1) p n s(1,2) s(4) [OF p n] by (simp add: inode_get_page_def st small_scast [OF v(2)] pc_inv_def)
  then show ?thesis by (metis fst_conv)
qed

lemma release_page_ok:
  assumes "pc_inv V N E st" "cached (fst st) i = Some p" "koh_refs (lru_hdr (fst st) p) > 2"
  shows "\<exists>st'. inode_release_page p st = Some st' \<and> pc_inv V N E st'"
proof -
  obtain l' where "kobj_lru_put p (fst st) = Some l'" "lru_inv l'" "lru_hash l' = lru_hash (fst st)"
    using put_ok [of "fst st" i p] assms by (auto simp: pc_inv_def)
  then show ?thesis using assms(1) by (simp add: inode_release_page_def pc_inv_def)
qed

section \<open>Reading\<close>

text \<open>Byte \<open>k\<close> of an inode.\<close>

definition fbyte :: "(page_id \<Rightarrow> page) \<Rightarrow> u64 \<times> u64 \<Rightarrow> nat \<Rightarrow> u8" where
  "fbyte E n k = E (fst n, snd n, of_nat (k div page_len)) ! (k mod page_len)"

lemma page_length:
  assumes "pc_good V N E c w" "small page"
  shows "length (E (f, ino, page)) = page_len"
  using pc_goodD(5,6,8) [OF assms(1)] assms(2) by (auto simp: eff_def split: option.splits)

lemma fbyte_slice:
  assumes "length (E (f, ino, of_nat q)) = page_len" "q = k div page_len" "k mod page_len + n \<le> page_len"
  shows "take n (drop (k mod page_len) (E (f, ino, of_nat q))) = map (fbyte E (f, ino)) [k..<k + n]"
proof (rule nth_equalityI)
  show "length (take n (drop (k mod page_len) (E (f, ino, of_nat q)))) = length (map (fbyte E (f, ino)) [k..<k + n])"
    using assms by simp
  fix j assume "j < length (take n (drop (k mod page_len) (E (f, ino, of_nat q))))"
  then have j: "j < n" by simp
  then have "k mod page_len + j < page_len" using assms(3) by simp
  then have "(k + j) div page_len = q \<and> (k + j) mod page_len = k mod page_len + j"
    unfolding assms(2) by (metis add.assoc div_mult_mod_eq div_eq_dividend_iff div_mult_self3 mod_less mod_mult_self3 less_nat_zero_code add.right_neutral div_less)
  then show "take n (drop (k mod page_len) (E (f, ino, of_nat q))) ! j = map (fbyte E (f, ino)) [k..<k + n] ! j"
    using j assms(1,3) by (simp add: fbyte_def)
qed

text \<open>The arithmetic of one round of the loops, on words of 64 bits.\<close>

definition chunk :: "nat \<Rightarrow> nat \<Rightarrow> nat" where
  "chunk k rest = min (page_len - k mod page_len) rest"

lemma word_diff: "b \<le> a \<Longrightarrow> (of_nat a - of_nat b :: u64) = of_nat (a - b)"
  by (simp add: of_nat_diff)

lemma word_less: "a < 2 ^ 64 \<Longrightarrow> b < 2 ^ 64 \<Longrightarrow> (of_nat a :: u64) < of_nat b \<longleftrightarrow> a < b"
  by (simp add: word_less_nat_alt unat_of_nat64)

lemma loop_words:
  assumes b: "o' + n \<le> 2 ^ 43" and a: "a < n"
  shows "(of_nat a :: u64) < of_nat n"
    "(if PAGE - of_nat ((o' + a) mod page_len) > of_nat n - of_nat a then of_nat n - of_nat a
      else PAGE - of_nat ((o' + a) mod page_len)) = (of_nat (chunk (o' + a) (n - a)) :: u64)"
    "unat (of_nat (chunk (o' + a) (n - a)) :: u64) = chunk (o' + a) (n - a)"
    "unat (of_nat ((o' + a) mod page_len) :: u64) = (o' + a) mod page_len"
    "small (of_nat ((o' + a) div page_len))"
proof -
  let ?x = "(o' + a) mod page_len" and ?c = "chunk (o' + a) (n - a)"
  have x: "?x < page_len" by (simp add: page_len_def)
  have P: "(PAGE :: u64) - of_nat ?x = of_nat (page_len - ?x)"
    using word_diff [of ?x page_len] x by (simp add: PAGE_def page_len_def)
  have D: "(of_nat n - of_nat a :: u64) = of_nat (n - a)" using word_diff a by simp
  have l: "n - a < 2 ^ 64" "page_len - ?x < 2 ^ 64" "?c < 2 ^ 64" "?x < 2 ^ 64"
    using b x by (simp_all add: page_len_def chunk_def)
  show "(of_nat a :: u64) < of_nat n" using word_less [of a n] a b by simp
  show "(if PAGE - of_nat ?x > of_nat n - of_nat a then of_nat n - of_nat a else PAGE - of_nat ?x) = (of_nat ?c :: u64)"
    unfolding P D word_less [OF l(1,2)] chunk_def by (simp add: min_def)
  show "unat (of_nat ?c :: u64) = ?c" "unat (of_nat ?x :: u64) = ?x" using l by (simp_all add: unat_of_nat64)
  have "(o' + a) div page_len < 2 ^ 31" using a b by (simp add: page_len_def div_less_iff_less_mult)
  then show "small (of_nat ((o' + a) div page_len))" by (simp add: small_def unat_of_nat64)
qed

lemma loop_chunk:
  assumes "a < n"
  shows "chunk (o' + a) (n - a) \<noteq> 0" "a + chunk (o' + a) (n - a) \<le> n" "(o' + a) mod page_len + chunk (o' + a) (n - a) \<le> page_len"
    "a + chunk (o' + a) (n - a) < n \<Longrightarrow> (o' + (a + chunk (o' + a) (n - a))) mod page_len = 0 \<and>
       (o' + (a + chunk (o' + a) (n - a))) div page_len = (o' + a) div page_len + 1"
proof -
  let ?c = "chunk (o' + a) (n - a)"
  have x: "(o' + a) mod page_len < page_len" by (simp add: page_len_def)
  show "?c \<noteq> 0" "a + ?c \<le> n" "(o' + a) mod page_len + ?c \<le> page_len" using assms x by (auto simp: chunk_def min_def)
  assume "a + ?c < n"
  then have c: "?c = page_len - (o' + a) mod page_len" by (simp add: chunk_def min_def split: if_splits)
  have "o' + a = (o' + a) div page_len * page_len + (o' + a) mod page_len" by simp
  moreover have "((o' + a) div page_len + 1) * page_len = (o' + a) div page_len * page_len + page_len" by simp
  ultimately have "o' + (a + ?c) = ((o' + a) div page_len + 1) * page_len" using c x by linarith
  then show "(o' + (a + ?c)) mod page_len = 0 \<and> (o' + (a + ?c)) div page_len = (o' + a) div page_len + 1"
    by (simp add: page_len_def)
qed

lemma read_loop_ok:
  assumes v: "(f, ino) \<in> V" and b: "o' + n \<le> 2 ^ 43"
  shows "a \<le> n \<Longrightarrow> pc_inv V N E st \<Longrightarrow>
    (a < n \<Longrightarrow> pageoff = of_nat ((o' + a) mod page_len) \<and> pagenum = of_nat ((o' + a) div page_len)) \<Longrightarrow>
    \<exists>st'. data_read_loop (f, ino) pageoff pagenum (of_nat a) (of_nat n) buf st =
      Some (of_nat n, buf @ map (fbyte E (f, ino)) [o' + a..<o' + n], st') \<and> pc_inv V N E st'"
proof (induction "n - a" arbitrary: a pageoff pagenum buf st rule: less_induct)
  case less
  show ?case
  proof (cases "a < n")
    case False
    then have "a = n" using less.prems(1) by simp
    then show ?thesis using less.prems(2) by (subst data_read_loop.simps) simp
  next
    case True
    let ?t = "chunk (o' + a) (n - a)" and ?q = "(o' + a) div page_len"
    note w = loop_words [OF b True] loop_chunk [OF True, of o']
    have off: "pageoff = of_nat ((o' + a) mod page_len)" "pagenum = of_nat ?q" using less.prems(3) [OF True] by blast+
    obtain p st1 where g: "inode_get_page (f, ino) (ucast pagenum) st = Some (Object p, st1)" "p \<noteq> NULL" "pc_inv V N E st1"
      "cached (fst st1) (f, ino, pagenum) = Some p" "koh_refs (lru_hdr (fst st1) p) > 2"
      using get_page_ok [OF less.prems(2) v w(5)] unfolding off by blast
    have good: "pc_good V N E (cached (fst st1)) (snd st1)" using g(3) by (simp add: pc_inv_def)
    have frame: "pg_frame (pw_pages (snd st1) p) = E (f, ino, of_nat ?q)"
      using pc_goodD(8) [OF good w(5)] g(4) off by (simp add: eff_def)
    have data: "take (unat (of_nat ?t :: u64)) (drop (unat pageoff) (pg_frame (pw_pages (snd st1) p))) =
        map (fbyte E (f, ino)) [o' + a..<o' + a + ?t]"
      unfolding frame off w(3,4) by (rule fbyte_slice) (use page_length [OF good w(5)] w(8) in simp_all)
    obtain st2 where r: "inode_release_page p st1 = Some st2" "pc_inv V N E st2" using release_page_ok [OF g(3-5)] by blast
    have "\<exists>st'. data_read_loop (f, ino) 0 (pagenum + 1) (of_nat (a + ?t)) (of_nat n)
        (buf @ map (fbyte E (f, ino)) [o' + a..<o' + a + ?t]) st2 =
      Some (of_nat n, (buf @ map (fbyte E (f, ino)) [o' + a..<o' + a + ?t]) @ map (fbyte E (f, ino)) [o' + (a + ?t)..<o' + n], st') \<and>
      pc_inv V N E st'"
    proof (rule less.hyps [OF _ w(7) r(2)])
      show "n - (a + ?t) < n - a" using True w(6) by linarith
      show "0 = of_nat ((o' + (a + ?t)) mod page_len) \<and> pagenum + 1 = of_nat ((o' + (a + ?t)) div page_len)" if "a + ?t < n"
        using w(9) [OF that] off by simp
    qed
    moreover have "map (fbyte E (f, ino)) [o' + a..<o' + a + ?t] @ map (fbyte E (f, ino)) [o' + (a + ?t)..<o' + n] =
        map (fbyte E (f, ino)) [o' + a..<o' + n]"
      using w(7) upt_add_eq_append [of "o' + a" "o' + a + ?t" "n - (a + ?t)"] by (simp add: add.assoc flip: map_append)
    ultimately show ?thesis
      using w(1,2) g(1,2) data r(1) off by (subst data_read_loop.simps) (simp add: Let_def)
  qed
qed

section \<open>Writing\<close>

definition grown :: "u64 \<times> u64 \<Rightarrow> u64 \<Rightarrow> (u64 \<times> u64 \<Rightarrow> inode) \<Rightarrow> u64 \<times> u64 \<Rightarrow> inode" where
  "grown node e N = (if e > in_length (N node) then N(node := (N node)\<lparr>in_length := e, in_dirty := True\<rparr>) else N)"

lemma grown_len:
  assumes "e \<le> 2 ^ 43"
  shows "unat (in_length (grown node (of_nat e) N m)) =
    (if m = node then max (unat (in_length (N node))) e else unat (in_length (N m)))"
proof -
  have "unat (of_nat e :: u64) = e" using assms by (intro unat_of_nat64) simp
  then show ?thesis by (auto simp: grown_def word_less_nat_alt max_def)
qed

lemma dirty_or: "(x OR INODEPAGE_DIRTY) AND INODEPAGE_DIRTY \<noteq> 0"
proof -
  have "(x OR 1) AND 1 = (1 :: u32)" by (simp add: bit_eq_iff bit_simps)
  then show ?thesis by (simp add: INODEPAGE_DIRTY_def)
qed

definition patch :: "nat \<Rightarrow> u8 list \<Rightarrow> page \<Rightarrow> page" where
  "patch o' bs pg = take o' pg @ bs @ drop (o' + length bs) pg"

lemma patch_nth:
  assumes "o' + length bs \<le> length pg" "k < length pg"
  shows "patch o' bs pg ! k = (if o' \<le> k \<and> k < o' + length bs then bs ! (k - o') else pg ! k)"
  using assms by (auto simp: patch_def nth_append min_def)

lemma length_patch: "o' + length bs \<le> length pg \<Longrightarrow> length (patch o' bs pg) = length pg"
  by (simp add: patch_def)

definition write_page :: "u64 \<times> u64 \<Rightarrow> nat \<Rightarrow> nat \<Rightarrow> u8 list \<Rightarrow> ptr \<Rightarrow> pworld \<Rightarrow> pworld" where
  "write_page node e o' bs p w = mark_page_dirty p (grow node (of_nat e) (write_bytes p o' bs w))"

lemma write_page_fields:
  "pw_pages (write_page node e o' bs p w) = (pw_pages w)(p := (pw_pages w p)\<lparr>pg_frame := patch o' bs (pg_frame (pw_pages w p)),
     pg_flags := pg_flags (pw_pages w p) OR INODEPAGE_DIRTY\<rparr>)"
  "pw_nodes (write_page node e o' bs p w) = grown node (of_nat e) (pw_nodes w)"
  "pw_fs (write_page node e o' bs p w) = pw_fs w" "pw_junk (write_page node e o' bs p w) = pw_junk w"
  by (auto simp: write_page_def mark_page_dirty_def grow_def write_bytes_def set_page_def grown_def patch_def Let_def)

lemma write_page_ok':
  assumes g: "pc_good V N E c w" and inj: "\<And>j. c j = Some p \<Longrightarrow> j = (f, ino, page)" and p: "c (f, ino, page) = Some p"
    and b: "o' + length bs \<le> page_len" and e: "e = unat page * page_len + o' + length bs" "e \<le> 2 ^ 43"
  shows "pc_good V (grown (f, ino) (of_nat e) N) (E((f, ino, page) := patch o' bs (E (f, ino, page)))) c
    (write_page (f, ino) e o' bs p w)"
proof -
  let ?i = "(f, ino, page)" and ?w = "write_page (f, ino) e o' bs p w"
  note d = pc_goodD [OF g] and wf = write_page_fields
  have v: "(f, ino) \<in> V" "small page" "pg_id (pw_pages w p) = ?i" "length (pg_frame (pw_pages w p)) = page_len" using d(6) [OF p] by simp_all
  have E: "E ?i = pg_frame (pw_pages w p)" using d(8) [OF v(2)] p by (simp add: eff_def)
  have ef: "eff c ?w j = (if j = ?i then patch o' bs (E ?i) else eff c w j)" for j
  proof (cases "j = ?i")
    case True
    then show ?thesis using p E by (simp add: eff_def wf)
  next
    case False
    then have "c j \<noteq> Some p" using inj by blast
    then show ?thesis using False by (cases "c j") (simp_all add: eff_def wf)
  qed
  show ?thesis unfolding pc_good_def
  proof (intro conjI allI impI)
    show "((f', ino') \<in> V) = (rfs_inodes (pw_fs ?w f') ino' \<noteq> None)" for f' ino' using d(1) by (simp add: wf)
    show "pw_nodes ?w = grown (f, ino) (of_nat e) N" using d(2) by (simp add: wf)
    show "unat (in_length (grown (f, ino) (of_nat e) N n)) \<le> 2 ^ 43" for n
      unfolding grown_len [OF e(2)] using d(3) [of n] d(3) [of "(f, ino)"] e(2) by simp
    show "length (pw_junk ?w) = page_len" using d(4) by (simp add: wf)
    show "length (page_of (pw_fs ?w f') ino' q) = page_len" for f' ino' q using d(5) by (simp add: wf)
    fix f' ino' page' q assume a: "c (f', ino', page') = Some q"
    note da = d(6) [OF a]
    show "(f', ino') \<in> V" "small page'" using da by simp_all
    show "pg_id (pw_pages ?w q) = (f', ino', page')" using da by (auto simp: wf)
    show "length (pg_frame (pw_pages ?w q)) = page_len" using da b v(4) by (simp add: wf length_patch)
    show "pg_frame (pw_pages ?w q) = page_of (pw_fs ?w f') ino' (ucast page')" if "pg_flags (pw_pages ?w q) AND INODEPAGE_DIRTY = 0"
      using that d(7) [OF a] dirty_or by (simp add: wf split: if_splits)
  next
    show "(E(?i := patch o' bs (E ?i))) (f', ino', page') = eff c ?w (f', ino', page')" if "small page'" for f' ino' page'
      unfolding ef using d(8) [OF that] by simp
    show "(E(?i := patch o' bs (E ?i))) (f', ino', page') ! k = 0"
      if a: "(f', ino') \<in> V" "small page'" "k < page_len"
        "unat (in_length (grown (f, ino) (of_nat e) N (f', ino'))) \<le> unat page' * page_len + k" for f' ino' page' k
    proof -
      have len: "unat (in_length (N (f', ino'))) \<le> unat page' * page_len + k"
        and past: "(f', ino', page') = ?i \<Longrightarrow> o' + length bs \<le> k"
        using a(4) e(1) unfolding grown_len [OF e(2)] by (auto split: if_splits)
      have "E (f', ino', page') ! k = 0" by (rule d(9) [OF a(1-3) len])
      then show ?thesis using past patch_nth [of o' bs "E ?i" k] b v(4) E a(3) by auto
    qed
  qed
qed

lemma word_of_nat_eq64: "a < 2 ^ 64 \<Longrightarrow> b < 2 ^ 64 \<Longrightarrow> (of_nat a :: u64) = of_nat b \<longleftrightarrow> a = b"
  using unat_of_nat64 [of a] unat_of_nat64 [of b] by metis

lemma fbyte_patch:
  assumes "k < 2 ^ 43" "q < 2 ^ 31" "length (E (f, ino, of_nat q)) = page_len" "o' + length bs \<le> page_len"
  shows "fbyte (E((f, ino, of_nat q) := patch o' bs (E (f, ino, of_nat q)))) m k =
    (if m = (f, ino) \<and> q * page_len + o' \<le> k \<and> k < q * page_len + o' + length bs
     then bs ! (k - (q * page_len + o')) else fbyte E m k)"
proof -
  have "k div page_len < 2 ^ 31" using assms(1) by (simp add: page_len_def div_less_iff_less_mult)
  then have inj: "(of_nat (k div page_len) :: u64) = of_nat q \<longleftrightarrow> k div page_len = q"
    using assms(2) word_of_nat_eq64 [of "k div page_len" q] by simp
  have m: "k mod page_len < page_len" by (simp add: page_len_def)
  have k: "k = k div page_len * page_len + k mod page_len" by simp
  show ?thesis
  proof (cases "m = (f, ino) \<and> k div page_len = q")
    case True
    then have "k = q * page_len + k mod page_len" using k by simp
    then have "(o' \<le> k mod page_len \<and> k mod page_len < o' + length bs) \<longleftrightarrow> q * page_len + o' \<le> k \<and> k < q * page_len + o' + length bs"
      "k - (q * page_len + o') = k mod page_len - o'" by linarith+
    then show ?thesis using True patch_nth [of o' bs "E (f, ino, of_nat q)" "k mod page_len"] assms(3,4) m by (simp add: fbyte_def)
  next
    case False
    have "k div page_len = q" if "q * page_len + o' \<le> k" "k < q * page_len + o' + length bs"
    proof -
      have "q * page_len \<le> k" "k < (q + 1) * page_len" using that assms(4) by simp_all
      then show ?thesis by (metis Suc_eq_plus1 div_nat_eqI mult.commute)
    qed
    then show ?thesis using False inj by (cases m) (auto simp: fbyte_def)
  qed
qed

text \<open>One round of the loop.\<close>

lemma write_step:
  assumes v: "(f, ino) \<in> V" and b: "o' + n \<le> 2 ^ 43" and lb: "length buf = n" and a: "a < n" and inv: "pc_inv V N E st"
    and t: "t = chunk (o' + a) (n - a)"
  shows "\<exists>st' N' E'. data_write_loop (f, ino) (of_nat o') (of_nat ((o' + a) mod page_len)) (of_nat ((o' + a) div page_len)) (of_nat a) (of_nat n) buf st =
      data_write_loop (f, ino) (of_nat o') 0 (of_nat ((o' + a) div page_len) + 1) (of_nat (a + t)) (of_nat n) buf st' \<and>
      pc_inv V N' E' st' \<and>
      (\<forall>m. unat (in_length (N' m)) = (if m = (f, ino) then max (unat (in_length (N m))) (o' + (a + t)) else unat (in_length (N m)))) \<and>
      (\<forall>m k. k < 2 ^ 43 \<longrightarrow> fbyte E' m k = (if m = (f, ino) \<and> o' + a \<le> k \<and> k < o' + (a + t) then buf ! (k - o') else fbyte E m k))"
proof -
  let ?q = "(o' + a) div page_len" and ?r = "(o' + a) mod page_len"
  let ?e = "o' + (a + t)" and ?bs = "take t (drop a buf)"
  note w = loop_words [OF b a, folded t] loop_chunk [OF a, of o', folded t]
  obtain p st1 where g: "inode_get_page (f, ino) (ucast (of_nat ?q :: u64)) st = Some (Object p, st1)" "p \<noteq> NULL" "pc_inv V N E st1"
    "cached (fst st1) (f, ino, of_nat ?q) = Some p" "koh_refs (lru_hdr (fst st1) p) > 2"
    using get_page_ok [OF inv v w(5)] by blast
  have good: "pc_good V N E (cached (fst st1)) (snd st1)" "lru_inv (fst st1)" using g(3) by (simp_all add: pc_inv_def)
  have ua: "unat (of_nat a :: u64) = a" using a b by (intro unat_of_nat64) simp
  have q: "?q < 2 ^ 31" using a b by (simp add: page_len_def div_less_iff_less_mult)
  have uq: "unat (of_nat ?q :: u64) = ?q" using q by (intro unat_of_nat64) simp
  have bs: "length ?bs = t" using lb w(7) by simp
  have e: "?e = unat (of_nat ?q :: u64) * page_len + ?r + length ?bs" unfolding uq bs by simp
  have eb: "?e \<le> 2 ^ 43" using w(7) b by simp
  let ?E = "E((f, ino, of_nat ?q) := patch ?r ?bs (E (f, ino, of_nat ?q)))" and ?N = "grown (f, ino) (of_nat ?e) N"
  let ?w = "write_page (f, ino) ?e ?r ?bs p (snd st1)"
  have "pc_good V ?N ?E (cached (fst st1)) ?w"
    by (rule write_page_ok' [OF good(1) _ g(4) _ e eb]) (use cached_inj [OF good(2) _ g(4)] w(8) bs in auto)
  then have inv': "pc_inv V ?N ?E (fst st1, ?w)" using good(2) by (simp add: pc_inv_def)
  have "\<exists>st2. inode_release_page p (fst st1, ?w) = Some st2 \<and> pc_inv V ?N ?E st2"
    by (rule release_page_ok [OF inv']) (use g(4,5) in auto)
  then obtain st2 where r: "inode_release_page p (fst st1, ?w) = Some st2" "pc_inv V ?N ?E st2" by blast
  have "of_nat t + of_nat o' + of_nat a = (of_nat ?e :: u64)" by simp
  then have "mark_page_dirty p (grow (f, ino) (of_nat t + of_nat o' + of_nat a) (write_bytes p ?r ?bs (snd st1))) = ?w"
    unfolding write_page_def by (simp only:)
  then have "data_write_loop (f, ino) (of_nat o') (of_nat ?r) (of_nat ?q) (of_nat a) (of_nat n) buf st =
      data_write_loop (f, ino) (of_nat o') 0 (of_nat ?q + 1) (of_nat (a + t)) (of_nat n) buf st2"
    using w(1-4) g(1,2) r(1) ua by (subst data_write_loop.simps) (simp add: Let_def)
  moreover have "fbyte ?E m k = (if m = (f, ino) \<and> o' + a \<le> k \<and> k < o' + (a + t) then buf ! (k - o') else fbyte E m k)" if k: "k < 2 ^ 43" for m k
  proof -
    have "?q * page_len + ?r = o' + a" by simp
    then have "fbyte ?E m k = (if m = (f, ino) \<and> o' + a \<le> k \<and> k < o' + (a + t) then ?bs ! (k - (o' + a)) else fbyte E m k)"
      using fbyte_patch [of k ?q E f ino ?r ?bs m] k q page_length [OF good(1) w(5), of f ino] w(8) bs by (simp add: add.assoc)
    moreover have "?bs ! (k - (o' + a)) = buf ! (k - o')" if "o' + a \<le> k" "k < o' + (a + t)" using that lb w(7) by simp
    ultimately show ?thesis by metis
  qed
  moreover note r(2) grown_len [OF eb, of "(f, ino)" N]
  ultimately show ?thesis by (intro exI [of _ st2] exI [of _ ?N] exI [of _ ?E]) auto
qed

lemma write_loop_ok:
  assumes v: "(f, ino) \<in> V" and b: "o' + n \<le> 2 ^ 43" and lb: "length buf = n"
  shows "a \<le> n \<Longrightarrow> pc_inv V N E st \<Longrightarrow>
    (a < n \<Longrightarrow> pageoff = of_nat ((o' + a) mod page_len) \<and> pagenum = of_nat ((o' + a) div page_len)) \<Longrightarrow>
    \<exists>st' N' E'. data_write_loop (f, ino) (of_nat o') pageoff pagenum (of_nat a) (of_nat n) buf st = Some (of_nat n, st') \<and>
      pc_inv V N' E' st' \<and>
      (\<forall>m. unat (in_length (N' m)) = (if m = (f, ino) \<and> a < n then max (unat (in_length (N m))) (o' + n) else unat (in_length (N m)))) \<and>
      (\<forall>m k. k < 2 ^ 43 \<longrightarrow> fbyte E' m k = (if m = (f, ino) \<and> o' + a \<le> k \<and> k < o' + n then buf ! (k - o') else fbyte E m k))"
proof (induction "n - a" arbitrary: a pageoff pagenum N E st rule: less_induct)
  case less
  show ?case
  proof (cases "a < n")
    case False
    then have "a = n" using less.prems(1) by simp
    then have "data_write_loop (f, ino) (of_nat o') pageoff pagenum (of_nat a) (of_nat n) buf st = Some (of_nat n, st)"
      by (subst data_write_loop.simps) simp
    then show ?thesis using less.prems(2) \<open>a = n\<close> by (intro exI [of _ st] exI [of _ N] exI [of _ E]) auto
  next
    case True
    define t where "t = chunk (o' + a) (n - a)"
    note c = loop_chunk [OF True, of o', folded t_def]
    have off: "pageoff = of_nat ((o' + a) mod page_len)" "pagenum = of_nat ((o' + a) div page_len)"
      using less.prems(3) [OF True] by blast+
    obtain st1 N1 E1 where s: "data_write_loop (f, ino) (of_nat o') pageoff pagenum (of_nat a) (of_nat n) buf st =
        data_write_loop (f, ino) (of_nat o') 0 (pagenum + 1) (of_nat (a + t)) (of_nat n) buf st1" "pc_inv V N1 E1 st1"
      "\<And>m. unat (in_length (N1 m)) = (if m = (f, ino) then max (unat (in_length (N m))) (o' + (a + t)) else unat (in_length (N m)))"
      "\<And>m k. k < 2 ^ 43 \<Longrightarrow> fbyte E1 m k = (if m = (f, ino) \<and> o' + a \<le> k \<and> k < o' + (a + t) then buf ! (k - o') else fbyte E m k)"
      using write_step [OF v b lb True less.prems(2) t_def] unfolding off by blast
    have "n - (a + t) < n - a" using True c(1) by linarith
    moreover have "0 = of_nat ((o' + (a + t)) mod page_len) \<and> pagenum + 1 = of_nat ((o' + (a + t)) div page_len)" if "a + t < n"
      using c(4) [OF that] off by simp
    ultimately obtain st' N' E' where h:
      "data_write_loop (f, ino) (of_nat o') 0 (pagenum + 1) (of_nat (a + t)) (of_nat n) buf st1 = Some (of_nat n, st')"
      "pc_inv V N' E' st'"
      "\<And>m. unat (in_length (N' m)) = (if m = (f, ino) \<and> a + t < n then max (unat (in_length (N1 m))) (o' + n) else unat (in_length (N1 m)))"
      "\<And>m k. k < 2 ^ 43 \<Longrightarrow> fbyte E' m k = (if m = (f, ino) \<and> o' + (a + t) \<le> k \<and> k < o' + n then buf ! (k - o') else fbyte E1 m k)"
      using less.hyps [OF _ c(2) s(2), of 0 "pagenum + 1"] by blast
    have "unat (in_length (N' m)) = (if m = (f, ino) \<and> a < n then max (unat (in_length (N m))) (o' + n) else unat (in_length (N m)))" for m
      using h(3) [of m] s(3) [of m] True c(2) by (simp split: if_splits)
    moreover have "fbyte E' m k = (if m = (f, ino) \<and> o' + a \<le> k \<and> k < o' + n then buf ! (k - o') else fbyte E m k)" if "k < 2 ^ 43" for m k
      using h(4) [OF that, of m] s(4) [OF that, of m] c(2) by auto
    ultimately show ?thesis using h(1,2) s(1) by (intro exI [of _ st'] exI [of _ N'] exI [of _ E']) auto
  qed
qed

section \<open>Files as sequences of bytes\<close>

definition contents :: "(u64 \<times> u64 \<Rightarrow> inode) \<Rightarrow> (page_id \<Rightarrow> page) \<Rightarrow> u64 \<times> u64 \<Rightarrow> u8 list" where
  "contents N E n = map (fbyte E n) [0..<unat (in_length (N n))]"

text \<open>The files \<open>F\<close>, one sequence of bytes for each inode in \<open>V\<close>, that a state of the cache and
  the file systems holds.\<close>

definition holds :: "(u64 \<times> u64) set \<Rightarrow> (u64 \<times> u64 \<Rightarrow> u8 list) \<Rightarrow> pstate \<Rightarrow> bool" where
  "holds V F st \<longleftrightarrow> (\<exists>N E. pc_inv V N E st \<and> (\<forall>n\<in>V. F n = contents N E n))"

definition read_at :: "nat \<Rightarrow> nat \<Rightarrow> u8 list \<Rightarrow> u8 list" where
  "read_at off len c = take len (drop off c)"

definition write_at :: "nat \<Rightarrow> u8 list \<Rightarrow> u8 list \<Rightarrow> u8 list" where
  "write_at off bs c = (if bs = [] then c else
     take off c @ replicate (off - length c) 0 @ bs @ drop (off + length bs) c)"

lemma write_at_nth:
  "length (write_at off bs c) = (if bs = [] then length c else max (length c) (off + length bs))"
  "k < length (write_at off bs c) \<Longrightarrow> write_at off bs c ! k =
     (if off \<le> k \<and> k < off + length bs then bs ! (k - off) else if k < length c then c ! k else 0)"
  by (auto simp: write_at_def nth_append min_def max_def)

lemma holdsE:
  assumes "holds V F st" "n \<in> V"
  obtains N E where "pc_inv V N E st" "\<And>m. m \<in> V \<Longrightarrow> F m = contents N E m"
    "pw_nodes (snd st) = N" "length (F n) = unat (in_length (N n))" "length (F n) \<le> 2 ^ 43"
proof -
  obtain N E where e: "pc_inv V N E st" "\<forall>n\<in>V. F n = contents N E n" using assms(1) unfolding holds_def by blast
  then have "pc_good V N E (cached (fst st)) (snd st)" by (simp add: pc_inv_def)
  note d = pc_goodD(2,3) [OF this]
  have "length (F n) = unat (in_length (N n))" using e(2) assms(2) by (simp add: contents_def)
  then show thesis using that [of N E] e d by auto
qed

lemma off_split:
  assumes "off < 2 ^ 64"
  shows "(of_nat off :: u64) mod PAGE = of_nat (off mod page_len)" "(of_nat off :: u64) div PAGE = of_nat (off div page_len)"
proof -
  have b: "off mod page_len < 2 ^ 64" "off div page_len < 2 ^ 64"
    using assms by (simp_all add: order_le_less_trans [OF mod_less_eq_dividend] order_le_less_trans [OF div_le_dividend])
  have "unat PAGE = page_len" by (simp add: PAGE_def page_len_def)
  then show "(of_nat off :: u64) mod PAGE = of_nat (off mod page_len)" "(of_nat off :: u64) div PAGE = of_nat (off div page_len)"
    unfolding word_unat_eq_iff unat_mod_distrib unat_div_distrib unat_of_nat64 [OF assms] unat_of_nat64 [OF b(1)] unat_of_nat64 [OF b(2)] by simp_all
qed

lemma read_data_ok:
  assumes h: "holds V F st" and v: "n \<in> V" and b: "off + len \<le> 2 ^ 43"
  shows "\<exists>st'. inode_do_read_data n (of_nat off) (of_nat len) st =
      Some (of_nat (length (read_at off len (F n))), read_at off len (F n), st') \<and> holds V F st'"
proof -
  obtain N E where e: "pc_inv V N E st" "\<And>m. m \<in> V \<Longrightarrow> F m = contents N E m" "pw_nodes (snd st) = N"
    "length (F n) = unat (in_length (N n))" "length (F n) \<le> 2 ^ 43" using holdsE [OF h v] by metis
  obtain f ino where n: "n = (f, ino)" by (cases n)
  let ?L = "length (F n)"
  have nl: "in_length (N n) = of_nat ?L" unfolding e(4) by simp
  have cmp: "(of_nat off + of_nat len > (of_nat ?L :: u64)) \<longleftrightarrow> off + len > ?L" "(of_nat off \<ge> (of_nat ?L :: u64)) \<longleftrightarrow> off \<ge> ?L"
    using word_less [of ?L "off + len"] word_less [of off ?L] b e(5) by (simp_all add: not_less [symmetric])
  have od: "(of_nat off :: u64) mod PAGE = of_nat ((off + 0) mod page_len)" "(of_nat off :: u64) div PAGE = of_nat ((off + 0) div page_len)"
    using off_split [of off] b by simp_all
  have run: "\<exists>st'. data_read_loop n (of_nat off mod PAGE) (of_nat off div PAGE) 0 (of_nat k) [] st =
      Some (of_nat k, map (fbyte E n) [off..<off + k], st') \<and> holds V F st'" if "off + k \<le> 2 ^ 43" for k
  proof -
    have "\<exists>st'. data_read_loop (f, ino) (of_nat off mod PAGE) (of_nat off div PAGE) (of_nat 0) (of_nat k) [] st =
        Some (of_nat k, [] @ map (fbyte E (f, ino)) [off + 0..<off + k], st') \<and> pc_inv V N E st'"
      by (rule read_loop_ok [OF v [unfolded n] that _ e(1)]) (use od in simp_all)
    then show ?thesis using e(2) unfolding n holds_def by auto
  qed
  have slice: "map (fbyte E n) [off..<off + k] = read_at off k (F n)" if "off + k \<le> ?L" for k
    using that e(2) [OF v] e(4) by (simp add: read_at_def contents_def take_map drop_map)
  consider "off + len \<le> ?L" | "off + len > ?L" "off \<ge> ?L" | "off + len > ?L" "off < ?L" by linarith
  then show ?thesis
  proof cases
    case 1
    then show ?thesis using run [OF b] slice cmp nl e(3) by (simp add: inode_do_read_data_def Let_def read_at_def)
  next
    case 2
    then show ?thesis using cmp nl e(3) h by (simp add: inode_do_read_data_def Let_def read_at_def)
  next
    case 3
    have "(of_nat ?L - of_nat off :: u64) = of_nat (?L - off)" using word_diff 3 by simp
    moreover have "read_at off (?L - off) (F n) = read_at off len (F n)" using 3 by (simp add: read_at_def)
    ultimately show ?thesis using run [of "?L - off"] slice [of "?L - off"] 3 cmp nl e(3,5)
      by (simp add: inode_do_read_data_def Let_def) (simp add: read_at_def)
  qed
qed

lemma write_data_ok:
  assumes h: "holds V F st" and v: "n \<in> V" and b: "off + length bs \<le> 2 ^ 43"
  shows "\<exists>st'. inode_do_write_data n (of_nat off) bs st = Some (of_nat (length bs), st') \<and>
      holds V (F(n := write_at off bs (F n))) st'"
proof -
  obtain N E where e: "pc_inv V N E st" "\<And>m. m \<in> V \<Longrightarrow> F m = contents N E m" "pw_nodes (snd st) = N"
    "length (F n) = unat (in_length (N n))" "length (F n) \<le> 2 ^ 43" using holdsE [OF h v] by metis
  obtain f ino where n: "n = (f, ino)" by (cases n)
  have od: "(of_nat off :: u64) mod PAGE = of_nat ((off + 0) mod page_len)" "(of_nat off :: u64) div PAGE = of_nat ((off + 0) div page_len)"
    using off_split [of off] b by simp_all
  have "\<exists>st' N' E'. data_write_loop (f, ino) (of_nat off) (of_nat off mod PAGE) (of_nat off div PAGE) (of_nat 0) (of_nat (length bs)) bs st = Some (of_nat (length bs), st') \<and>
      pc_inv V N' E' st' \<and>
      (\<forall>m. unat (in_length (N' m)) = (if m = (f, ino) \<and> 0 < length bs then max (unat (in_length (N m))) (off + length bs) else unat (in_length (N m)))) \<and>
      (\<forall>m k. k < 2 ^ 43 \<longrightarrow> fbyte E' m k = (if m = (f, ino) \<and> off + 0 \<le> k \<and> k < off + length bs then bs ! (k - off) else fbyte E m k))"
    by (rule write_loop_ok [OF v [unfolded n] b refl _ e(1)]) (use od in simp_all)
  then obtain st' N' E' where w: "inode_do_write_data n (of_nat off) bs st = Some (of_nat (length bs), st')" "pc_inv V N' E' st'"
      "\<And>m. unat (in_length (N' m)) = (if m = n \<and> bs \<noteq> [] then max (unat (in_length (N m))) (off + length bs) else unat (in_length (N m)))"
      "\<And>m k. k < 2 ^ 43 \<Longrightarrow> fbyte E' m k = (if m = n \<and> off \<le> k \<and> k < off + length bs then bs ! (k - off) else fbyte E m k)"
    unfolding n inode_do_write_data_def by auto
  have good: "pc_good V N E (cached (fst st)) (snd st)" "pc_good V N' E' (cached (fst st')) (snd st')" using e(1) w(2) by (simp_all add: pc_inv_def)
  have zero: "fbyte E n k = 0" if "length (F n) \<le> k" "k < 2 ^ 43" for k
  proof -
    have "k div page_len < 2 ^ 31" using that by (simp add: page_len_def div_less_iff_less_mult)
    then have "small (of_nat (k div page_len))" "unat (of_nat (k div page_len) :: u64) * page_len + k mod page_len = k"
      by (simp_all add: small_def unat_of_nat64)
    then show ?thesis using pc_goodD(9) [OF good(1), of f ino "of_nat (k div page_len)" "k mod page_len"] v e(4) that
      by (simp add: fbyte_def n page_len_def)
  qed
  have "(F(n := write_at off bs (F n))) m = contents N' E' m" if m: "m \<in> V" for m
  proof (rule nth_equalityI)
    show len: "length ((F(n := write_at off bs (F n))) m) = length (contents N' E' m)"
      using w(3) [of m] e(2) [OF m] e(4) by (simp add: contents_def write_at_nth)
    fix k assume k: "k < length ((F(n := write_at off bs (F n))) m)"
    then have kl: "k < unat (in_length (N' m))" using len by (simp add: contents_def)
    then have kb: "k < 2 ^ 43" using pc_goodD(3) [OF good(2), of m] by simp
    have r: "contents N' E' m ! k = fbyte E' m k" using kl by (simp add: contents_def)
    have o: "F m ! j = fbyte E m j" if "j < length (F m)" for j using that e(2) [OF m] by (simp add: contents_def)
    show "(F(n := write_at off bs (F n))) m ! k = contents N' E' m ! k"
    proof (cases "m = n")
      case True
      then show ?thesis unfolding r w(4) [OF kb] using k write_at_nth(2) [of k off bs "F n"] o [of k] zero [of k] kb by auto
    next
      case False
      then show ?thesis unfolding r w(4) [OF kb] using k o by simp
    qed
  qed
  then show ?thesis using w(1,2) unfolding holds_def by blast
qed

datatype data_op = Read "u64 \<times> u64" nat nat | Write "u64 \<times> u64" nat "u8 list"

fun op_ok :: "(u64 \<times> u64) set \<Rightarrow> data_op \<Rightarrow> bool" where
  "op_ok V (Read n off len) \<longleftrightarrow> n \<in> V \<and> off + len \<le> 2 ^ 43"
| "op_ok V (Write n off bs) \<longleftrightarrow> n \<in> V \<and> off + length bs \<le> 2 ^ 43"

text \<open>What the calls return and hand back, in order.\<close>

fun run_data :: "data_op list \<Rightarrow> pstate \<Rightarrow> ((u64 \<times> u8 list) list \<times> pstate) option" where
  "run_data [] st = Some ([], st)"
| "run_data (Read n off len # xs) st = do {
     (r, bs, st) \<leftarrow> inode_do_read_data n (of_nat off) (of_nat len) st;
     (rs, st) \<leftarrow> run_data xs st;
     Some ((r, bs) # rs, st) }"
| "run_data (Write n off bs # xs) st = do {
     (r, st) \<leftarrow> inode_do_write_data n (of_nat off) bs st;
     (rs, st) \<leftarrow> run_data xs st;
     Some ((r, []) # rs, st) }"

fun spec_data :: "data_op list \<Rightarrow> (u64 \<times> u64 \<Rightarrow> u8 list) \<Rightarrow> (u64 \<times> u8 list) list \<times> (u64 \<times> u64 \<Rightarrow> u8 list)" where
  "spec_data [] F = ([], F)"
| "spec_data (Read n off len # xs) F =
     (let bs = read_at off len (F n); (rs, F') = spec_data xs F in ((of_nat (length bs), bs) # rs, F'))"
| "spec_data (Write n off bs # xs) F =
     (let (rs, F') = spec_data xs (F(n := write_at off bs (F n))) in ((of_nat (length bs), []) # rs, F'))"

text \<open>C1: any sequence of reads and writes of file data, at any offsets up to 8 TiB, ends without a
  panic and returns what plain sequences of bytes would return: a read gives the bytes at the
  offset, cut at the end of the file, and a write replaces bytes, extends the file and fills a gap
  with zeros. This holds whatever the size of the page cache, so through loading of pages, their
  eviction and their being written back to the file system.\<close>

theorem file_data_refines:
  assumes "holds V F st" and "\<forall>x \<in> set xs. op_ok V x"
  shows "\<exists>st'. run_data xs st = Some (fst (spec_data xs F), st') \<and> holds V (snd (spec_data xs F)) st'"
  using assms
proof (induction xs arbitrary: F st)
  case (Cons x xs)
  have tl: "\<forall>x\<in>set xs. op_ok V x" using Cons.prems(2) by simp
  show ?case
  proof (cases x)
    case (Read n off len)
    then have "n \<in> V" "off + len \<le> 2 ^ 43" using Cons.prems(2) by auto
    from read_data_ok [OF Cons.prems(1) this] obtain st1 where r: "inode_do_read_data n (of_nat off) (of_nat len) st =
      Some (of_nat (length (read_at off len (F n))), read_at off len (F n), st1)" "holds V F st1" by blast
    obtain st2 where "run_data xs st1 = Some (fst (spec_data xs F), st2)" "holds V (snd (spec_data xs F)) st2"
      using Cons.IH [OF r(2) tl] by blast
    then show ?thesis unfolding Read using r(1) by (simp add: Let_def case_prod_beta)
  next
    case (Write n off bs)
    then have "n \<in> V" "off + length bs \<le> 2 ^ 43" using Cons.prems(2) by auto
    from write_data_ok [OF Cons.prems(1) this] obtain st1 where r: "inode_do_write_data n (of_nat off) bs st =
      Some (of_nat (length bs), st1)" "holds V (F(n := write_at off bs (F n))) st1" by blast
    let ?F = "F(n := write_at off bs (F n))"
    obtain st2 where "run_data xs st1 = Some (fst (spec_data xs ?F), st2)" "holds V (snd (spec_data xs ?F)) st2"
      using Cons.IH [OF r(2) tl] by blast
    then show ?thesis unfolding Write using r(1) by (simp add: Let_def case_prod_beta)
  qed
qed simp



section \<open>A cache of one page\<close>

definition node0 :: inode where
  "node0 = \<lparr>in_id = 0, in_mode = 0, in_links = 0, in_length = 0, in_atime = 0, in_mtime = 0,
     in_ctime = 0, in_uid = 0, in_gid = 0, in_major = 0, in_minor = 0, in_dirty = False\<rparr>"

definition st0 :: pstate where
  "st0 = (kobj_lru_create 1 \<lparr>lru_max = 0, lru_hash = [], lru_lru = [], lru_active = [],
       lru_hdr = \<lambda>_. \<lparr>koh_refs = 0, koh_flags = 0, koh_id = (0, 0, 0)\<rparr>, lru_next = 1\<rparr>,
     \<lparr>pw_pages = \<lambda>_. \<lparr>pg_id = (0, 0, 0), pg_frame = [], pg_flags = 0\<rparr>, pw_fs = \<lambda>_. rfs0, pw_nodes = \<lambda>_. node0, pw_junk = zero_page\<rparr>)"

lemma holds_st0: "holds (UNIV \<times> {1, 2}) (\<lambda>_. []) st0"
proof -
  have po: "page_of rfs0 ino q = zero_page" for ino q by (simp add: page_of_def rfs0_def blank_inode_def)
  have "lru_inv (fst st0)" by (simp add: st0_def kobj_lru_create_def lru_inv_def)
  moreover have "cached (fst st0) = Map.empty" by (simp add: st0_def kobj_lru_create_def)
  moreover have "pc_good (UNIV \<times> {1, 2}) (\<lambda>_. node0) (\<lambda>_. zero_page) Map.empty (snd st0)"
    unfolding pc_good_def using po rfs0_inv(2) by (auto simp: st0_def node0_def eff_def zero_page_def page_len_def)
  ultimately show ?thesis unfolding holds_def pc_inv_def
    by (intro exI [of _ "\<lambda>_. node0"] exI [of _ "\<lambda>_. zero_page"]) (simp add: contents_def node0_def)
qed

theorem file_data_refines_witness:
  "\<exists>st'. run_data [Write (7, 1) 1 [1, 2, 3], Write (7, 2) 0 [9], Read (7, 1) 0 100, Read (7, 2) 1 5] st0 =
     Some ([(3, []), (1, []), (4, [0, 1, 2, 3]), (0, [])], st')"
  using file_data_refines [OF holds_st0, of "[Write (7, 1) 1 [1, 2, 3], Write (7, 2) 0 [9], Read (7, 1) 0 100, Read (7, 2) 1 5]"]
  by (auto simp: read_at_def write_at_def Let_def)



end
