(* ===== verification/Slab.thy ===== *)
theory Slab
  imports PhysMem LinkedList
begin

text \<open>
  The object allocator \<open>kernel/slab.c\<close>: every type of object has a cache of slabs of 64 pages,
  taken from the buddy allocator, on three lists by how many of their objects are in use. A slab
  is a pointer to its first byte, an object a pointer to its header. The stack of free objects of
  a slab and the lists are kept as sequences, which \<open>KStack\<close> and \<open>LinkedList\<close> justify. The
  counters are natural numbers; none of them passes below zero while objects are used correctly.
  The create, init and put functions of a type act on the rest of the system, the type
  \<open>'w\<close>; functions that allocate objects themselves are not covered. A panic is None.
\<close>

section \<open>Structures (kernel/slab.c, include/slab.h)\<close>

definition PHYS_MAP_START :: nat where "PHYS_MAP_START = 0xFFFF800000000000"
definition SLAB_SIZE :: nat where "SLAB_SIZE = 0x1000 * 64"
definition KOBJ_HEADER_MAGIC :: u64 where "KOBJ_HEADER_MAGIC = 0x66883322CAFEBEEF"

text \<open>The size of \<open>struct slab\<close>: two counters, a list entry of four pointers and a stack.\<close>

definition sizeof_slab :: nat where "sizeof_slab = 8 + 8 + 32 + 32"

record slab =
  sl_max :: nat
  sl_count :: nat
  sl_objects :: "ptr list"

record header =
  kh_refs :: int
  kh_flags :: u32
  kh_magic :: u64
  kh_kobj :: ptr
  kh_slab :: ptr
  kh_initialized :: bool

record cache =
  ca_empty :: "ptr list"
  ca_partial :: "ptr list"
  ca_full :: "ptr list"
  ca_total_slabs :: nat
  ca_total_inuse :: nat
  ca_allocated_objects :: nat

record kobj =
  ko_size :: nat
  ko_initialized :: bool
  ko_cache :: cache

record 'w kobj_calls =
  kc_create :: "ptr \<Rightarrow> 'w \<Rightarrow> 'w"
  kc_init :: "ptr \<Rightarrow> 'w \<Rightarrow> 'w"
  kc_put :: "ptr \<Rightarrow> 'w \<Rightarrow> 'w"

record 'w slabs =
  sw_kobj :: "ptr \<Rightarrow> kobj"
  sw_slab :: "ptr \<Rightarrow> slab"
  sw_hdr :: "ptr \<Rightarrow> header"
  sw_cache_list :: "ptr list"
  sw_mm :: physmem
  sw_rest :: 'w

definition upd_cache :: "ptr \<Rightarrow> (cache \<Rightarrow> cache) \<Rightarrow> 'w slabs \<Rightarrow> 'w slabs" where
  "upd_cache ko f st = st\<lparr>sw_kobj := (sw_kobj st)(ko := (sw_kobj st ko)\<lparr>ko_cache := f (ko_cache (sw_kobj st ko))\<rparr>)\<rparr>"

definition upd_slab :: "ptr \<Rightarrow> (slab \<Rightarrow> slab) \<Rightarrow> 'w slabs \<Rightarrow> 'w slabs" where
  "upd_slab s f st = st\<lparr>sw_slab := (sw_slab st)(s := f (sw_slab st s))\<rparr>"

definition upd_header :: "ptr \<Rightarrow> (header \<Rightarrow> header) \<Rightarrow> 'w slabs \<Rightarrow> 'w slabs" where
  "upd_header o' f st = st\<lparr>sw_hdr := (sw_hdr st)(o' := f (sw_hdr st o'))\<rparr>"

abbreviation cache_of :: "'w slabs \<Rightarrow> ptr \<Rightarrow> cache" where
  "cache_of st ko \<equiv> ko_cache (sw_kobj st ko)"

section \<open>Slabs\<close>

definition mm_virtual_allocate :: "nat \<Rightarrow> bool \<Rightarrow> physmem \<Rightarrow> (ptr \<times> physmem) option" where
  "mm_virtual_allocate len clear mm = do {
     (a, mm) \<leftarrow> mm_physical_allocate (of_nat len) clear mm;
     Some (unat a + PHYS_MAP_START, mm) }"

definition initialize_cache :: "ptr \<Rightarrow> 'w slabs \<Rightarrow> 'w slabs" where
  "initialize_cache ko st =
    (let st = upd_cache ko (\<lambda>c. c\<lparr>ca_empty := [], ca_partial := [], ca_full := [],
           ca_total_slabs := 0, ca_total_inuse := 0, ca_allocated_objects := 0\<rparr>) st
     in st\<lparr>sw_cache_list := ko # sw_cache_list st\<rparr>)"

definition slabstruct_size :: nat where
  "slabstruct_size = (sizeof_slab - 1) div 16 * 16 + 16"

text \<open>How many objects a slab gets; the subtraction wraps when not one fits.\<close>

definition slab_max :: "nat \<Rightarrow> nat" where
  "slab_max total_size =
    (let q = (SLAB_SIZE - slabstruct_size) div total_size in if q = 0 then 2 ^ 64 - 1 else q - 1)"

definition object_at :: "ptr \<Rightarrow> nat \<Rightarrow> nat \<Rightarrow> ptr" where
  "object_at start total_size i = start + slabstruct_size + i * total_size"

text \<open>The headers in a slab that was just cleared, and the loop over its objects: \<open>n\<close> rounds
  starting with object \<open>i\<close>.\<close>

definition clear_headers :: "ptr \<Rightarrow> 'w slabs \<Rightarrow> 'w slabs" where
  "clear_headers start st = st\<lparr>sw_hdr := (\<lambda>a. if start \<le> a \<and> a < start + SLAB_SIZE
     then \<lparr>kh_refs = 0, kh_flags = 0, kh_magic = 0, kh_kobj = NULL, kh_slab = NULL, kh_initialized = False\<rparr>
     else sw_hdr st a)\<rparr>"

fun push_objects :: "ptr \<Rightarrow> ptr \<Rightarrow> nat \<Rightarrow> nat \<Rightarrow> nat \<Rightarrow> 'w slabs \<Rightarrow> 'w slabs" where
  "push_objects ko start total_size i 0 st = st"
| "push_objects ko start total_size i (Suc n) st =
    (let obj = object_at start total_size i;
         st = upd_header obj (\<lambda>h. h\<lparr>kh_kobj := ko, kh_slab := start, kh_magic := KOBJ_HEADER_MAGIC\<rparr>) st;
         st = upd_slab start (\<lambda>s. s\<lparr>sl_objects := obj # sl_objects s\<rparr>) st
     in push_objects ko start total_size (Suc i) n st)"

definition create_new_slab :: "ptr \<Rightarrow> 'w slabs \<Rightarrow> (ptr \<times> 'w slabs) option" where
  "create_new_slab ko st = do {
     (start, mm) \<leftarrow> mm_virtual_allocate SLAB_SIZE True (sw_mm st);
     let st = clear_headers start (st\<lparr>sw_mm := mm\<rparr>);
     let total_size = ko_size (sw_kobj st ko);
     let st = upd_slab start (\<lambda>s. s\<lparr>sl_count := 0, sl_max := slab_max total_size, sl_objects := []\<rparr>) st;
     Some (start, push_objects ko start total_size 0 (slab_max total_size) st) }"

section \<open>Allocation\<close>

text \<open>A slab with room: of the partly used ones first, then an unused one, then a new one. The
  flag says that it is new.\<close>

definition pick_slab :: "ptr \<Rightarrow> 'w slabs \<Rightarrow> (bool \<times> ptr \<times> 'w slabs) option" where
  "pick_slab ko st = (case ca_partial (cache_of st ko) of
     s # _ \<Rightarrow> Some (False, s, st)
   | [] \<Rightarrow> (case ca_empty (cache_of st ko) of
       s # _ \<Rightarrow> Some (False, s, st)
     | [] \<Rightarrow> do {
         (s, st) \<leftarrow> create_new_slab ko st;
         Some (True, s, upd_cache ko (\<lambda>c. c\<lparr>ca_total_slabs := ca_total_slabs c + 1\<rparr>) st) }))"

text \<open>The list the slab is on after one more of its \<open>count\<close> objects is taken.\<close>

definition relist_alloc :: "ptr \<Rightarrow> ptr \<Rightarrow> nat \<Rightarrow> bool \<Rightarrow> 'w slabs \<Rightarrow> 'w slabs option" where
  "relist_alloc ko s count new st =
    (if int count = int (sl_max (sw_slab st s)) - 1 then do {
       p \<leftarrow> ls_remove s (ca_partial (cache_of st ko));
       Some (upd_cache ko (\<lambda>c. c\<lparr>ca_partial := p, ca_full := s # ca_full c\<rparr>) st) }
     else if count = 0 then do {
       e \<leftarrow> (if new then Some (ca_empty (cache_of st ko)) else ls_remove s (ca_empty (cache_of st ko)));
       Some (upd_cache ko (\<lambda>c. c\<lparr>ca_empty := e, ca_partial := s # ca_partial c, ca_total_inuse := ca_total_inuse c + 1\<rparr>) st) }
     else Some st)"

definition allocate_from_cache :: "ptr \<Rightarrow> 'w slabs \<Rightarrow> (ptr \<times> 'w slabs) option" where
  "allocate_from_cache ko st = do {
     (new, s, st) \<leftarrow> pick_slab ko st;
     let count = sl_count (sw_slab st s);
     let st = upd_slab s (\<lambda>s. s\<lparr>sl_count := count + 1\<rparr>) st;
     st \<leftarrow> relist_alloc ko s count new st;
     (case sl_objects (sw_slab st s) of
        [] \<Rightarrow> None
      | obj # objs \<Rightarrow> do {
          let st = upd_slab s (\<lambda>s. s\<lparr>sl_objects := objs\<rparr>) st;
          let st = upd_cache ko (\<lambda>c. c\<lparr>ca_allocated_objects := ca_allocated_objects c + 1\<rparr>) st;
          kassert (obj \<noteq> NULL);
          Some (obj, st) }) }"

definition relist_free :: "ptr \<Rightarrow> ptr \<Rightarrow> nat \<Rightarrow> 'w slabs \<Rightarrow> 'w slabs option" where
  "relist_free ko s count st =
    (if count = sl_max (sw_slab st s) then do {
       f \<leftarrow> ls_remove s (ca_full (cache_of st ko));
       Some (upd_cache ko (\<lambda>c. c\<lparr>ca_full := f, ca_partial := s # ca_partial c\<rparr>) st) }
     else if count = 1 then do {
       p \<leftarrow> ls_remove s (ca_partial (cache_of st ko));
       Some (upd_cache ko (\<lambda>c. c\<lparr>ca_partial := p, ca_empty := s # ca_empty c, ca_total_inuse := ca_total_inuse c - 1\<rparr>) st) }
     else Some st)"

definition deallocate_object :: "ptr \<Rightarrow> 'w slabs \<Rightarrow> 'w slabs option" where
  "deallocate_object obj st =
    (let ko = kh_kobj (sw_hdr st obj);
         s = kh_slab (sw_hdr st obj);
         st = upd_cache ko (\<lambda>c. c\<lparr>ca_allocated_objects := ca_allocated_objects c - 1\<rparr>) st;
         st = upd_slab s (\<lambda>s. s\<lparr>sl_objects := obj # sl_objects s\<rparr>) st;
         count = sl_count (sw_slab st s);
         st = upd_slab s (\<lambda>s. s\<lparr>sl_count := count - 1\<rparr>) st
     in relist_free ko s count st)"

definition kobj_allocate :: "(ptr \<Rightarrow> 'w kobj_calls) \<Rightarrow> ptr \<Rightarrow> 'w slabs \<Rightarrow> (ptr \<times> 'w slabs) option" where
  "kobj_allocate C ko st = do {
     let st = (if ko_initialized (sw_kobj st ko) then st
       else let st = initialize_cache ko st
            in st\<lparr>sw_kobj := (sw_kobj st)(ko := (sw_kobj st ko)\<lparr>ko_initialized := True\<rparr>)\<rparr>);
     (obj, st) \<leftarrow> allocate_from_cache ko st;
     let st = upd_header obj (\<lambda>h. h\<lparr>kh_refs := 1, kh_flags := 0\<rparr>) st;
     kassert (kh_magic (sw_hdr st obj) = KOBJ_HEADER_MAGIC);
     if \<not> kh_initialized (sw_hdr st obj) then do {
       let st = upd_header obj (\<lambda>h. h\<lparr>kh_initialized := True\<rparr>) st;
       Some (obj, st\<lparr>sw_rest := kc_create (C ko) obj (sw_rest st)\<rparr>) }
     else Some (obj, st\<lparr>sw_rest := kc_init (C ko) obj (sw_rest st)\<rparr>) }"

definition slab_getref :: "ptr \<Rightarrow> 'w slabs \<Rightarrow> 'w slabs option" where
  "slab_getref obj st = do {
     kassert (kh_magic (sw_hdr st obj) = KOBJ_HEADER_MAGIC);
     kassert (kh_refs (sw_hdr st obj) \<noteq> 0);
     Some (upd_header obj (\<lambda>h. h\<lparr>kh_refs := kh_refs h + 1\<rparr>) st) }"

definition slab_putref :: "(ptr \<Rightarrow> 'w kobj_calls) \<Rightarrow> ptr \<Rightarrow> 'w slabs \<Rightarrow> (int \<times> 'w slabs) option" where
  "slab_putref C obj st = do {
     kassert (obj \<noteq> NULL);
     kassert (kh_magic (sw_hdr st obj) = KOBJ_HEADER_MAGIC);
     let count = kh_refs (sw_hdr st obj);
     let st = upd_header obj (\<lambda>h. h\<lparr>kh_refs := count - 1\<rparr>) st;
     kassert (count > 0);
     if count = 1 then do {
       st \<leftarrow> deallocate_object obj (st\<lparr>sw_rest := kc_put (C (kh_kobj (sw_hdr st obj))) obj (sw_rest st)\<rparr>);
       Some (count - 1, st) }
     else Some (count - 1, st) }"

section \<open>Invariant\<close>

definition slots :: "nat \<Rightarrow> ptr \<Rightarrow> ptr set" where
  "slots sz s = (\<lambda>i. object_at s sz i) ` {..<slab_max sz}"

definition slabs_of :: "'w slabs \<Rightarrow> ptr \<Rightarrow> ptr list" where
  "slabs_of st ko = (if ko_initialized (sw_kobj st ko)
     then ca_empty (cache_of st ko) @ ca_partial (cache_of st ko) @ ca_full (cache_of st ko) else [])"

text \<open>A slab of a cache for objects of size \<open>sz\<close>: it is a block of the buddy allocator, its free
  objects are some of its slots, and the header of every slot names the slab and the type.\<close>

definition slab_ok :: "nat \<Rightarrow> 'w slabs \<Rightarrow> ptr \<Rightarrow> ptr \<Rightarrow> bool" where
  "slab_ok sz st ko s \<longleftrightarrow>
     sl_max (sw_slab st s) = slab_max sz \<and> distinct (sl_objects (sw_slab st s)) \<and>
     set (sl_objects (sw_slab st s)) \<subseteq> slots sz s \<and>
     sl_count (sw_slab st s) + length (sl_objects (sw_slab st s)) = slab_max sz \<and>
     (\<forall>o' \<in> slots sz s. kh_kobj (sw_hdr st o') = ko \<and> kh_slab (sw_hdr st o') = s \<and> kh_magic (sw_hdr st o') = KOBJ_HEADER_MAGIC) \<and>
     (\<exists>i. s = i * bsz 6 + PHYS_MAP_START \<and> allocd (pm_buddy (sw_mm st)) (6, i))"

definition on_list :: "cache \<Rightarrow> ptr \<Rightarrow> slab \<Rightarrow> bool" where
  "on_list c s sl \<longleftrightarrow>
     (s \<in> set (ca_empty c) \<longrightarrow> sl_count sl = 0) \<and>
     (s \<in> set (ca_partial c) \<longrightarrow> 0 < sl_count sl \<and> sl_count sl < sl_max sl) \<and>
     (s \<in> set (ca_full c) \<longrightarrow> sl_count sl = sl_max sl)"

definition slab_inv :: "(ptr \<Rightarrow> nat) \<Rightarrow> 'w slabs \<Rightarrow> bool" where
  "slab_inv sz st \<longleftrightarrow> \<not> pm_early (sw_mm st) \<and> bd_inv (pm_buddy (sw_mm st)) \<and>
     (\<forall>ko. ko_size (sw_kobj st ko) = sz ko \<and> 0 < sz ko \<and> 2 \<le> slab_max (sz ko) \<and> slab_max (sz ko) < 2 ^ 63) \<and>
     (\<forall>ko. distinct (slabs_of st ko)) \<and>
     (\<forall>ko s. s \<in> set (slabs_of st ko) \<longrightarrow> slab_ok (sz ko) st ko s \<and> on_list (cache_of st ko) s (sw_slab st s))"

text \<open>The objects in use.\<close>

definition in_use :: "(ptr \<Rightarrow> nat) \<Rightarrow> 'w slabs \<Rightarrow> ptr \<times> ptr \<Rightarrow> bool" where
  "in_use sz st b \<longleftrightarrow> (\<exists>s \<in> set (slabs_of st (fst b)). snd b \<in> slots (sz (fst b)) s \<and> snd b \<notin> set (sl_objects (sw_slab st s)))"

lemma upd_simps [simp]:
  "sw_kobj (upd_slab s f st) = sw_kobj st" "sw_slab (upd_slab s f st) = (sw_slab st)(s := f (sw_slab st s))"
  "sw_hdr (upd_slab s f st) = sw_hdr st" "sw_mm (upd_slab s f st) = sw_mm st"
  "sw_rest (upd_slab s f st) = sw_rest st"
  "sw_kobj (upd_cache ko g st) = (sw_kobj st)(ko := (sw_kobj st ko)\<lparr>ko_cache := g (ko_cache (sw_kobj st ko))\<rparr>)"
  "sw_slab (upd_cache ko g st) = sw_slab st" "sw_hdr (upd_cache ko g st) = sw_hdr st"
  "sw_mm (upd_cache ko g st) = sw_mm st" "sw_rest (upd_cache ko g st) = sw_rest st"
  "sw_kobj (upd_header o' h st) = sw_kobj st" "sw_slab (upd_header o' h st) = sw_slab st"
  "sw_hdr (upd_header o' h st) = (sw_hdr st)(o' := h (sw_hdr st o'))" "sw_mm (upd_header o' h st) = sw_mm st"
  "sw_rest (upd_header o' h st) = sw_rest st"
  by (simp_all add: upd_slab_def upd_cache_def upd_header_def)

lemma slab_invD:
  assumes "slab_inv sz st"
  shows "\<not> pm_early (sw_mm st)" "bd_inv (pm_buddy (sw_mm st))" "ko_size (sw_kobj st ko) = sz ko" "0 < sz ko"
    "2 \<le> slab_max (sz ko)" "slab_max (sz ko) < 2 ^ 63" "distinct (slabs_of st ko)"
    "s \<in> set (slabs_of st ko) \<Longrightarrow> slab_ok (sz ko) st ko s"
    "s \<in> set (slabs_of st ko) \<Longrightarrow> on_list (cache_of st ko) s (sw_slab st s)"
  using assms unfolding slab_inv_def by blast+

lemma slab_okD:
  assumes "slab_ok sz st ko s"
  shows "sl_max (sw_slab st s) = slab_max sz" "distinct (sl_objects (sw_slab st s))"
    "set (sl_objects (sw_slab st s)) \<subseteq> slots sz s"
    "sl_count (sw_slab st s) + length (sl_objects (sw_slab st s)) = slab_max sz"
    "o' \<in> slots sz s \<Longrightarrow> kh_kobj (sw_hdr st o') = ko \<and> kh_slab (sw_hdr st o') = s \<and> kh_magic (sw_hdr st o') = KOBJ_HEADER_MAGIC"
    "\<exists>i. s = i * bsz 6 + PHYS_MAP_START \<and> allocd (pm_buddy (sw_mm st)) (6, i)"
  using assms unfolding slab_ok_def by blast+

text \<open>The objects of a slab lie one after the other inside it.\<close>

lemma slots_inside:
  assumes "o' \<in> slots sz s" "slab_max sz < 2 ^ 63"
  shows "s < o'" "o' + sz \<le> s + SLAB_SIZE"
proof -
  obtain i where i: "i < slab_max sz" "o' = object_at s sz i" using assms(1) by (auto simp: slots_def)
  let ?r = "SLAB_SIZE - slabstruct_size"
  have q: "slab_max sz = ?r div sz - 1" using assms(2) by (auto simp: slab_max_def Let_def split: if_splits)
  have "(i + 1) * sz \<le> ?r div sz * sz" using i(1) q by (intro mult_le_mono1) simp
  also have "\<dots> \<le> ?r" by simp
  finally show "o' + sz \<le> s + SLAB_SIZE" "s < o'"
    using i(2) by (simp_all add: object_at_def slabstruct_size_def sizeof_slab_def SLAB_SIZE_def)
qed

lemma slots_apart:
  assumes "o' \<in> slots sz s" "p \<in> slots sz s" "o' \<noteq> p"
  shows "{o'..<o' + sz} \<inter> {p..<p + sz} = {}"
proof -
  obtain i j where i: "o' = object_at s sz i" "p = object_at s sz j" using assms by (auto simp: slots_def)
  then have "i \<noteq> j" using assms(3) by auto
  then consider "(i + 1) * sz \<le> j * sz" | "(j + 1) * sz \<le> i * sz" by (metis Suc_eq_plus1 linorder_neqE_nat mult_le_mono1 Suc_leI)
  then show ?thesis by cases (auto simp: i object_at_def)
qed

lemma slab_slot_unique:
  assumes "slab_inv sz st" "s \<in> set (slabs_of st ko)" "t \<in> set (slabs_of st ko')" "o' \<in> slots (sz ko) s" "o' \<in> slots (sz ko') t"
  shows "ko' = ko" "t = s"
  using slab_okD(5) [OF slab_invD(8) [OF assms(1,2)] assms(4)] slab_okD(5) [OF slab_invD(8) [OF assms(1,3)] assms(5)] by auto

lemma first_slot: "2 \<le> slab_max sz \<Longrightarrow> s + slabstruct_size \<in> slots sz s"
  unfolding slots_def by (rule image_eqI [of _ _ 0]) (simp_all add: object_at_def)

lemma in_use_slot:
  assumes "slab_inv sz st" "s \<in> set (slabs_of st ko)" "o' \<in> slots (sz ko) s"
  shows "in_use sz st (ko, o') \<longleftrightarrow> o' \<notin> set (sl_objects (sw_slab st s))"
proof
  assume "in_use sz st (ko, o')"
  then obtain t where "t \<in> set (slabs_of st ko)" "o' \<in> slots (sz ko) t" "o' \<notin> set (sl_objects (sw_slab st t))"
    by (auto simp: in_use_def)
  then show "o' \<notin> set (sl_objects (sw_slab st s))" using slab_slot_unique(2) [OF assms(1,2) _ assms(3)] by blast
next
  assume "o' \<notin> set (sl_objects (sw_slab st s))"
  then show "in_use sz st (ko, o')" unfolding in_use_def fst_conv snd_conv using assms(2,3) by blast
qed

text \<open>One slab of one cache changes.\<close>

lemma slab_step:
  assumes inv: "slab_inv sz st" and s: "s \<in> set (slabs_of st ko)"
    and st': "sw_kobj st' = (sw_kobj st)(ko := (sw_kobj st ko)\<lparr>ko_cache := c\<rparr>)" "sw_slab st' = (sw_slab st)(s := sl)"
      "sw_hdr st' = sw_hdr st" "sw_mm st' = sw_mm st"
    and c: "distinct (ca_empty c @ ca_partial c @ ca_full c)" "set (ca_empty c @ ca_partial c @ ca_full c) = set (slabs_of st ko)"
      "\<And>t. t \<noteq> s \<Longrightarrow> (t \<in> set (ca_empty c) \<longleftrightarrow> t \<in> set (ca_empty (cache_of st ko))) \<and>
        (t \<in> set (ca_partial c) \<longleftrightarrow> t \<in> set (ca_partial (cache_of st ko))) \<and> (t \<in> set (ca_full c) \<longleftrightarrow> t \<in> set (ca_full (cache_of st ko)))"
    and sl: "on_list c s sl" "sl_max sl = slab_max (sz ko)" "distinct (sl_objects sl)" "set (sl_objects sl) \<subseteq> slots (sz ko) s"
      "sl_count sl + length (sl_objects sl) = slab_max (sz ko)"
  shows "slab_inv sz st'"
    "in_use sz st' (ko', o') \<longleftrightarrow> (if ko' = ko \<and> o' \<in> slots (sz ko) s then o' \<notin> set (sl_objects sl) else in_use sz st (ko', o'))"
proof -
  have init: "ko_initialized (sw_kobj st ko)" using s by (auto simp: slabs_of_def split: if_splits)
  have so: "set (slabs_of st' k) = set (slabs_of st k)" for k using c(2) init by (auto simp: slabs_of_def st'(1))
  have dist: "distinct (slabs_of st' k)" for k
    using c(1) init slab_invD(7) [OF inv, of k] by (auto simp: slabs_of_def st'(1))
  have other: "t \<noteq> s" if "t \<in> set (slabs_of st k)" "k \<noteq> ko" for t k
  proof
    assume "t = s"
    then show False
      using slab_slot_unique(1) [OF inv s that(1), of "s + slabstruct_size"] first_slot slab_invD(5) [OF inv] that(2) by auto
  qed
  have ok: "slab_ok (sz k) st' k t \<and> on_list (cache_of st' k) t (sw_slab st' t)" if t: "t \<in> set (slabs_of st k)" for k t
  proof (cases "t = s")
    case True
    then have k: "k = ko" using other t by blast
    show ?thesis using slab_invD(8) [OF inv s] sl unfolding True k slab_ok_def st' by simp
  next
    case False
    have "slab_ok (sz k) st' k t" using slab_invD(8) [OF inv t] False unfolding slab_ok_def st' by simp
    moreover have "on_list (cache_of st' k) t (sw_slab st' t)"
      using slab_invD(9) [OF inv t] False c(3) [OF False] by (cases "k = ko") (simp_all add: on_list_def st')
    ultimately show ?thesis by blast
  qed
  show inv': "slab_inv sz st'" unfolding slab_inv_def
  proof (intro conjI allI impI)
    show "\<not> pm_early (sw_mm st')" "bd_inv (pm_buddy (sw_mm st'))" using slab_invD(1,2) [OF inv] by (simp_all add: st')
    show "ko_size (sw_kobj st' k) = sz k" "0 < sz k" "2 \<le> slab_max (sz k)" "slab_max (sz k) < 2 ^ 63" for k
      using slab_invD(3-6) [OF inv, of k] by (auto simp: st')
    show "distinct (slabs_of st' k)" for k by (rule dist)
    show "slab_ok (sz k) st' k t" "on_list (cache_of st' k) t (sw_slab st' t)" if "t \<in> set (slabs_of st' k)" for k t
      using ok that unfolding so by blast+
  qed
  show "in_use sz st' (ko', o') \<longleftrightarrow> (if ko' = ko \<and> o' \<in> slots (sz ko) s then o' \<notin> set (sl_objects sl) else in_use sz st (ko', o'))"
  proof (cases "ko' = ko \<and> o' \<in> slots (sz ko) s")
    case True
    have "s \<in> set (slabs_of st' ko)" using s so by simp
    from in_use_slot [OF inv' this] True show ?thesis by (simp add: st'(2))
  next
    case False
    then have "t \<noteq> s" if "t \<in> set (slabs_of st ko')" "o' \<in> slots (sz ko') t" for t using other that by blast
    then have "sw_slab st' t = sw_slab st t" if "t \<in> set (slabs_of st ko')" "o' \<in> slots (sz ko') t" for t using that by (simp add: st'(2))
    then show ?thesis using False unfolding in_use_def so fst_conv snd_conv by metis
  qed
qed

text \<open>Taking an object from a listed slab with room.\<close>

lemma relist_alloc_ok:
  assumes inv: "slab_inv sz st" and s: "s \<in> set (slabs_of st ko)" and room: "sl_count (sw_slab st s) < slab_max (sz ko)"
    and st1: "st1 = upd_slab s (\<lambda>s. s\<lparr>sl_count := n\<rparr>) st"
  shows "\<exists>c. relist_alloc ko s (sl_count (sw_slab st s)) False st1 = Some (upd_cache ko (\<lambda>_. c) st1) \<and>
    distinct (ca_empty c @ ca_partial c @ ca_full c) \<and> set (ca_empty c @ ca_partial c @ ca_full c) = set (slabs_of st ko) \<and>
    (\<forall>t. t \<noteq> s \<longrightarrow> (t \<in> set (ca_empty c) \<longleftrightarrow> t \<in> set (ca_empty (cache_of st ko))) \<and>
        (t \<in> set (ca_partial c) \<longleftrightarrow> t \<in> set (ca_partial (cache_of st ko))) \<and> (t \<in> set (ca_full c) \<longleftrightarrow> t \<in> set (ca_full (cache_of st ko)))) \<and>
    (\<forall>sl. sl_count sl = sl_count (sw_slab st s) + 1 \<longrightarrow> sl_max sl = slab_max (sz ko) \<longrightarrow> on_list c s sl)"
proof -
  have init: "ko_initialized (sw_kobj st ko)" using s by (auto simp: slabs_of_def split: if_splits)
  note so = slabs_of_def [of st ko] 
  have d: "distinct (ca_empty (cache_of st ko) @ ca_partial (cache_of st ko) @ ca_full (cache_of st ko))"
    using slab_invD(7) [OF inv, of ko] init by (simp add: so)
  have mx: "sl_max (sw_slab st s) = slab_max (sz ko)" by (rule slab_okD(1) [OF slab_invD(8) [OF inv s]])
  have ol: "on_list (cache_of st ko) s (sw_slab st s)" by (rule slab_invD(9) [OF inv s])
  have l: "s \<in> set (ca_empty (cache_of st ko)) \<union> set (ca_partial (cache_of st ko)) \<union> set (ca_full (cache_of st ko))"
    using s init by (auto simp: so)
  have nf: "s \<notin> set (ca_full (cache_of st ko))" using ol room mx by (auto simp: on_list_def)
  consider "int (sl_count (sw_slab st s)) = int (slab_max (sz ko)) - 1" | "sl_count (sw_slab st s) = 0" "slab_max (sz ko) \<noteq> 1"
    | "sl_count (sw_slab st s) \<noteq> 0" "sl_count (sw_slab st s) + 1 < slab_max (sz ko)" using room by linarith
  then show ?thesis
  proof cases
    case 1
    then have p: "s \<in> set (ca_partial (cache_of st ko))" using l nf ol slab_invD(5) [OF inv, of ko] by (auto simp: on_list_def)
    let ?c = "(cache_of st ko)\<lparr>ca_partial := remove1 s (ca_partial (cache_of st ko)), ca_full := s # ca_full (cache_of st ko)\<rparr>"
    have "relist_alloc ko s (sl_count (sw_slab st s)) False st1 = Some (upd_cache ko (\<lambda>_. ?c) st1)"
      using 1 p mx by (simp add: relist_alloc_def st1 upd_cache_def upd_slab_def)
    moreover have "on_list ?c s sl" if "sl_count sl = sl_count (sw_slab st s) + 1" "sl_max sl = slab_max (sz ko)" for sl
      using that 1 d p ol by (auto simp: on_list_def)
    ultimately show ?thesis using d p init by (intro exI [of _ ?c]) (auto simp: so)
  next
    case 2
    then have e: "s \<in> set (ca_empty (cache_of st ko))" using l nf ol by (auto simp: on_list_def)
    let ?c = "(cache_of st ko)\<lparr>ca_empty := remove1 s (ca_empty (cache_of st ko)), ca_partial := s # ca_partial (cache_of st ko),
      ca_total_inuse := ca_total_inuse (cache_of st ko) + 1\<rparr>"
    have "relist_alloc ko s (sl_count (sw_slab st s)) False st1 = Some (upd_cache ko (\<lambda>_. ?c) st1)"
      using 2 e mx by (simp add: relist_alloc_def st1 upd_cache_def upd_slab_def)
    moreover have "on_list ?c s sl" if "sl_count sl = sl_count (sw_slab st s) + 1" "sl_max sl = slab_max (sz ko)" for sl
      using that 2 d e room nf slab_invD(5) [OF inv, of ko] by (auto simp: on_list_def)
    ultimately show ?thesis using d e init by (intro exI [of _ ?c]) (auto simp: so)
  next
    case 3
    have "relist_alloc ko s (sl_count (sw_slab st s)) False st1 = Some st1"
      using 3 mx by (simp add: relist_alloc_def st1)
    moreover have "st1 = upd_cache ko (\<lambda>_. cache_of st ko) st1" by (simp add: upd_cache_def st1 upd_slab_def)
    moreover have "on_list (cache_of st ko) s sl" if "sl_count sl = sl_count (sw_slab st s) + 1" "sl_max sl = slab_max (sz ko)" for sl
      using that 3 ol nf by (auto simp: on_list_def)
    ultimately show ?thesis using d init by (intro exI [of _ "cache_of st ko"]) (auto simp: so)
  qed
qed

lemma take_ok:
  assumes inv: "slab_inv sz st" and s: "s \<in> set (slabs_of st ko)" and room: "sl_count (sw_slab st s) < slab_max (sz ko)"
    and pick: "pick_slab ko st = Some (False, s, st)"
  shows "\<exists>o' st'. allocate_from_cache ko st = Some (o', st') \<and> slab_inv sz st' \<and> \<not> in_use sz st (ko, o') \<and>
    (\<forall>b. in_use sz st' b \<longleftrightarrow> in_use sz st b \<or> b = (ko, o')) \<and> sw_hdr st' = sw_hdr st \<and> sw_rest st' = sw_rest st"
proof -
  let ?n = "sl_count (sw_slab st s)" and ?st1 = "upd_slab s (\<lambda>s'. s'\<lparr>sl_count := sl_count (sw_slab st s) + 1\<rparr>) st"
  note ok = slab_okD [OF slab_invD(8) [OF inv s]]
  obtain c where c: "relist_alloc ko s ?n False ?st1 = Some (upd_cache ko (\<lambda>_. c) ?st1)"
    "distinct (ca_empty c @ ca_partial c @ ca_full c)" "set (ca_empty c @ ca_partial c @ ca_full c) = set (slabs_of st ko)"
    "\<And>t. t \<noteq> s \<Longrightarrow> (t \<in> set (ca_empty c) \<longleftrightarrow> t \<in> set (ca_empty (cache_of st ko))) \<and>
        (t \<in> set (ca_partial c) \<longleftrightarrow> t \<in> set (ca_partial (cache_of st ko))) \<and> (t \<in> set (ca_full c) \<longleftrightarrow> t \<in> set (ca_full (cache_of st ko)))"
    "\<And>sl. sl_count sl = ?n + 1 \<Longrightarrow> sl_max sl = slab_max (sz ko) \<Longrightarrow> on_list c s sl"
    using relist_alloc_ok [OF inv s room refl] by blast
  obtain o' os where os: "sl_objects (sw_slab st s) = o' # os" using ok(4) room by (cases "sl_objects (sw_slab st s)") auto
  have slot: "o' \<in> slots (sz ko) s" using ok(3) os by simp
  then have nn: "o' \<noteq> NULL" using slots_inside(1) [OF slot slab_invD(6) [OF inv]] by simp
  let ?sl = "(sw_slab st s)\<lparr>sl_count := ?n + 1, sl_objects := os\<rparr>"
  let ?c = "c\<lparr>ca_allocated_objects := ca_allocated_objects c + 1\<rparr>"
  let ?st' = "upd_cache ko (\<lambda>c. c\<lparr>ca_allocated_objects := ca_allocated_objects c + 1\<rparr>)
    (upd_slab s (\<lambda>s. s\<lparr>sl_objects := os\<rparr>) (upd_cache ko (\<lambda>_. c) ?st1))"
  have run: "allocate_from_cache ko st = Some (o', ?st')"
    using pick c(1) os nn by (simp add: allocate_from_cache_def Let_def)
  have f: "sw_kobj ?st' = (sw_kobj st)(ko := (sw_kobj st ko)\<lparr>ko_cache := ?c\<rparr>)" "sw_slab ?st' = (sw_slab st)(s := ?sl)"
    "sw_hdr ?st' = sw_hdr st" "sw_mm ?st' = sw_mm st" by simp_all
  have d: "distinct (ca_empty ?c @ ca_partial ?c @ ca_full ?c)" "set (ca_empty ?c @ ca_partial ?c @ ca_full ?c) = set (slabs_of st ko)"
    using c(2,3) by simp_all
  have t: "(t \<in> set (ca_empty ?c) \<longleftrightarrow> t \<in> set (ca_empty (cache_of st ko))) \<and>
        (t \<in> set (ca_partial ?c) \<longleftrightarrow> t \<in> set (ca_partial (cache_of st ko))) \<and> (t \<in> set (ca_full ?c) \<longleftrightarrow> t \<in> set (ca_full (cache_of st ko)))"
    if "t \<noteq> s" for t using c(4) [OF that] by simp
  have o: "on_list ?c s ?sl" using c(5) [of ?sl] ok(1) by (simp add: on_list_def)
  have sl: "sl_max ?sl = slab_max (sz ko)" "distinct (sl_objects ?sl)" "set (sl_objects ?sl) \<subseteq> slots (sz ko) s"
      "sl_count ?sl + length (sl_objects ?sl) = slab_max (sz ko)" using ok(1-4) os by simp_all
  note step = slab_step [OF inv s f d t o sl]
  have mine: "in_use sz st (ko, q) \<longleftrightarrow> q \<notin> set (o' # os)" if "q \<in> slots (sz ko) s" for q
    using in_use_slot [OF inv s that] os by simp
  have "in_use sz ?st' b \<longleftrightarrow> in_use sz st b \<or> b = (ko, o')" for b
  proof (cases b)
    case (Pair k q)
    have "o' \<notin> set os" using ok(2) os by simp
    moreover have "in_use sz ?st' (k, q) \<longleftrightarrow> (if k = ko \<and> q \<in> slots (sz ko) s then q \<notin> set (sl_objects ?sl) else in_use sz st (k, q))"
      by (rule step(2))
    ultimately show ?thesis unfolding Pair using mine [of q] slot by (cases "k = ko \<and> q \<in> slots (sz ko) s") auto
  qed
  then show ?thesis using run step(1) mine [OF slot] by auto
qed

text \<open>A new slab.\<close>

lemma push_objects_fields:
  "sw_kobj (push_objects ko s sz i n st) = sw_kobj st \<and> sw_mm (push_objects ko s sz i n st) = sw_mm st \<and>
   sw_rest (push_objects ko s sz i n st) = sw_rest st \<and>
   sw_slab (push_objects ko s sz i n st) = (sw_slab st)(s := (sw_slab st s)\<lparr>sl_objects := rev (map (object_at s sz) [i..<i + n]) @ sl_objects (sw_slab st s)\<rparr>) \<and>
   sw_hdr (push_objects ko s sz i n st) = (\<lambda>a. if a \<in> object_at s sz ` {i..<i + n}
     then (sw_hdr st a)\<lparr>kh_kobj := ko, kh_slab := s, kh_magic := KOBJ_HEADER_MAGIC\<rparr> else sw_hdr st a)"
proof (induction n arbitrary: i st)
  case (Suc n)
  have u: "[i..<i + Suc n] = i # [Suc i..<Suc i + n]" by (simp add: upt_conv_Cons)
  have "{i..<i + Suc n} = insert i {Suc i..<Suc i + n}" by auto
  then show ?case unfolding u by (auto simp: Suc.IH Let_def fun_eq_iff)
qed (simp add: fun_eq_iff)

lemma slab_block:
  assumes "bd_inv (pm_buddy mm)" "\<not> pm_early mm" "has_free (pm_buddy mm) 6"
  shows "\<exists>i mm'. mm_virtual_allocate SLAB_SIZE True mm = Some (i * bsz 6 + PHYS_MAP_START, mm') \<and> \<not> pm_early mm' \<and>
    bd_inv (pm_buddy mm') \<and> (\<forall>c. allocd (pm_buddy mm) c \<longrightarrow> extent (6, i) \<inter> extent c = {}) \<and>
    (\<forall>c. allocd (pm_buddy mm') c \<longleftrightarrow> allocd (pm_buddy mm) c \<or> c = (6, i))"
proof -
  obtain b s' where b: "alloc_block 6 (pm_buddy mm) = Some (b, s')" "bd_inv s'"
    "\<forall>c. allocd (pm_buddy mm) c \<longrightarrow> extent b \<inter> extent c = {}" "\<forall>c. allocd s' c \<longleftrightarrow> allocd (pm_buddy mm) c \<or> c = b"
    using ba.alloc_apart [OF assms(1), of 6] assms(3) by auto
  obtain i t where t: "do_pmm_buddy_allocate (bsz 6) (pm_buddy mm) = Some (i * bsz 6, t)"
    using alloc_ok [OF assms(1), of 6] assms(3) by (auto simp: has_free_def)
  then have p: "pmm_buddy_allocate (bsz 6) (pm_buddy mm) = Some (i * bsz 6, s')" "b = (6, i)"
    using b(1) by (auto simp: alloc_block_def pmm_buddy_allocate_def)
  have "valid 6 i" using b(4) p(2) allocd_valid by blast
  then have "i * bsz 6 < MEMORY_SIZE" by (rule addr_range)
  then have u: "unat (of_nat (i * bsz 6) :: u64) = i * bsz 6"
    by (intro unat_of_nat64) (simp add: MEMORY_SIZE_def MAX_SIZE_def MIN_SIZE_def MAX_ORDER_def)
  have z: "unat (of_nat SLAB_SIZE :: u64) = bsz 6" by (simp add: SLAB_SIZE_def bsz_def MIN_SIZE_def)
  have "mm_virtual_allocate SLAB_SIZE True mm = Some (i * bsz 6 + PHYS_MAP_START,
      mm\<lparr>pm_buddy := s', pm_words := clear_words (of_nat (i * bsz 6)) (of_nat SLAB_SIZE) (pm_words mm)\<rparr>)"
    unfolding mm_virtual_allocate_def mm_physical_allocate_def using assms(2) z u p(1) by simp
  then show ?thesis using assms(2) b(2-4) unfolding p(2) by auto
qed

lemma create_ok:
  assumes inv: "slab_inv sz st" and init: "ko_initialized (sw_kobj st ko)" and room: "has_free (pm_buddy (sw_mm st)) 6"
    and st2: "\<And>s st1. st2 s st1 = upd_cache ko (\<lambda>c. c\<lparr>ca_empty := s # ca_empty c, ca_total_slabs := ca_total_slabs c + 1\<rparr>) st1"
  shows "\<exists>s st1. create_new_slab ko st = Some (s, st1) \<and> slab_inv sz (st2 s st1) \<and> (\<forall>b. in_use sz (st2 s st1) b \<longleftrightarrow> in_use sz st b) \<and>
    sw_kobj st1 = sw_kobj st \<and> sw_rest st1 = sw_rest st \<and> sl_count (sw_slab st1 s) = 0 \<and> sl_max (sw_slab st1 s) = slab_max (sz ko) \<and>
    (\<forall>k q. in_use sz st (k, q) \<longrightarrow> sw_hdr st1 q = sw_hdr st q)"
proof -
  note d = slab_invD [OF inv]
  obtain i mm where mm: "mm_virtual_allocate SLAB_SIZE True (sw_mm st) = Some (i * bsz 6 + PHYS_MAP_START, mm)" "\<not> pm_early mm"
    "bd_inv (pm_buddy mm)" "\<forall>c. allocd (pm_buddy (sw_mm st)) c \<longrightarrow> extent (6, i) \<inter> extent c = {}"
    "\<forall>c. allocd (pm_buddy mm) c \<longleftrightarrow> allocd (pm_buddy (sw_mm st)) c \<or> c = (6, i)"
    using slab_block [OF d(2,1) room] by blast
  define s where "s = i * bsz 6 + PHYS_MAP_START"
  define st1 where "st1 = push_objects ko s (sz ko) 0 (slab_max (sz ko)) (upd_slab s (\<lambda>x. x\<lparr>sl_count := 0, sl_max := slab_max (sz ko), sl_objects := []\<rparr>)
    (clear_headers s (st\<lparr>sw_mm := mm\<rparr>)))"
  have run: "create_new_slab ko st = Some (s, st1)"
    using mm(1) d(3) [of ko] by (simp add: create_new_slab_def s_def st1_def clear_headers_def Let_def)
  have f: "sw_kobj st1 = sw_kobj st" "sw_mm st1 = mm" "sw_rest st1 = sw_rest st"
    "sw_slab st1 = (sw_slab st)(s := (sw_slab st s)\<lparr>sl_count := 0, sl_max := slab_max (sz ko), sl_objects := rev (map (object_at s (sz ko)) [0..<slab_max (sz ko)])\<rparr>)"
    unfolding st1_def by (simp_all add: push_objects_fields clear_headers_def)
  have ss: "object_at s (sz ko) ` {0..<slab_max (sz ko)} = slots (sz ko) s" by (simp add: slots_def atLeast0LessThan)
  have h: "sw_hdr st1 a = sw_hdr st a" if "a \<notin> {s..<s + SLAB_SIZE}" for a
  proof -
    have "a \<notin> slots (sz ko) s" using slots_inside [OF _ d(6)] d(4) [of ko] that by fastforce
    then show ?thesis using that unfolding st1_def by (auto simp: push_objects_fields ss clear_headers_def)
  qed
  have h': "kh_kobj (sw_hdr st1 a) = ko \<and> kh_slab (sw_hdr st1 a) = s \<and> kh_magic (sw_hdr st1 a) = KOBJ_HEADER_MAGIC"
    if "a \<in> slots (sz ko) s" for a using that unfolding st1_def by (simp add: push_objects_fields ss)
  have far: "q \<notin> {s..<s + SLAB_SIZE}" "t \<noteq> s" if t: "t \<in> set (slabs_of st k)" "q \<in> slots (sz k) t" for t k q
  proof -
    obtain j where j: "t = j * bsz 6 + PHYS_MAP_START" "allocd (pm_buddy (sw_mm st)) (6, j)" using slab_okD(6) [OF d(8) [OF t(1)]] by blast
    have z: "SLAB_SIZE = bsz 6" by (simp add: SLAB_SIZE_def bsz_def MIN_SIZE_def)
    have e: "extent (6, i) \<inter> extent (6, j) = {}" using mm(4) j(2) by blast
    have "t < q" "q < t + bsz 6" using slots_inside [OF t(2) d(6)] d(4) [of k] z by simp_all
    then have q: "q - PHYS_MAP_START \<in> extent (6, j)" "PHYS_MAP_START \<le> q" unfolding extent_def j(1) by auto
    then have "q - PHYS_MAP_START \<notin> extent (6, i)" using e by blast
    then show *: "q \<notin> {s..<s + SLAB_SIZE}" using q(2) unfolding extent_def s_def z by auto
    then show "t \<noteq> s" using \<open>t < q\<close> \<open>q < t + bsz 6\<close> z by auto
  qed
  have so: "slabs_of (st2 s st1) k = (if k = ko then s # slabs_of st ko else slabs_of st k)" for k
    using init by (simp add: slabs_of_def st2 f)
  have new: "s \<notin> set (slabs_of st k)" for k using far(2) first_slot d(5) by metis
  have slab: "sw_slab (st2 s st1) t = sw_slab st t" if "t \<in> set (slabs_of st k)" for t k using new that by (auto simp: st2 f)
  have ne: "slab_ok (sz ko) (st2 s st1) ko s" unfolding slab_ok_def
    using mm(5) h' d(4) [of ko] by (auto simp: st2 f s_def slots_def distinct_map inj_on_def object_at_def atLeast0LessThan)
  have old: "slab_ok (sz k) (st2 s st1) k t" if t: "t \<in> set (slabs_of st k)" for t k
    using d(8) [OF t] slab [OF t] h [OF far(1) [OF t]] mm(5) unfolding slab_ok_def by (auto simp: st2 f)
  have "slab_inv sz (st2 s st1)" unfolding slab_inv_def
  proof (intro conjI allI impI)
    show "\<not> pm_early (sw_mm (st2 s st1))" "bd_inv (pm_buddy (sw_mm (st2 s st1)))" using mm(2,3) by (simp_all add: st2 f)
    show "ko_size (sw_kobj (st2 s st1) k) = sz k" "0 < sz k" "2 \<le> slab_max (sz k)" "slab_max (sz k) < 2 ^ 63" for k
      using d(3-6) [of k] d(3) [of ko] by (auto simp: st2 f)
    show "distinct (slabs_of (st2 s st1) k)" for k using d(7) new so by simp
    fix k t assume "t \<in> set (slabs_of (st2 s st1) k)"
    then consider "t = s" "k = ko" | "t \<in> set (slabs_of st k)" "t \<noteq> s" using so new by (auto split: if_splits)
    then have "slab_ok (sz k) (st2 s st1) k t \<and> on_list (cache_of (st2 s st1) k) t (sw_slab (st2 s st1) t)"
    proof cases
      case 1
      have "on_list (cache_of (st2 s st1) ko) s (sw_slab (st2 s st1) s)"
        using new [of ko] init by (simp add: on_list_def st2 f slabs_of_def)
      then show ?thesis using 1 ne by simp
    next
      case 2
      then show ?thesis using old d(9) [of t k] by (auto simp: on_list_def st2 f)
    qed
    then show "slab_ok (sz k) (st2 s st1) k t" "on_list (cache_of (st2 s st1) k) t (sw_slab (st2 s st1) t)" by blast+
  qed
  moreover have "in_use sz (st2 s st1) b \<longleftrightarrow> in_use sz st b" for b
  proof -
    have "sl_objects (sw_slab (st2 s st1) s) = rev (map (object_at s (sz ko)) [0..<slab_max (sz ko)])" by (simp add: st2 f)
    then have "slots (sz ko) s \<subseteq> set (sl_objects (sw_slab (st2 s st1) s))" by (auto simp: slots_def)
    then show ?thesis unfolding in_use_def so using slab by (auto split: if_splits)
  qed
  moreover have "sw_hdr st1 q = sw_hdr st q" if "in_use sz st (k, q)" for k q
    using that far(1) h unfolding in_use_def fst_conv snd_conv by blast
  ultimately show ?thesis using run f by (intro exI [of _ s] exI [of _ st1]) auto
qed

text \<open>Allocation needs a slab with room, or memory for one.\<close>

definition enough :: "'w slabs \<Rightarrow> ptr \<Rightarrow> bool" where
  "enough st ko \<longleftrightarrow> ko_initialized (sw_kobj st ko) \<and>
     (ca_partial (cache_of st ko) \<noteq> [] \<or> ca_empty (cache_of st ko) \<noteq> [] \<or> has_free (pm_buddy (sw_mm st)) 6)"

lemma alloc_object_ok:
  assumes inv: "slab_inv sz st" and e: "enough st ko"
  shows "\<exists>o' st'. allocate_from_cache ko st = Some (o', st') \<and> slab_inv sz st' \<and> \<not> in_use sz st (ko, o') \<and>
    (\<forall>b. in_use sz st' b \<longleftrightarrow> in_use sz st b \<or> b = (ko, o')) \<and> sw_rest st' = sw_rest st \<and>
    (\<forall>k q. in_use sz st (k, q) \<longrightarrow> sw_hdr st' q = sw_hdr st q)"
proof -
  have init: "ko_initialized (sw_kobj st ko)" using e by (simp add: enough_def)
  note so = slabs_of_def [of st ko]
  have listed: ?thesis if "pick_slab ko st = Some (False, s, st)" "s \<in> set (ca_partial (cache_of st ko)) \<union> set (ca_empty (cache_of st ko))" for s
  proof -
    have s: "s \<in> set (slabs_of st ko)" using that(2) init by (auto simp: so)
    have "sl_count (sw_slab st s) < slab_max (sz ko)"
      using slab_invD(9) [OF inv s] slab_okD(1) [OF slab_invD(8) [OF inv s]] that(2) slab_invD(5) [OF inv, of ko] by (auto simp: on_list_def)
    from take_ok [OF inv s this that(1)] show ?thesis by auto
  qed
  consider s ss where "ca_partial (cache_of st ko) = s # ss" | s ss where "ca_partial (cache_of st ko) = []" "ca_empty (cache_of st ko) = s # ss"
    | "ca_partial (cache_of st ko) = []" "ca_empty (cache_of st ko) = []" by (metis list.exhaust)
  then show ?thesis
  proof cases
    case (1 s ss)
    then show ?thesis by (intro listed [of s]) (simp_all add: pick_slab_def)
  next
    case (2 s ss)
    then show ?thesis by (intro listed [of s]) (simp_all add: pick_slab_def)
  next
    case 3
    then have room: "has_free (pm_buddy (sw_mm st)) 6" using e by (simp add: enough_def)
    let ?st2 = "\<lambda>s. upd_cache ko (\<lambda>c. c\<lparr>ca_empty := s # ca_empty c, ca_total_slabs := ca_total_slabs c + 1\<rparr>)"
    obtain s st1 where c: "create_new_slab ko st = Some (s, st1)" "slab_inv sz (?st2 s st1)" "\<forall>b. in_use sz (?st2 s st1) b \<longleftrightarrow> in_use sz st b"
      "sw_kobj st1 = sw_kobj st" "sw_rest st1 = sw_rest st" "sl_count (sw_slab st1 s) = 0" "sl_max (sw_slab st1 s) = slab_max (sz ko)"
      "\<forall>k q. in_use sz st (k, q) \<longrightarrow> sw_hdr st1 q = sw_hdr st q"
      using create_ok [OF inv init room refl] by blast
    have mx: "2 \<le> slab_max (sz ko)" by (rule slab_invD(5) [OF inv])
    have p2: "pick_slab ko (?st2 s st1) = Some (False, s, ?st2 s st1)" using 3 c(4) by (simp add: pick_slab_def)
    have "allocate_from_cache ko st = allocate_from_cache ko (?st2 s st1)"
      using 3 c(1,4,6,7) mx
      by (simp add: allocate_from_cache_def p2 pick_slab_def relist_alloc_def Let_def upd_cache_def upd_slab_def fun_upd_twist split: list.splits)
    moreover have "s \<in> set (slabs_of (?st2 s st1) ko)" using init c(4) by (simp add: slabs_of_def)
    moreover have "sl_count (sw_slab (?st2 s st1) s) < slab_max (sz ko)" using c(6) mx by simp
    ultimately show ?thesis using take_ok [OF c(2) _ _ p2] c(3,5,8) by auto
  qed
qed

lemma relist_free_ok:
  assumes inv: "slab_inv sz st" and s: "s \<in> set (slabs_of st ko)" and used: "0 < sl_count (sw_slab st s)"
    and st1: "sw_kobj st1 = (sw_kobj st)(ko := (sw_kobj st ko)\<lparr>ko_cache := (cache_of st ko)\<lparr>ca_allocated_objects := n\<rparr>\<rparr>)"
      "sl_max (sw_slab st1 s) = slab_max (sz ko)"
  shows "\<exists>c. relist_free ko s (sl_count (sw_slab st s)) st1 = Some (upd_cache ko (\<lambda>_. c) st1) \<and>
    distinct (ca_empty c @ ca_partial c @ ca_full c) \<and> set (ca_empty c @ ca_partial c @ ca_full c) = set (slabs_of st ko) \<and>
    (\<forall>t. t \<noteq> s \<longrightarrow> (t \<in> set (ca_empty c) \<longleftrightarrow> t \<in> set (ca_empty (cache_of st ko))) \<and>
        (t \<in> set (ca_partial c) \<longleftrightarrow> t \<in> set (ca_partial (cache_of st ko))) \<and> (t \<in> set (ca_full c) \<longleftrightarrow> t \<in> set (ca_full (cache_of st ko)))) \<and>
    (\<forall>sl. sl_count sl + 1 = sl_count (sw_slab st s) \<longrightarrow> sl_max sl = slab_max (sz ko) \<longrightarrow> on_list c s sl)"
proof -
  have init: "ko_initialized (sw_kobj st ko)" using s by (auto simp: slabs_of_def split: if_splits)
  note so = slabs_of_def [of st ko] 
  have d: "distinct (ca_empty (cache_of st ko) @ ca_partial (cache_of st ko) @ ca_full (cache_of st ko))"
    using slab_invD(7) [OF inv, of ko] init by (simp add: so)
  have mx: "sl_max (sw_slab st s) = slab_max (sz ko)" by (rule slab_okD(1) [OF slab_invD(8) [OF inv s]])
  have le: "sl_count (sw_slab st s) \<le> slab_max (sz ko)" using slab_okD(4) [OF slab_invD(8) [OF inv s]] by simp
  have ol: "on_list (cache_of st ko) s (sw_slab st s)" by (rule slab_invD(9) [OF inv s])
  have l: "s \<in> set (ca_empty (cache_of st ko)) \<union> set (ca_partial (cache_of st ko)) \<union> set (ca_full (cache_of st ko))"
    using s init by (auto simp: so)
  have nf: "s \<notin> set (ca_empty (cache_of st ko))" using ol used by (auto simp: on_list_def)
  let ?c0 = "(cache_of st ko)\<lparr>ca_allocated_objects := n\<rparr>"
  consider "sl_count (sw_slab st s) = slab_max (sz ko)" | "sl_count (sw_slab st s) = 1" "slab_max (sz ko) \<noteq> 1"
    | "sl_count (sw_slab st s) \<noteq> 1" "sl_count (sw_slab st s) < slab_max (sz ko)" using le by linarith
  then show ?thesis
  proof cases
    case 1
    then have p: "s \<in> set (ca_full (cache_of st ko))" using l nf ol mx by (auto simp: on_list_def)
    let ?c = "?c0\<lparr>ca_full := remove1 s (ca_full (cache_of st ko)), ca_partial := s # ca_partial (cache_of st ko)\<rparr>"
    have "relist_free ko s (sl_count (sw_slab st s)) st1 = Some (upd_cache ko (\<lambda>_. ?c) st1)"
      using 1 p st1 by (simp add: relist_free_def upd_cache_def)
    moreover have "on_list ?c s sl" if "sl_count sl + 1 = sl_count (sw_slab st s)" "sl_max sl = slab_max (sz ko)" for sl
      using that 1 d p nf slab_invD(5) [OF inv, of ko] by (auto simp: on_list_def)
    ultimately show ?thesis using d p init by (intro exI [of _ ?c]) (auto simp: so)
  next
    case 2
    then have e: "s \<in> set (ca_partial (cache_of st ko))" using l nf ol mx by (auto simp: on_list_def)
    let ?c = "?c0\<lparr>ca_partial := remove1 s (ca_partial (cache_of st ko)), ca_empty := s # ca_empty (cache_of st ko),
      ca_total_inuse := ca_total_inuse (cache_of st ko) - 1\<rparr>"
    have "relist_free ko s (sl_count (sw_slab st s)) st1 = Some (upd_cache ko (\<lambda>_. ?c) st1)"
      using 2 e st1 by (simp add: relist_free_def upd_cache_def)
    moreover have "on_list ?c s sl" if "sl_count sl + 1 = sl_count (sw_slab st s)" "sl_max sl = slab_max (sz ko)" for sl
      using that 2 d e nf by (auto simp: on_list_def)
    ultimately show ?thesis using d e init by (intro exI [of _ ?c]) (auto simp: so)
  next
    case 3
    have "relist_free ko s (sl_count (sw_slab st s)) st1 = Some st1" using 3 st1(2) by (simp add: relist_free_def)
    moreover have "st1 = upd_cache ko (\<lambda>_. ?c0) st1" using st1(1) by (simp add: upd_cache_def)
    moreover have "on_list ?c0 s sl" if "sl_count sl + 1 = sl_count (sw_slab st s)" "sl_max sl = slab_max (sz ko)" for sl
      using that 3 ol nf mx by (auto simp: on_list_def)
    ultimately show ?thesis using d init by (intro exI [of _ ?c0]) (auto simp: so)
  qed
qed

lemma free_object_ok:
  assumes inv: "slab_inv sz st" and u: "in_use sz st (ko, o')"
  shows "\<exists>st'. deallocate_object o' st = Some st' \<and> slab_inv sz st' \<and> (\<forall>b. in_use sz st' b \<longleftrightarrow> in_use sz st b \<and> b \<noteq> (ko, o')) \<and>
    sw_hdr st' = sw_hdr st \<and> sw_rest st' = sw_rest st"
proof -
  obtain s where s: "s \<in> set (slabs_of st ko)" "o' \<in> slots (sz ko) s" "o' \<notin> set (sl_objects (sw_slab st s))"
    using u by (auto simp: in_use_def)
  note ok = slab_okD [OF slab_invD(8) [OF inv s(1)]]
  let ?n = "sl_count (sw_slab st s)" and ?os = "o' # sl_objects (sw_slab st s)"
  have os: "distinct ?os" "set ?os \<subseteq> slots (sz ko) s" using ok(2,3) s(2,3) by simp_all
  have "length ?os \<le> card (slots (sz ko) s)" using os by (metis card_mono distinct_card finite_imageI finite_lessThan slots_def)
  also have "\<dots> \<le> slab_max (sz ko)" unfolding slots_def using card_image_le [of "{..<slab_max (sz ko)}"] by fastforce
  finally have used: "0 < ?n" using ok(4) by simp
  have hdr: "kh_kobj (sw_hdr st o') = ko" "kh_slab (sw_hdr st o') = s" using ok(5) [OF s(2)] by simp_all
  let ?st1 = "upd_slab s (\<lambda>x. x\<lparr>sl_count := ?n - 1\<rparr>) (upd_slab s (\<lambda>s. s\<lparr>sl_objects := o' # sl_objects s\<rparr>)
    (upd_cache ko (\<lambda>c. c\<lparr>ca_allocated_objects := ca_allocated_objects c - 1\<rparr>) st))"
  have "sw_kobj ?st1 = (sw_kobj st)(ko := (sw_kobj st ko)\<lparr>ko_cache := (cache_of st ko)\<lparr>ca_allocated_objects := ca_allocated_objects (cache_of st ko) - 1\<rparr>\<rparr>)"
    "sl_max (sw_slab ?st1 s) = slab_max (sz ko)" using ok(1) by simp_all
  from relist_free_ok [OF inv s(1) used this] obtain c where
    c: "relist_free ko s ?n ?st1 = Some (upd_cache ko (\<lambda>_. c) ?st1)"
    "distinct (ca_empty c @ ca_partial c @ ca_full c)" "set (ca_empty c @ ca_partial c @ ca_full c) = set (slabs_of st ko)"
    "\<And>t. t \<noteq> s \<Longrightarrow> (t \<in> set (ca_empty c) \<longleftrightarrow> t \<in> set (ca_empty (cache_of st ko))) \<and>
        (t \<in> set (ca_partial c) \<longleftrightarrow> t \<in> set (ca_partial (cache_of st ko))) \<and> (t \<in> set (ca_full c) \<longleftrightarrow> t \<in> set (ca_full (cache_of st ko)))"
    "\<And>sl. sl_count sl + 1 = ?n \<Longrightarrow> sl_max sl = slab_max (sz ko) \<Longrightarrow> on_list c s sl" by blast
  let ?st' = "upd_cache ko (\<lambda>_. c) ?st1" and ?sl = "(sw_slab st s)\<lparr>sl_objects := ?os, sl_count := ?n - 1\<rparr>"
  have run: "deallocate_object o' st = Some ?st'" using c(1) by (simp add: deallocate_object_def hdr Let_def)
  have f: "sw_kobj ?st' = (sw_kobj st)(ko := (sw_kobj st ko)\<lparr>ko_cache := c\<rparr>)" "sw_slab ?st' = (sw_slab st)(s := ?sl)"
    "sw_hdr ?st' = sw_hdr st" "sw_mm ?st' = sw_mm st" by simp_all
  have o: "on_list c s ?sl" using c(5) [of ?sl] ok(1) used by simp
  have sl: "sl_max ?sl = slab_max (sz ko)" "distinct (sl_objects ?sl)" "set (sl_objects ?sl) \<subseteq> slots (sz ko) s"
      "sl_count ?sl + length (sl_objects ?sl) = slab_max (sz ko)" using ok(1,4) os used by simp_all
  note step = slab_step [OF inv s(1) f c(2-4) o sl]
  have "in_use sz ?st' b \<longleftrightarrow> in_use sz st b \<and> b \<noteq> (ko, o')" for b
  proof (cases b)
    case (Pair k q)
    have "in_use sz ?st' (k, q) \<longleftrightarrow> (if k = ko \<and> q \<in> slots (sz ko) s then q \<notin> set (sl_objects ?sl) else in_use sz st (k, q))"
      by (rule step(2))
    then show ?thesis unfolding Pair using in_use_slot [OF inv s(1), of q] s(2) by (cases "k = ko \<and> q \<in> slots (sz ko) s") auto
  qed
  then show ?thesis using run step(1) by auto
qed

section \<open>The contract of a block allocator\<close>

definition obj_bytes :: "(ptr \<Rightarrow> nat) \<Rightarrow> ptr \<times> ptr \<Rightarrow> nat set" where
  "obj_bytes sz b = {snd b ..< snd b + sz (fst b)}"

definition alloc_object :: "ptr \<Rightarrow> 'w slabs \<Rightarrow> ((ptr \<times> ptr) \<times> 'w slabs) option" where
  "alloc_object ko st = do { (obj, st) \<leftarrow> allocate_from_cache ko st; Some ((ko, obj), st) }"

lemma in_use_apart:
  assumes inv: "slab_inv sz st" and b: "in_use sz st (k, p)" and c: "in_use sz st (k', q)" and ne: "(k, p) \<noteq> (k', q)"
  shows "{p..<p + sz k} \<inter> {q..<q + sz k'} = {}"
proof -
  obtain s where s: "s \<in> set (slabs_of st k)" "p \<in> slots (sz k) s" using b by (auto simp: in_use_def)
  obtain t where t: "t \<in> set (slabs_of st k')" "q \<in> slots (sz k') t" using c by (auto simp: in_use_def)
  note d = slab_invD [OF inv]
  show ?thesis
  proof (cases "s = t")
    case True
    then have "k' = k" using slab_slot_unique(1) [OF inv s(1), of t k' "s + slabstruct_size"] t(1) first_slot d(5) by auto
    then show ?thesis using slots_apart s(2) t(2) ne True by auto
  next
    case False
    obtain i j where i: "s = i * bsz 6 + PHYS_MAP_START" "allocd (pm_buddy (sw_mm st)) (6, i)"
      and j: "t = j * bsz 6 + PHYS_MAP_START" "allocd (pm_buddy (sw_mm st)) (6, j)"
      using slab_okD(6) [OF d(8) [OF s(1)]] slab_okD(6) [OF d(8) [OF t(1)]] by blast
    have "(i + 1) * bsz 6 \<le> j * bsz 6 \<or> (j + 1) * bsz 6 \<le> i * bsz 6"
      using False i(1) j(1) by (metis Suc_eq_plus1 Suc_leI linorder_neqE_nat mult_le_mono1)
    moreover have "SLAB_SIZE = bsz 6" by (simp add: SLAB_SIZE_def bsz_def MIN_SIZE_def)
    ultimately have "s + SLAB_SIZE \<le> t \<or> t + SLAB_SIZE \<le> s" using i(1) j(1) by auto
    then show ?thesis using slots_inside [OF s(2) d(6)] slots_inside [OF t(2) d(6)] by auto
  qed
qed

interpretation so: block_allocator "slab_inv sz" "in_use sz" "obj_bytes sz" enough alloc_object "\<lambda>b. deallocate_object (snd b)" for sz
proof
  fix st :: "'a slabs" and ko assume "slab_inv sz st" "enough st ko"
  from alloc_object_ok [OF this] show "\<exists>b st'. alloc_object ko st = Some (b, st') \<and> slab_inv sz st' \<and> \<not> in_use sz st b \<and>
      (\<forall>c. in_use sz st' c \<longleftrightarrow> in_use sz st c \<or> c = b)" by (auto simp: alloc_object_def)
next
  fix st :: "'a slabs" and b assume "slab_inv sz st" "in_use sz st b"
  then show "\<exists>st'. deallocate_object (snd b) st = Some st' \<and> slab_inv sz st' \<and> (\<forall>c. in_use sz st' c \<longleftrightarrow> in_use sz st c \<and> c \<noteq> b)"
    using free_object_ok [of sz st "fst b" "snd b"] by auto
next
  fix st :: "'a slabs" and b c assume "slab_inv sz st" "in_use sz st b" "in_use sz st c" "b \<noteq> c"
  then show "obj_bytes sz b \<inter> obj_bytes sz c = {}"
    using in_use_apart [of sz st "fst b" "snd b" "fst c" "snd c"] by (simp add: obj_bytes_def)
qed

section \<open>Counted objects\<close>

text \<open>Every object in use has a reference.\<close>

definition kobj_inv :: "(ptr \<Rightarrow> nat) \<Rightarrow> 'w slabs \<Rightarrow> bool" where
  "kobj_inv sz st \<longleftrightarrow> slab_inv sz st \<and> (\<forall>k q. in_use sz st (k, q) \<longrightarrow> 0 < kh_refs (sw_hdr st q))"

lemma slab_inv_cong:
  assumes "sw_kobj st' = sw_kobj st" "sw_slab st' = sw_slab st" "sw_mm st' = sw_mm st"
    "\<And>q. kh_kobj (sw_hdr st' q) = kh_kobj (sw_hdr st q) \<and> kh_slab (sw_hdr st' q) = kh_slab (sw_hdr st q) \<and> kh_magic (sw_hdr st' q) = kh_magic (sw_hdr st q)"
  shows "slab_inv sz st' = slab_inv sz st" "in_use sz st' = in_use sz st"
  using assms by (simp_all add: slab_inv_def slab_ok_def in_use_def slabs_of_def fun_eq_iff)

lemma in_use_typed:
  assumes "slab_inv sz st" "in_use sz st (k, q)"
  shows "kh_kobj (sw_hdr st q) = k" "kh_magic (sw_hdr st q) = KOBJ_HEADER_MAGIC" "q \<noteq> NULL"
proof -
  obtain s where s: "s \<in> set (slabs_of st k)" "q \<in> slots (sz k) s" using assms(2) by (auto simp: in_use_def)
  show "kh_kobj (sw_hdr st q) = k" "kh_magic (sw_hdr st q) = KOBJ_HEADER_MAGIC"
    using slab_okD(5) [OF slab_invD(8) [OF assms(1) s(1)] s(2)] by simp_all
  show "q \<noteq> NULL" using slots_inside(1) [OF s(2) slab_invD(6) [OF assms(1)]] by simp
qed

text \<open>The first use of a type sets up an empty cache.\<close>

lemma init_cache_inv:
  assumes "slab_inv sz st" "\<not> ko_initialized (sw_kobj st ko)"
    and "st' = (let st = initialize_cache ko st in st\<lparr>sw_kobj := (sw_kobj st)(ko := (sw_kobj st ko)\<lparr>ko_initialized := True\<rparr>)\<rparr>)"
  shows "slab_inv sz st'" "in_use sz st' = in_use sz st" "sw_hdr st' = sw_hdr st" "sw_mm st' = sw_mm st"
    "ko_initialized (sw_kobj st' ko)"
proof -
  have f: "sw_hdr st' = sw_hdr st" "sw_mm st' = sw_mm st" "sw_slab st' = sw_slab st" "ko_initialized (sw_kobj st' ko)"
    using assms(3) by (simp_all add: initialize_cache_def Let_def)
  have k: "sw_kobj st' k = sw_kobj st k" if "k \<noteq> ko" for k using assms(3) that by (simp add: initialize_cache_def Let_def)
  have sz: "ko_size (sw_kobj st' k) = ko_size (sw_kobj st k)" for k using assms(3) by (simp add: initialize_cache_def Let_def)
  have so: "slabs_of st' k = slabs_of st k" for k
    using assms(2,3) k [of k] by (cases "k = ko") (auto simp: slabs_of_def initialize_cache_def Let_def)
  have c: "cache_of st' k = cache_of st k" if "t \<in> set (slabs_of st k)" for t k
    using that assms(2) k [of k] by (cases "k = ko") (auto simp: slabs_of_def)
  have ok: "slab_ok z st' k t = slab_ok z st k t" for z k t by (simp add: slab_ok_def f)
  show "slab_inv sz st'" unfolding slab_inv_def so sz f(2,3) ok
    using assms(1) c unfolding slab_inv_def by (intro conjI allI impI) auto
  show "in_use sz st' = in_use sz st" by (simp add: in_use_def so f fun_eq_iff)
qed (use assms(3) in \<open>simp_all add: initialize_cache_def Let_def\<close>)

lemma kobj_allocate_ok:
  assumes inv: "kobj_inv sz st" and room: "has_free (pm_buddy (sw_mm st)) 6"
  shows "\<exists>o' st'. kobj_allocate C ko st = Some (o', st') \<and> kobj_inv sz st' \<and> kh_refs (sw_hdr st' o') = 1 \<and>
    \<not> in_use sz st (ko, o') \<and> (\<forall>b. in_use sz st' b \<longleftrightarrow> in_use sz st b \<or> b = (ko, o')) \<and>
    (\<forall>k q. in_use sz st (k, q) \<longrightarrow> sw_hdr st' q = sw_hdr st q)"
proof -
  have si: "slab_inv sz st" using inv by (simp add: kobj_inv_def)
  define st1 where "st1 = (if ko_initialized (sw_kobj st ko) then st
    else let st = initialize_cache ko st in st\<lparr>sw_kobj := (sw_kobj st)(ko := (sw_kobj st ko)\<lparr>ko_initialized := True\<rparr>)\<rparr>)"
  have s1: "slab_inv sz st1" "in_use sz st1 = in_use sz st" "sw_hdr st1 = sw_hdr st" "enough st1 ko"
    using init_cache_inv [OF si, of ko st1] si room unfolding st1_def enough_def by auto
  obtain o' st2 where a: "allocate_from_cache ko st1 = Some (o', st2)" "slab_inv sz st2" "\<not> in_use sz st (ko, o')"
    "\<forall>b. in_use sz st2 b \<longleftrightarrow> in_use sz st b \<or> b = (ko, o')" "\<And>k q. in_use sz st (k, q) \<Longrightarrow> sw_hdr st2 q = sw_hdr st q"
    using alloc_object_ok [OF s1(1,4)] s1(2,3) by auto
  have u: "in_use sz st2 (ko, o')" using a(4) by blast
  note ty = in_use_typed [OF a(2) u]
  have ne: "q \<noteq> o'" if "in_use sz st (k, q)" for k q using that a(3,4) ty(1) in_use_typed(1) [OF a(2), of k q] by auto
  let ?f = "if kh_initialized (sw_hdr st2 o') then kc_init (C ko) o' else kc_create (C ko) o'"
  define st3 where "st3 = (upd_header o' (\<lambda>h. if kh_initialized h then h\<lparr>kh_refs := 1, kh_flags := 0\<rparr>
    else h\<lparr>kh_refs := 1, kh_flags := 0, kh_initialized := True\<rparr>) st2)\<lparr>sw_rest := ?f (sw_rest st2)\<rparr>"
  have "kobj_allocate C ko st = Some (o', st3)"
    using a(1) ty(2) unfolding kobj_allocate_def st1_def [symmetric] st3_def by (simp add: Let_def upd_header_def)
  moreover have c: "slab_inv sz st3 = slab_inv sz st2" "in_use sz st3 = in_use sz st2" by (rule slab_inv_cong; simp add: st3_def)+
  moreover have h: "sw_hdr st3 q = sw_hdr st q" if "in_use sz st (k, q)" for k q using a(5) [OF that] ne [OF that] by (simp add: st3_def)
  moreover have "kh_refs (sw_hdr st3 o') = 1" by (simp add: st3_def)
  moreover have "kobj_inv sz st3" unfolding kobj_inv_def c using a(2,4) h inv \<open>kh_refs (sw_hdr st3 o') = 1\<close> by (auto simp: kobj_inv_def)
  ultimately show ?thesis using a(3,4) by auto
qed

lemma slab_putref_ok:
  assumes inv: "kobj_inv sz st" and u: "in_use sz st (k, o')"
  shows "\<exists>st'. slab_putref C o' st = Some (kh_refs (sw_hdr st o') - 1, st') \<and> kobj_inv sz st' \<and>
    (\<forall>b. in_use sz st' b \<longleftrightarrow> in_use sz st b \<and> (b = (k, o') \<longrightarrow> 1 < kh_refs (sw_hdr st o'))) \<and>
    (\<forall>q. q \<noteq> o' \<longrightarrow> sw_hdr st' q = sw_hdr st q)"
proof -
  have si: "slab_inv sz st" and pos: "0 < kh_refs (sw_hdr st o')" using inv u by (auto simp: kobj_inv_def)
  note ty = in_use_typed [OF si u]
  define st1 where "st1 = upd_header o' (\<lambda>h. h\<lparr>kh_refs := kh_refs (sw_hdr st o') - 1\<rparr>) st"
  have c1: "slab_inv sz st1 = slab_inv sz st" "in_use sz st1 = in_use sz st" by (rule slab_inv_cong; simp add: st1_def)+
  have other: "q \<noteq> o'" if "in_use sz st (k', q)" "(k', q) \<noteq> (k, o')" for k' q
    using that ty(1) in_use_typed(1) [OF si that(1)] by auto
  show ?thesis
  proof (cases "kh_refs (sw_hdr st o') = 1")
    case False
    have "slab_putref C o' st = Some (kh_refs (sw_hdr st o') - 1, st1)"
      using ty pos False by (simp add: slab_putref_def st1_def Let_def)
    moreover have "kobj_inv sz st1" unfolding kobj_inv_def c1 using inv pos False si by (auto simp: kobj_inv_def st1_def)
    ultimately show ?thesis using c1 pos False by (auto simp: st1_def)
  next
    case True
    let ?st2 = "st1\<lparr>sw_rest := kc_put (C (kh_kobj (sw_hdr st1 o'))) o' (sw_rest st1)\<rparr>"
    have c2: "slab_inv sz ?st2 = slab_inv sz st1" "in_use sz ?st2 = in_use sz st1" by (rule slab_inv_cong; simp)+
    obtain st' where f: "deallocate_object o' ?st2 = Some st'" "slab_inv sz st'" "\<forall>b. in_use sz st' b \<longleftrightarrow> in_use sz st b \<and> b \<noteq> (k, o')"
      "sw_hdr st' = sw_hdr st1" using free_object_ok [of sz ?st2 k o'] si u c1 c2 by auto
    have "slab_putref C o' st = Some (kh_refs (sw_hdr st o') - 1, st')"
      using ty True f(1) by (simp add: slab_putref_def st1_def Let_def)
    moreover have "kobj_inv sz st'" unfolding kobj_inv_def using f(2-4) inv other by (auto simp: kobj_inv_def st1_def)
    ultimately show ?thesis using f(3,4) True by (auto simp: st1_def)
  qed
qed

lemma slab_getref_ok:
  assumes inv: "kobj_inv sz st" and u: "in_use sz st (k, o')"
  shows "\<exists>st'. slab_getref o' st = Some st' \<and> kobj_inv sz st' \<and> in_use sz st' = in_use sz st"
proof -
  let ?st' = "upd_header o' (\<lambda>h. h\<lparr>kh_refs := kh_refs h + 1\<rparr>) st"
  have si: "slab_inv sz st" and pos: "0 < kh_refs (sw_hdr st o')" using inv u by (auto simp: kobj_inv_def)
  have c: "slab_inv sz ?st' = slab_inv sz st" "in_use sz ?st' = in_use sz st" by (rule slab_inv_cong; simp)+
  have "slab_getref o' st = Some ?st'" using in_use_typed [OF si u] pos by (simp add: slab_getref_def)
  moreover have "kobj_inv sz ?st'" unfolding kobj_inv_def c using inv pos by (auto simp: kobj_inv_def)
  ultimately show ?thesis using c by blast
qed

section \<open>Properties\<close>

text \<open>C5: allocating an object, as long as the buddy allocator has a block of 64 pages, never panics
  and returns memory that overlaps no object in use of any type; the object has one reference, it
  is the only one that becomes in use, and the headers of the others are untouched.\<close>

theorem kobj_allocate_apart:
  assumes "kobj_inv sz st" and "has_free (pm_buddy (sw_mm st)) 6"
  shows "\<exists>o' st'. kobj_allocate C ko st = Some (o', st') \<and> kobj_inv sz st' \<and> kh_refs (sw_hdr st' o') = 1 \<and>
    (\<forall>b. in_use sz st' b \<longleftrightarrow> in_use sz st b \<or> b = (ko, o')) \<and>
    (\<forall>k q. in_use sz st (k, q) \<longrightarrow> {o'..<o' + sz ko} \<inter> {q..<q + sz k} = {} \<and> sw_hdr st' q = sw_hdr st q)"
proof -
  obtain o' st' where *: "kobj_allocate C ko st = Some (o', st')" "kobj_inv sz st'" "kh_refs (sw_hdr st' o') = 1"
    "\<not> in_use sz st (ko, o')" "\<forall>b. in_use sz st' b \<longleftrightarrow> in_use sz st b \<or> b = (ko, o')"
    "\<forall>k q. in_use sz st (k, q) \<longrightarrow> sw_hdr st' q = sw_hdr st q" using kobj_allocate_ok [OF assms] by blast
  have "obj_bytes sz (ko, o') \<inter> obj_bytes sz (k, q) = {}" if "in_use sz st (k, q)" for k q
    using so.apart [of sz st' "(ko, o')" "(k, q)"] * that by (auto simp: kobj_inv_def)
  then show ?thesis using * by (auto simp: obj_bytes_def)
qed


text \<open>Runs of allocations, new references and dropped references.\<close>

inductive kobj_step :: "(ptr \<Rightarrow> nat) \<Rightarrow> (ptr \<Rightarrow> 'w kobj_calls) \<Rightarrow> 'w slabs \<Rightarrow> 'w slabs \<Rightarrow> bool"
  for sz :: "ptr \<Rightarrow> nat" and C :: "ptr \<Rightarrow> 'w kobj_calls" where
  alloc: "has_free (pm_buddy (sw_mm st)) 6 \<Longrightarrow> kobj_allocate C ko st = Some (o', st') \<Longrightarrow> kobj_step sz C st st'"
| getref: "in_use sz st (k, o') \<Longrightarrow> slab_getref o' st = Some st' \<Longrightarrow> kobj_step sz C st st'"
| putref: "in_use sz st (k, o') \<Longrightarrow> slab_putref C o' st = Some (n, st') \<Longrightarrow> kobj_step sz C st st'"

lemma kobj_step_inv: "kobj_step sz C st st' \<Longrightarrow> kobj_inv sz st \<Longrightarrow> kobj_inv sz st'"
proof (induction rule: kobj_step.induct)
  case (alloc st ko o' st')
  then show ?case using kobj_allocate_ok [of sz st C ko] by auto
next
  case (getref st k o' st')
  then show ?case using slab_getref_ok [of sz st k o'] by auto
next
  case (putref st k o' n st')
  then show ?case using slab_putref_ok [of sz st k o' C] by auto
qed

text \<open>C40: the memory of objects is typed. However objects are allocated, shared and dropped, the
  header of every object in use carries the magic number and the type the object was allocated
  with, no address is in use with two types, and the bytes of two objects never overlap.\<close>

theorem kobj_typed:
  assumes "kobj_inv sz st" and "(kobj_step sz C)\<^sup>*\<^sup>* st st'"
  shows "in_use sz st' (k, q) \<Longrightarrow> kh_kobj (sw_hdr st' q) = k \<and> kh_magic (sw_hdr st' q) = KOBJ_HEADER_MAGIC \<and>
    0 < kh_refs (sw_hdr st' q) \<and>
    (\<forall>k' p. in_use sz st' (k', p) \<longrightarrow> (k', p) = (k, q) \<or> {p..<p + sz k'} \<inter> {q..<q + sz k} = {})"
proof -
  assume u: "in_use sz st' (k, q)"
  have inv: "kobj_inv sz st'" using assms(2,1) by (induction rule: rtranclp_induct) (auto intro: kobj_step_inv)
  then have si: "slab_inv sz st'" and "0 < kh_refs (sw_hdr st' q)" using u by (auto simp: kobj_inv_def)
  moreover have "(k', p) = (k, q) \<or> {p..<p + sz k'} \<inter> {q..<q + sz k} = {}" if "in_use sz st' (k', p)" for k' p
    using in_use_apart [OF si that u] by blast
  ultimately show ?thesis using in_use_typed(1,2) [OF si u] by blast
qed

text \<open>When a slab has room for one object only, the first allocation stops the kernel: the slab is
  moved from the list of partly used slabs without being there.\<close>

lemma single_object_slab_panics:
  assumes "slab_max (ko_size (sw_kobj st ko)) = 1" "\<not> ko_initialized (sw_kobj st ko)"
  shows "kobj_allocate C ko st = None"
proof -
  let ?st = "let st = initialize_cache ko st in st\<lparr>sw_kobj := (sw_kobj st)(ko := (sw_kobj st ko)\<lparr>ko_initialized := True\<rparr>)\<rparr>"
  have e: "ca_partial (cache_of ?st ko) = []" "ca_empty (cache_of ?st ko) = []" "slab_max (ko_size (sw_kobj ?st ko)) = 1"
    using assms(1) by (simp_all add: initialize_cache_def Let_def)
  have "allocate_from_cache ko ?st = None"
  proof (cases "create_new_slab ko ?st")
    case None
    then show ?thesis using e(1,2) by (simp add: allocate_from_cache_def pick_slab_def)
  next
    case (Some r)
    obtain s st1 where r: "r = (s, st1)" by (cases r)
    have f: "sl_count (sw_slab st1 s) = 0" "sl_max (sw_slab st1 s) = 1" "sw_kobj st1 = sw_kobj ?st"
      using Some e(3) unfolding r create_new_slab_def
      by (auto simp: Let_def clear_headers_def push_objects_fields elim!: bind_eq_SomeE split: prod.splits)
    then show ?thesis using e(1,2) Some unfolding r by (simp add: allocate_from_cache_def pick_slab_def relist_alloc_def Let_def)
  qed
  then show ?thesis using assms(2) by (simp add: kobj_allocate_def)
qed

section \<open>A system with free memory\<close>

definition kcalls0 :: "ptr \<Rightarrow> nat kobj_calls" where
  "kcalls0 ko = \<lparr>kc_create = \<lambda>_ n. n + 1, kc_init = \<lambda>_ n. n, kc_put = \<lambda>_ n. n\<rparr>"

definition kst0 :: "nat slabs" where
  "kst0 = \<lparr>sw_kobj = \<lambda>_. \<lparr>ko_size = 0x100, ko_initialized = False, ko_cache = \<lparr>ca_empty = [], ca_partial = [], ca_full = [],
       ca_total_slabs = 0, ca_total_inuse = 0, ca_allocated_objects = 0\<rparr>\<rparr>,
     sw_slab = \<lambda>_. \<lparr>sl_max = 0, sl_count = 0, sl_objects = []\<rparr>,
     sw_hdr = \<lambda>_. \<lparr>kh_refs = 0, kh_flags = 0, kh_magic = 0, kh_kobj = 0, kh_slab = 0, kh_initialized = False\<rparr>,
     sw_cache_list = [],
     sw_mm = \<lparr>pm_early = False, pm_start = 0, pm_buddy = buddy_top, pm_words = \<lambda>_. 0, pm_invalidated = []\<rparr>, sw_rest = 0\<rparr>"

lemma kst0_inv: "kobj_inv (\<lambda>_. 0x100) kst0" "has_free (pm_buddy (sw_mm kst0)) 6"
proof -
  have so: "slabs_of kst0 k = []" for k by (simp add: slabs_of_def kst0_def)
  then show "kobj_inv (\<lambda>_. 0x100) kst0" using buddy_top_inv(1)
    by (simp add: kobj_inv_def slab_inv_def in_use_def)
      (simp add: kst0_def slab_max_def SLAB_SIZE_def slabstruct_size_def sizeof_slab_def)
  have "valid 18 1" "bd_test 18 (flip 1) buddy_top" "\<not> bd_test 18 1 buddy_top"
    using buddy_top_test [of 18 0] buddy_top_test [of 18 1] by (simp_all add: valid_def nb_def flip_def)
  then have "has_free buddy_top 18" using free_listed [OF buddy_top_inv(1)] by blast
  then show "has_free (pm_buddy (sw_mm kst0)) 6" unfolding has_free_def kst0_def by (auto intro!: exI [of _ 18])
qed

theorem kobj_allocate_apart_witness:
  "\<exists>o' st'. kobj_allocate kcalls0 7 kst0 = Some (o', st') \<and> kh_refs (sw_hdr st' o') = 1 \<and> in_use (\<lambda>_. 0x100) st' (7, o')"
  using kobj_allocate_apart [OF kst0_inv, of kcalls0 7] by blast


theorem kobj_typed_witness:
  "\<exists>o' st'. kobj_step (\<lambda>_. 0x100) kcalls0 kst0 st' \<and> in_use (\<lambda>_. 0x100) st' (7, o') \<and> kh_kobj (sw_hdr st' o') = 7"
proof -
  obtain o' st' where 1: "kobj_allocate kcalls0 7 kst0 = Some (o', st')" "in_use (\<lambda>_. 0x100) st' (7, o')"
    using kobj_allocate_ok [OF kst0_inv, of kcalls0 7] by blast
  then have s: "kobj_step (\<lambda>_. 0x100) kcalls0 kst0 st'" by (intro kobj_step.alloc [OF kst0_inv(2)])
  then have "(kobj_step (\<lambda>_. 0x100) kcalls0)\<^sup>*\<^sup>* kst0 st'" by (rule r_into_rtranclp)
  with kobj_typed [OF kst0_inv(1) this 1(2)] 1 s show ?thesis by blast
qed

end
