(* ===== verification/Spec2Isabelle.thy ===== *)
theory Spec2Isabelle
  imports LinkedList KStack KString Bitmap Hash Qsort PriQueue Timer Buddy CharBuffer Pipe Files Radix PhysMem X86Paging RamFs KobjLru InodeData Slab
begin

text \<open>
  A verification library for seakernel, a small Unix-like operating system kernel written in C.
  File names below are relative to the root of its sources. The kernel runs on the x86-64 and
  aarch64 machines; where the architecture matters, the model is the x86-64 one.

  \<^bold>\<open>The program and its parts.\<close> At the bottom of the kernel stand the data structures it shares
  between all parts (\<open>include/lib\<close>, \<open>lib/ds\<close>, \<open>lib/string\<close>) and the physical memory manager
  (\<open>kernel/pm_buddy.c\<close>, \<open>kernel/mmu.c\<close>). The page tables (\<open>arch/x86_64/kernel/mmu.c\<close>) take their
  tables from physical memory, and so does the object allocator (\<open>kernel/slab.c\<close>), from which all
  counted objects come. Caches of such objects (\<open>kernel/kobj_lru.c\<close>) hold pages, inodes and
  directory entries. Files are reached through descriptors (\<open>kernel/fs/file.c\<close>,
  \<open>kernel/sys/open.c\<close>); behind a descriptor is a pipe (\<open>kernel/fs/pipe.c\<close>), whose bytes are in a
  character buffer (\<open>kernel/charbuffer.c\<close>), or an inode, whose data are in the page cache
  (\<open>kernel/fs/inode.c\<close>, \<open>kernel/fs/inoderw.c\<close>) above a file system (\<open>kernel/fs/ramfs.c\<close>).
  Processors pick threads from a priority queue (\<open>kernel/queue.c\<close>), and a wheel of timers
  (\<open>kernel/timer.c\<close>) drives timeouts.

  \<^bold>\<open>Conventions of the models.\<close> A pointer is a natural number with 0 as \<open>NULL\<close>. A function that can
  stop the kernel, through \<open>panic\<close> or \<open>assert\<close> (which \<open>config.cfg\<close> turns on), has a result in
  \<open>option\<close>, and None is the stopped kernel; in a partial function None is also a loop that never
  ends. Error codes are the negative integers that the C functions return. Machine integers are
  words of their width wherever their wrapping can be seen, and naturals or integers where an
  invariant keeps them far from their limits; each theory says which. A section that the source
  protects by a lock is one atomic step; the one exception is the character buffer, where the
  single stores of a writer and a reader that do not share a lock are steps of their own. Callbacks
  and other parts of the system that a component only calls are arguments of its definitions.

  \<^bold>\<open>Theories, from the bottom.\<close> Every theory has the structures of its C files first, then one
  definition for each C function, then the invariant, and the properties last.
  \<^item> \<open>Prelude\<close>: machine types, the panic monad, error numbers, lemmas on words and lists.
  \<^item> \<open>LinkedList\<close> (\<open>lib/ds/linkedlist.c\<close>), \<open>KStack\<close> (\<open>lib/ds/stack.c\<close>): pointer-level models of the
    intrusive list and stack. Their representation predicates relate the heap to plain lists; the
    list operations \<open>ls_remove\<close> and \<open>ls_next\<close> that all later theories use are proved to be what
    the pointer code does. The locales \<open>entry_list\<close> and \<open>intrusive_stack\<close> are their contracts.
  \<^item> \<open>KString\<close> (\<open>lib/string/mem.c\<close>), \<open>Bitmap\<close> (\<open>include/lib/bitmap.h\<close>): byte memory and its routines.
  \<^item> \<open>Hash\<close> (\<open>lib/ds/hash.c\<close>): the table refines finite maps (locale \<open>dictionary\<close>), and an iteration
    visits every entry once. \<open>Qsort\<close> (\<open>lib/ds/qsort.c\<close>, \<open>kernel/random.c\<close>): the sort gives a sorted permutation for any
    numbers the generator draws and any total comparison (locale \<open>comparison\<close>).
  \<^item> \<open>PriQueue\<close> (\<open>kernel/queue.c\<close>), \<open>Timer\<close> (\<open>kernel/timer.c\<close>): highest priority first and first come
    first served within a priority (locale \<open>priority_queue\<close>); every timer expires exactly once, at its tick.
  \<^item> \<open>Buddy\<close> (\<open>kernel/pm_buddy.c\<close>): blocks that are handed out never overlap, and giving one back frees
    that one exactly. The locale \<open>block_allocator\<close> is the contract of an allocator; it is
    interpreted on the buddy allocator here and on the object allocator in \<open>Slab\<close>.
  \<^item> \<open>PhysMem\<close> (\<open>kernel/mmu.c\<close>), \<open>Radix\<close>, \<open>X86Paging\<close> (\<open>arch/x86_64/kernel/mmu.c\<close>): \<open>Radix\<close> is a locale
    for radix trees in physical memory, interpreted on the x86-64 tables; mapping and unmapping a
    page change exactly that page of that address space and of no other.
  \<^item> \<open>Slab\<close> (\<open>kernel/slab.c\<close>): objects in use never overlap, keep their type, and are freed exactly when
    their last reference goes.
  \<^item> \<open>CharBuffer\<close> (\<open>kernel/charbuffer.c\<close>), \<open>Pipe\<close> (\<open>kernel/fs/pipe.c\<close>), \<open>Files\<close> (\<open>kernel/fs/file.c\<close>,
    \<open>kernel/sys/open.c\<close>, \<open>kernel/sys/ctl.c\<close>): bytes leave in the order they came, also when a writer and
    a reader interleave; the end of a pipe is noticed; the counts of files and of pipe ends are the
    numbers of descriptors in every reachable state.
  \<^item> \<open>RamFs\<close> (\<open>kernel/fs/ramfs.c\<close>): directories refine finite maps, attributes survive a round trip,
    listings respect the size of the buffer. \<open>KobjLru\<close> (\<open>kernel/kobj_lru.c\<close>): the cache, with the locale
    \<open>lru_client\<close> for what its client must provide. \<open>InodeData\<close> (\<open>kernel/fs/inode.c\<close>,
    \<open>kernel/fs/inoderw.c\<close>) interprets it on the page cache over \<open>RamFs\<close> and proves that files are
    sequences of bytes, whatever pages are evicted.

  \<^bold>\<open>Bounds and fuel.\<close> Loops whose end depends on memory contents or on other threads are partial
  functions, and the theorems that use them state that they end. File data are bounded by offsets
  up to \<open>2 ^ 43\<close>, which is what \<open>2 ^ 31\<close> pages of 4 KiB allow, because the source passes page
  numbers as \<open>int\<close>. The buddy allocator is bounded by its eighteen orders with bitmaps of their own.
  A physical address in a page table is below \<open>2 ^ 63\<close>. A slab must have
  room for two objects of its type, as allocation stops the kernel otherwise.

  \<^bold>\<open>Not modelled.\<close> Assembly and the boot code; the drivers and the interrupt controllers, which are
  sequences of accesses to device registers whose effect is not in the sources; the flattened device
  tree library, which is a copy of an external one; the programs for user space and the ports. Of
  the kernel proper: the switch between threads and the code that sleeps and wakes them, so nothing
  is said about fairness or about races between critical sections; path resolution and mounting;
  the network stack; terminals; \<open>fork\<close>, \<open>execve\<close>, signals and waiting for children; the reports
  under \<open>/proc\<close>, which only print.
\<close>

end
